(* ===== verification/Prelude.thy ===== *)
theory Prelude
  imports Complex_Main "HOL-Library.Sublist"
begin

text \<open>
  Shared vocabulary of the development: Go's times and durations, the string helpers of the
  packages \<open>strings\<close>, \<open>encoding/hex\<close> and \<open>strconv\<close> that the sources call, the answer a relay hook
  gives, and the generic lemmas on maps, finite sets and lists that the component theories share.

  A \<open>time.Time\<close> and a \<open>time.Duration\<close> are integers counting nanoseconds; \<open>Unix()\<close> is the floor of
  the seconds. A \<open>float64\<close> of the rate limiters is an exact rational. A Go string is a list of
  bytes, which is what \<open>len\<close>, slicing and indexing of the sources count.
\<close>

named_theorems guard_defs "definitions of the guards, unfolded together in branch proofs"
named_theorems inv_intros "an operation keeps its component's invariant"

section \<open>Times\<close>

type_synonym nanos = int
type_synonym unix = int

definition second :: nanos where "second = 1000000000"
definition minute :: nanos where "minute = 60 * second"
definition hour :: nanos where "hour = 60 * minute"

lemmas duration_defs = second_def minute_def hour_def

text \<open>\<open>time.Time{}\<close>, the first instant of year one.\<close>

definition time_zero :: nanos where "time_zero = - 62135596800 * second"

definition to_unix :: "nanos \<Rightarrow> unix" where "to_unix t = t div second"
definition of_unix :: "unix \<Rightarrow> nanos" where "of_unix s = s * second"

text \<open>\<open>Duration.Seconds()\<close>.\<close>

definition seconds :: "nanos \<Rightarrow> rat" where "seconds d = of_int d / of_int second"

lemma second_pos [simp]: "0 < second" by (simp add: second_def)

lemma to_unix_of_unix [simp]: "to_unix (of_unix s) = s"
  by (simp add: to_unix_def of_unix_def second_def)

lemma to_unix_mono: "a \<le> b \<Longrightarrow> to_unix a \<le> to_unix b"
  by (simp add: to_unix_def zdiv_mono1)

lemma seconds_diff: "seconds (c - a) = seconds (c - b) + seconds (b - a)"
  by (simp add: seconds_def add_divide_distrib [symmetric])

lemma seconds_nonneg [simp]: "0 \<le> seconds d \<longleftrightarrow> 0 \<le> d"
  by (simp add: seconds_def second_def zero_le_divide_iff)

lemma seconds_0 [simp]: "seconds 0 = 0" by (simp add: seconds_def)

section \<open>Strings\<close>

text \<open>\<open>strings.ToLower\<close> on the ASCII bytes the sources compare.\<close>

definition lower_char :: "char \<Rightarrow> char" where
  "lower_char c = (let n = of_char c :: nat in
     if 65 \<le> n \<and> n \<le> 90 then char_of (n + 32) else c)"

definition to_lower :: "string \<Rightarrow> string" where
  "to_lower = map lower_char"

definition has_prefix :: "string \<Rightarrow> string \<Rightarrow> bool" where
  "has_prefix s p = prefix p s"

definition has_suffix :: "string \<Rightarrow> string \<Rightarrow> bool" where
  "has_suffix s p = suffix p s"

definition contains_any :: "string \<Rightarrow> string \<Rightarrow> bool" where
  "contains_any s cs = list_ex (\<lambda>c. c \<in> set cs) s"

text \<open>One digit of \<open>hex.DecodeString\<close>, either case.\<close>

definition hex_val :: "char \<Rightarrow> nat option" where
  "hex_val c = (let n = of_char c :: nat in
     if 48 \<le> n \<and> n \<le> 57 then Some (n - 48)
     else if 97 \<le> n \<and> n \<le> 102 then Some (n - 87)
     else if 65 \<le> n \<and> n \<le> 70 then Some (n - 55)
     else None)"

text \<open>\<open>hex.DecodeString\<close>: \<open>None\<close> is the error, for a character that is no digit or an odd length.\<close>

fun hex_decode :: "string \<Rightarrow> string option" where
  "hex_decode [] = Some []"
| "hex_decode [_] = None"
| "hex_decode (a # b # s) =
     (case (hex_val a, hex_val b, hex_decode s) of
        (Some x, Some y, Some r) \<Rightarrow> Some (char_of (16 * x + y) # r)
      | _ \<Rightarrow> None)"

definition hex_digit :: "nat \<Rightarrow> char" where
  "hex_digit n = char_of (if n < 10 then 48 + n else 87 + n)"

definition hex_encode :: "string \<Rightarrow> string" where
  "hex_encode s = concat (map (\<lambda>c. let n = of_char c :: nat in
     [hex_digit (n div 16), hex_digit (n mod 16)]) s)"

lemma of_char_char_of: "n < 256 \<Longrightarrow> (of_char (char_of n :: char) :: nat) = n"
  by (simp add: of_char_of)

lemma lower_char_idem [simp]: "lower_char (lower_char c) = lower_char c"
  by (simp add: lower_char_def Let_def of_char_char_of)

lemma to_lower_idem [simp]: "to_lower (to_lower s) = to_lower s"
  by (simp add: to_lower_def)

lemma length_to_lower [simp]: "length (to_lower s) = length s"
  by (simp add: to_lower_def)

lemma hex_val_digit: "n < 16 \<Longrightarrow> hex_val (hex_digit n) = Some n"
  by (auto simp: hex_val_def hex_digit_def Let_def of_char_char_of)

lemma hex_decode_encode: "hex_decode (hex_encode s) = Some s"
proof (induction s)
  case Nil
  then show ?case by (simp add: hex_encode_def)
next
  case (Cons c s)
  have hi: "(of_char c :: nat) div 16 < 16"
    using nat_of_char_less_256 [of c] by linarith
  have "16 * ((of_char c :: nat) div 16) + of_char c mod 16 = of_char c" by simp
  moreover have "hex_decode (hex_encode (c # s)) =
     (case hex_decode (hex_encode s) of Some r \<Rightarrow>
        Some (char_of (16 * ((of_char c :: nat) div 16) + of_char c mod 16) # r) | None \<Rightarrow> None)"
    by (simp add: hex_encode_def Let_def hex_val_digit hi split: option.split)
  ultimately show ?case using Cons by simp
qed

lemma hex_decode_length: "hex_decode s = Some r \<Longrightarrow> length s = 2 * length r"
  by (induction s arbitrary: r rule: hex_decode.induct) (auto split: option.splits)

lemma length_hex_encode [simp]: "length (hex_encode s) = 2 * length s"
  by (induction s) (auto simp: hex_encode_def Let_def)

section \<open>What a reject hook answers\<close>

text \<open>
  The hooks of the relay return \<open>(bool, string)\<close>: \<open>(false, "")\<close> takes the event and
  \<open>(true, msg)\<close> refuses it with \<open>msg\<close>.
\<close>

datatype answer = Taken | Refused string

section \<open>Finite maps and their counts\<close>

text \<open>How many entries of a map satisfy a predicate: what the sources keep in a counter.\<close>

definition count_map :: "('v \<Rightarrow> bool) \<Rightarrow> ('k \<rightharpoonup> 'v) \<Rightarrow> int" where
  "count_map P m = int (card {k. \<exists>v. m k = Some v \<and> P v})"

lemma finite_count_set: "finite (dom m) \<Longrightarrow> finite {k. \<exists>v. m k = Some v \<and> P v}"
  by (rule finite_subset [of _ "dom m"]) auto

lemma count_map_nonneg [simp]: "0 \<le> count_map P m"
  by (simp add: count_map_def)

lemma count_map_empty [simp]: "count_map P Map.empty = 0"
  by (simp add: count_map_def)

lemma count_map_insert:
  assumes "finite (dom m)" and "m k = None"
  shows "count_map P (m(k \<mapsto> v)) = count_map P m + (if P v then 1 else 0)"
proof (cases "P v")
  case True
  have "{j. \<exists>w. (m(k \<mapsto> v)) j = Some w \<and> P w} = insert k {j. \<exists>w. m j = Some w \<and> P w}"
    using True assms(2) by auto
  then show ?thesis using assms True by (simp add: count_map_def finite_count_set)
next
  case False
  have "{j. \<exists>w. (m(k \<mapsto> v)) j = Some w \<and> P w} = {j. \<exists>w. m j = Some w \<and> P w}"
    using False assms(2) by auto
  then show ?thesis using False by (simp add: count_map_def)
qed

lemma count_map_delete:
  assumes "finite (dom m)" and "m k = Some v"
  shows "count_map P (m(k := None)) = count_map P m - (if P v then 1 else 0)"
proof (cases "P v")
  case True
  let ?S = "{j. \<exists>w. m j = Some w \<and> P w}"
  have "{j. \<exists>w. (m(k := None)) j = Some w \<and> P w} = ?S - {k}" by auto
  moreover have "k \<in> ?S" using True assms(2) by simp
  moreover have "finite ?S" using assms(1) by (rule finite_count_set)
  ultimately have "int (card {j. \<exists>w. (m(k := None)) j = Some w \<and> P w}) = int (card ?S) - 1"
    using card_Suc_Diff1 [of ?S k] by simp
  then show ?thesis using True by (simp add: count_map_def)
next
  case False
  have "{j. \<exists>w. (m(k := None)) j = Some w \<and> P w} = {j. \<exists>w. m j = Some w \<and> P w}"
    using False assms(2) by (auto split: if_splits)
  then show ?thesis using False by (simp add: count_map_def)
qed

lemma count_map_replace:
  assumes "finite (dom m)" and "m k = Some v" and "P v \<longleftrightarrow> P w"
  shows "count_map P (m(k \<mapsto> w)) = count_map P m"
proof -
  have "{j. \<exists>u. (m(k \<mapsto> w)) j = Some u \<and> P u} = {j. \<exists>u. m j = Some u \<and> P u}"
    using assms(2,3) by (auto split: if_splits)
  then show ?thesis by (simp add: count_map_def)
qed

lemma count_map_cong:
  assumes "\<And>k v. m k = Some v \<Longrightarrow> P v \<longleftrightarrow> Q v"
  shows "count_map P m = count_map Q m"
proof -
  have "{k. \<exists>v. m k = Some v \<and> P v} = {k. \<exists>v. m k = Some v \<and> Q v}"
    using assms by auto
  then show ?thesis by (simp add: count_map_def)
qed

lemma count_map_pos:
  assumes "finite (dom m)" and "m k = Some v" and "P v"
  shows "0 < count_map P m"
  using assms finite_count_set [OF assms(1), of P] by (auto simp: count_map_def card_gt_0_iff)

lemma finite_dom_upd [simp]: "finite (dom (m(k \<mapsto> v))) \<longleftrightarrow> finite (dom m)"
  by simp

lemma finite_dom_del [simp]: "finite (dom (m(k := None))) \<longleftrightarrow> finite (dom m)"
  by simp

end
