(* ===== verification/Strconv.thy ===== *)
theory Strconv
  imports Prelude
begin

text \<open>
  Package \<open>strconv\<close> and the parts of package \<open>strings\<close> that take a text apart, as the sources use
  them: decimal numbers both ways, splitting at a separator, trimming. The lemmas are the round
  trips the line formats of the program rest on.
\<close>

section \<open>Decimal numbers\<close>

definition digit_val :: "char \<Rightarrow> nat option" where
  "digit_val c = (let n = of_char c :: nat in if 48 \<le> n \<and> n \<le> 57 then Some (n - 48) else None)"

fun parse_digits :: "nat \<Rightarrow> string \<Rightarrow> nat option" where
  "parse_digits acc [] = Some acc"
| "parse_digits acc (c # s) =
     (case digit_val c of Some d \<Rightarrow> parse_digits (10 * acc + d) s | None \<Rightarrow> None)"

definition parse_nat :: "string \<Rightarrow> nat option" where
  "parse_nat s = (if s = [] then None else parse_digits 0 s)"

text \<open>\<open>strconv.ParseUint(s, 10, 64)\<close> and \<open>strconv.ParseInt(s, 10, 64)\<close>, which \<open>Atoi\<close> is as well.\<close>

definition ParseUint :: "string \<Rightarrow> nat option" where
  "ParseUint s = (case parse_nat s of Some n \<Rightarrow> if n < 2 ^ 64 then Some n else None | None \<Rightarrow> None)"

definition ParseInt :: "string \<Rightarrow> int option" where
  "ParseInt s =
     (let neg = s \<noteq> [] \<and> hd s = CHR ''-'';
          rest = (if s \<noteq> [] \<and> (hd s = CHR ''-'' \<or> hd s = CHR ''+'') then tl s else s)
      in case parse_nat rest of
           None \<Rightarrow> None
         | Some n \<Rightarrow> if neg then (if n \<le> 2 ^ 63 then Some (- int n) else None)
                     else if n < 2 ^ 63 then Some (int n) else None)"

fun show_nat :: "nat \<Rightarrow> string" where
  "show_nat n = (if n < 10 then [char_of (48 + n)] else show_nat (n div 10) @ [char_of (48 + n mod 10)])"

declare show_nat.simps [simp del]

text \<open>\<open>strconv.Itoa\<close> and \<open>FormatInt(_, 10)\<close>.\<close>

definition Itoa :: "int \<Rightarrow> string" where
  "Itoa i = (if i < 0 then CHR ''-'' # show_nat (nat (- i)) else show_nat (nat i))"

lemma digit_val_char: "d < 10 \<Longrightarrow> digit_val (char_of (48 + d)) = Some d"
  by (simp add: digit_val_def of_char_char_of Let_def)

lemma parse_digits_append:
  "parse_digits acc (s @ t) = (case parse_digits acc s of Some n \<Rightarrow> parse_digits n t | None \<Rightarrow> None)"
  by (induction acc s rule: parse_digits.induct) (auto split: option.splits)

lemma parse_show_nat: "parse_digits 0 (show_nat n) = Some n"
proof (induction n rule: show_nat.induct)
  case (1 n)
  show ?case
  proof (cases "n < 10")
    case True
    then show ?thesis by (subst show_nat.simps) (simp add: digit_val_char)
  next
    case False
    then show ?thesis using 1
      by (subst show_nat.simps) (simp add: parse_digits_append digit_val_char mod_mult_div_eq
          del: parse_digits.simps(2), simp add: digit_val_char)
  qed
qed

lemma show_nat_nonempty [simp]: "show_nat n \<noteq> []"
  by (subst show_nat.simps) auto

definition is_digit :: "char \<Rightarrow> bool" where
  "is_digit c \<longleftrightarrow> digit_val c \<noteq> None"

lemma show_nat_digits: "c \<in> set (show_nat n) \<Longrightarrow> is_digit c"
proof (induction n rule: show_nat.induct)
  case (1 n)
  then show ?case
    by (subst (asm) show_nat.simps) (auto simp: is_digit_def digit_val_char split: if_splits)
qed

lemma parse_nat_show [simp]: "parse_nat (show_nat n) = Some n"
  by (simp add: parse_nat_def parse_show_nat)

lemma digit_not_sign: "is_digit c \<Longrightarrow> c \<noteq> CHR ''-'' \<and> c \<noteq> CHR ''+'' \<and> c \<noteq> CHR '' ''"
  by (auto simp: is_digit_def digit_val_def)

lemma ParseInt_Itoa: "- (2 ^ 63) \<le> i \<Longrightarrow> i < 2 ^ 63 \<Longrightarrow> ParseInt (Itoa i) = Some i"
  using digit_not_sign [OF show_nat_digits, of "hd (show_nat (nat i))" "nat i"]
  by (auto simp: ParseInt_def Itoa_def Let_def nat_le_iff nat_less_iff)

section \<open>Taking a text apart\<close>

text \<open>\<open>strings.Split\<close> at one character: always at least one part.\<close>

fun split_at :: "char \<Rightarrow> string \<Rightarrow> string list" where
  "split_at c [] = [[]]"
| "split_at c (x # s) =
     (case split_at c s of
        [] \<Rightarrow> [[]]
      | p # ps \<Rightarrow> if x = c then [] # p # ps else (x # p) # ps)"

text \<open>\<open>strings.Join\<close> with a line break.\<close>

fun Join_nl :: "string list \<Rightarrow> string" where
  "Join_nl [] = []"
| "Join_nl [x] = x"
| "Join_nl (x # y # xs) = x @ CHR 0x0A # Join_nl (y # xs)"

definition is_space :: "char \<Rightarrow> bool" where
  "is_space c \<longleftrightarrow> (let n = of_char c :: nat in n = 32 \<or> 9 \<le> n \<and> n \<le> 13)"

definition trim_by :: "(char \<Rightarrow> bool) \<Rightarrow> string \<Rightarrow> string" where
  "trim_by p s = rev (dropWhile p (rev (dropWhile p s)))"

definition TrimSpace :: "string \<Rightarrow> string" where
  "TrimSpace = trim_by is_space"

text \<open>\<open>strings.Trim(s, cutset)\<close>.\<close>

definition Trim :: "string \<Rightarrow> string \<Rightarrow> string" where
  "Trim s cutset = trim_by (\<lambda>c. c \<in> set cutset) s"

lemma trim_by_empty: "trim_by p s = [] \<longleftrightarrow> list_all p s"
proof -
  have "(\<forall>x \<in> set (dropWhile p s). p x) \<longleftrightarrow> (\<forall>x \<in> set s. p x)"
  proof
    assume *: "\<forall>x \<in> set (dropWhile p s). p x"
    have "set s = set (takeWhile p s) \<union> set (dropWhile p s)"
      by (metis set_append takeWhile_dropWhile_id)
    then show "\<forall>x \<in> set s. p x" using * by (auto dest: set_takeWhileD)
  qed (auto dest: set_dropWhileD)
  then show ?thesis by (simp add: trim_by_def dropWhile_eq_Nil_conv list_all_iff)
qed

lemma Trim_empty: "Trim s cutset = [] \<longleftrightarrow> set s \<subseteq> set cutset"
  by (auto simp: Trim_def trim_by_empty list_all_iff)

lemma split_at_nonempty [simp]: "split_at c s \<noteq> []"
  by (cases s) (auto split: list.splits)

lemma split_at_single: "c \<notin> set s \<Longrightarrow> split_at c s = [s]"
  by (induction s) auto

lemma split_at_sep: "c \<notin> set s \<Longrightarrow> split_at c (s @ c # t) = s # split_at c t"
  by (induction s) (auto split: list.splits)

end
