(* ===== verification/Bucket.thy ===== *)
theory Bucket
  imports Prelude
begin

text \<open>
  The two token buckets of the servers: \<open>bucket\<close> of \<open>relay-live/limits.go\<close>, which paces a
  connection's events, reads, knocks and registrations, the bytes stored, the posts of each push
  server and the new registrations of each share; and \<open>limiter\<close> of \<open>server/handle/main.go\<close>.
  The contract both keep is the locale \<open>pacer\<close>: whatever is asked for and whenever, what is
  granted between two instants never exceeds the burst and the rate times the time between them.
\<close>

section \<open>The relay's bucket\<close>

record bucket =
  tokens :: rat
  bmax :: rat
  perSec :: rat
  blast :: nanos

definition newBucket :: "nanos \<Rightarrow> rat \<Rightarrow> rat \<Rightarrow> bucket" where
  "newBucket now per burst = \<lparr>tokens = burst, bmax = burst, perSec = per, blast = now\<rparr>"

text \<open>What \<open>takeN\<close> does before it looks at the price: the refill, capped, and the new time.\<close>

definition refill :: "bucket \<Rightarrow> nanos \<Rightarrow> bucket" where
  "refill b now =
     (let t = tokens b + seconds (now - blast b) * perSec b
      in b\<lparr>tokens := (if t > bmax b then bmax b else t), blast := now\<rparr>)"

definition takeN :: "bucket \<Rightarrow> nanos \<Rightarrow> rat \<Rightarrow> bool \<times> bucket" where
  "takeN b now n =
     (let b' = refill b now
      in if tokens b' < n then (False, b') else (True, b'\<lparr>tokens := tokens b' - n\<rparr>))"

definition take1 :: "bucket \<Rightarrow> nanos \<Rightarrow> bool \<times> bucket" where
  "take1 b now = takeN b now 1"

text \<open>\<open>knockShare.giveBack\<close> works on the bucket of a share: one token back, never past the most.\<close>

definition give_back :: "bucket \<Rightarrow> bucket" where
  "give_back b = (let t = tokens b + 1 in b\<lparr>tokens := (if t > bmax b then bmax b else t)\<rparr>)"

definition bucket_ok :: "bucket \<Rightarrow> bool" where
  "bucket_ok b \<longleftrightarrow> 0 \<le> tokens b \<and> tokens b \<le> bmax b \<and> 0 \<le> perSec b"

section \<open>The registry's limiter\<close>

record limiter =
  lrate :: rat
  lburst :: rat
  ltokens :: rat
  llast :: nanos

definition newLimiter :: "nanos \<Rightarrow> rat \<Rightarrow> rat \<Rightarrow> limiter" where
  "newLimiter now rate burst = \<lparr>lrate = rate, lburst = burst, ltokens = burst, llast = now\<rparr>"

definition allow :: "limiter \<Rightarrow> nanos \<Rightarrow> bool \<times> limiter" where
  "allow l now =
     (let t = ltokens l + seconds (now - llast l) * lrate l;
          t = (if t > lburst l then lburst l else t);
          l' = l\<lparr>ltokens := t, llast := now\<rparr>
      in if t < 1 then (False, l') else (True, l'\<lparr>ltokens := t - 1\<rparr>))"

definition limiter_ok :: "limiter \<Rightarrow> bool" where
  "limiter_ok l \<longleftrightarrow> 0 \<le> ltokens l \<and> ltokens l \<le> lburst l \<and> 0 \<le> lrate l"

section \<open>The contract\<close>

text \<open>A run of requests, each an instant and a price: what was granted in all, and the end state.\<close>

fun run_asks :: "('s \<Rightarrow> nanos \<Rightarrow> rat \<Rightarrow> bool \<times> 's) \<Rightarrow> 's \<Rightarrow> (nanos \<times> rat) list \<Rightarrow> rat \<times> 's" where
  "run_asks ask s [] = (0, s)"
| "run_asks ask s ((t, n) # rs) =
     (let (g, s') = ask s t n; (total, s'') = run_asks ask s' rs
      in ((if g then n else 0) + total, s''))"

fun in_order :: "nanos \<Rightarrow> (nanos \<times> rat) list \<Rightarrow> bool" where
  "in_order t [] \<longleftrightarrow> True"
| "in_order t ((t', n) # rs) \<longleftrightarrow> t \<le> t' \<and> 0 \<le> n \<and> in_order t' rs"

fun last_time :: "nanos \<Rightarrow> (nanos \<times> rat) list \<Rightarrow> nanos" where
  "last_time t [] = t"
| "last_time t ((t', n) # rs) = last_time t' rs"

text \<open>
  A pacer answers a request of a price at an instant. \<open>level\<close> is what it has left; a grant takes
  the price off it, and between two instants it grows by no more than the rate.
\<close>

locale pacer =
  fixes ask :: "'s \<Rightarrow> nanos \<Rightarrow> rat \<Rightarrow> bool \<times> 's"
    and level :: "'s \<Rightarrow> rat"
    and most :: "'s \<Rightarrow> rat"
    and rate :: "'s \<Rightarrow> rat"
    and clock :: "'s \<Rightarrow> nanos"
    and ok :: "'s \<Rightarrow> bool"
  assumes level_nonneg: "ok s \<Longrightarrow> 0 \<le> level s"
    and level_most: "ok s \<Longrightarrow> level s \<le> most s"
    and rate_nonneg: "ok s \<Longrightarrow> 0 \<le> rate s"
    and ask_ok: "ok s \<Longrightarrow> clock s \<le> t \<Longrightarrow> 0 \<le> n \<Longrightarrow> ok (snd (ask s t n))"
    and ask_frame: "most (snd (ask s t n)) = most s" "rate (snd (ask s t n)) = rate s"
      "clock (snd (ask s t n)) = t"
    and ask_granted: "ok s \<Longrightarrow> clock s \<le> t \<Longrightarrow> fst (ask s t n) \<Longrightarrow>
      level (snd (ask s t n)) + n \<le> level s + seconds (t - clock s) * rate s"
    and ask_refused: "ok s \<Longrightarrow> clock s \<le> t \<Longrightarrow> \<not> fst (ask s t n) \<Longrightarrow>
      level (snd (ask s t n)) \<le> level s + seconds (t - clock s) * rate s"
begin

text \<open>An account of a pacer since \<open>t0\<close>: what it granted and what it has left stay within what it started with and what
  its rate brought. Asking keeps the account, whatever else happens in between.\<close>

definition accounted :: "rat \<Rightarrow> nanos \<Rightarrow> rat \<Rightarrow> 's \<Rightarrow> bool" where
  "accounted B t0 G s \<longleftrightarrow> ok s \<and> G + level s \<le> B + seconds (clock s - t0) * rate s"

lemma accounted_ask:
  assumes "accounted B t0 G s" and "clock s \<le> t" and "0 \<le> n"
  shows "accounted B t0 (G + (if fst (ask s t n) then n else 0)) (snd (ask s t n))"
proof -
  have ok: "ok s" and le: "G + level s \<le> B + seconds (clock s - t0) * rate s" using assms(1) by (simp_all add: accounted_def)
  have "seconds (t - t0) * rate s = seconds (t - clock s) * rate s + seconds (clock s - t0) * rate s"
    by (subst seconds_diff [of _ _ "clock s"]) (simp add: algebra_simps)
  then have "G + (if fst (ask s t n) then n else 0) + level (snd (ask s t n)) \<le> B + seconds (t - t0) * rate s"
    using ask_granted [OF ok assms(2), of n] ask_refused [OF ok assms(2), of n] le by (cases "fst (ask s t n)") auto
  then show ?thesis using ask_ok [OF ok assms(2,3)] ask_frame [of s t n] by (simp add: accounted_def)
qed

lemma accounted_bound:
  assumes "accounted B t0 G s" and "clock s \<le> t"
  shows "G \<le> B + seconds (t - t0) * rate s"
proof -
  have "0 \<le> level s" "0 \<le> rate s" using assms(1) level_nonneg rate_nonneg by (simp_all add: accounted_def)
  moreover have "seconds (t - t0) * rate s = seconds (t - clock s) * rate s + seconds (clock s - t0) * rate s"
    by (subst seconds_diff [of _ _ "clock s"]) (simp add: algebra_simps)
  moreover have "0 \<le> seconds (t - clock s) * rate s" using calculation(2) assms(2) by simp
  ultimately show ?thesis using assms(1) by (simp add: accounted_def)
qed

lemma run_conserves:
  assumes "ok s" and "in_order (clock s) rs"
  shows "ok (snd (run_asks ask s rs)) \<and>
    fst (run_asks ask s rs) + level (snd (run_asks ask s rs))
      \<le> level s + seconds (last_time (clock s) rs - clock s) * rate s"
  using assms
proof (induction rs arbitrary: s)
  case Nil
  then show ?case by simp
next
  case (Cons r rs)
  obtain t n where r: "r = (t, n)" by (cases r)
  obtain g s' where a: "ask s t n = (g, s')" by (cases "ask s t n")
  from Cons.prems r have t: "clock s \<le> t" and n: "0 \<le> n" and io: "in_order t rs" by auto
  have fr: "rate s' = rate s" "clock s' = t"
    using ask_frame [of s t n] a by simp_all
  have ok': "ok s'" using ask_ok [OF Cons.prems(1) t n] a by simp
  have step: "(if g then n else 0) + level s' \<le> level s + seconds (t - clock s) * rate s"
    using ask_granted [OF Cons.prems(1) t, of n] ask_refused [OF Cons.prems(1) t, of n] a
    by (cases g) auto
  have IH: "ok (snd (run_asks ask s' rs)) \<and> fst (run_asks ask s' rs) + level (snd (run_asks ask s' rs))
      \<le> level s' + seconds (last_time t rs - t) * rate s"
    using Cons.IH [OF ok'] io fr by simp
  have "seconds (last_time t rs - clock s) * rate s
      = seconds (last_time t rs - t) * rate s + seconds (t - clock s) * rate s"
    by (subst seconds_diff [of _ _ t]) (simp add: algebra_simps)
  then show ?case using IH step r a by (auto simp: split_beta Let_def)
qed

text \<open>The bound a client relies on: burst and rate times the time.\<close>

lemma run_bounded:
  assumes "ok s" and "in_order (clock s) rs"
  shows "fst (run_asks ask s rs) \<le> most s + seconds (last_time (clock s) rs - clock s) * rate s"
proof -
  have "0 \<le> level (snd (run_asks ask s rs))" using run_conserves [OF assms] level_nonneg by blast
  then show ?thesis using run_conserves [OF assms] level_most [OF assms(1)] by linarith
qed

end

lemma bucket_pacer_laws:
  assumes "bucket_ok b" and "blast b \<le> t"
  shows "tokens (refill b t) \<le> tokens b + seconds (t - blast b) * perSec b"
    and "0 \<le> tokens (refill b t)" and "tokens (refill b t) \<le> bmax b"
proof -
  have "0 \<le> seconds (t - blast b) * perSec b"
    using assms by (simp add: bucket_ok_def)
  then show "tokens (refill b t) \<le> tokens b + seconds (t - blast b) * perSec b"
    and "0 \<le> tokens (refill b t)" and "tokens (refill b t) \<le> bmax b"
    using assms by (auto simp: refill_def bucket_ok_def Let_def)
qed

lemma refill_frame [simp]:
  "bmax (refill b t) = bmax b" "perSec (refill b t) = perSec b" "blast (refill b t) = t"
  by (simp_all add: refill_def Let_def)

lemma takeN_frame [simp]:
  "bmax (snd (takeN b t n)) = bmax b" "perSec (snd (takeN b t n)) = perSec b"
  "blast (snd (takeN b t n)) = t"
  by (simp_all add: takeN_def Let_def)

interpretation relay_bucket: pacer takeN tokens bmax perSec blast bucket_ok
proof unfold_locales
  fix b :: bucket and t n
  assume b: "bucket_ok b" and t: "blast b \<le> t"
  note laws = bucket_pacer_laws [OF b t]
  show "bucket_ok (snd (takeN b t n))" if "0 \<le> n"
    using laws b that by (auto simp: takeN_def bucket_ok_def Let_def)
  show "tokens (snd (takeN b t n)) + n \<le> tokens b + seconds (t - blast b) * perSec b"
    if "fst (takeN b t n)"
    using laws that by (auto simp: takeN_def Let_def split: if_splits)
  show "tokens (snd (takeN b t n)) \<le> tokens b + seconds (t - blast b) * perSec b"
    if "\<not> fst (takeN b t n)"
    using laws that by (auto simp: takeN_def Let_def split: if_splits)
qed (simp_all add: bucket_ok_def)

text \<open>The registry's limiter is the same bucket with a price of one.\<close>

definition limiter_bucket :: "limiter \<Rightarrow> bucket" where
  "limiter_bucket l = \<lparr>tokens = ltokens l, bmax = lburst l, perSec = lrate l, blast = llast l\<rparr>"

lemma allow_refines_take1:
  "fst (allow l now) = fst (take1 (limiter_bucket l) now)"
  "limiter_bucket (snd (allow l now)) = snd (take1 (limiter_bucket l) now)"
  by (auto simp: allow_def take1_def takeN_def refill_def limiter_bucket_def Let_def)

lemma limiter_bucket_ok: "bucket_ok (limiter_bucket l) \<longleftrightarrow> limiter_ok l"
  by (simp add: bucket_ok_def limiter_ok_def limiter_bucket_def)

lemma limiter_bucket_sel:
  "ltokens l = tokens (limiter_bucket l)" "lburst l = bmax (limiter_bucket l)"
  "lrate l = perSec (limiter_bucket l)" "llast l = blast (limiter_bucket l)"
  by (simp_all add: limiter_bucket_def)

lemma give_back_ok: "bucket_ok b \<Longrightarrow> bucket_ok (give_back b)"
  by (auto simp: bucket_ok_def give_back_def Let_def)

lemma newBucket_ok: "0 \<le> per \<Longrightarrow> 0 \<le> burst \<Longrightarrow> bucket_ok (newBucket now per burst)"
  by (simp add: bucket_ok_def newBucket_def)

lemma newBucket_accounted:
  "0 \<le> per \<Longrightarrow> 0 \<le> burst \<Longrightarrow> relay_bucket.accounted burst now 0 (newBucket now per burst)"
  by (simp add: relay_bucket.accounted_def newBucket_ok) (simp add: newBucket_def)

lemma take1_ok: "bucket_ok b \<Longrightarrow> blast b \<le> now \<Longrightarrow> bucket_ok (snd (take1 b now))"
  unfolding take1_def by (rule relay_bucket.ask_ok) simp_all


section \<open>Properties of the buckets\<close>

text \<open>C9. Whatever prices are asked of the relay's bucket and whenever, in the order of time, the sum
  of the prices it grants is at most its burst and its rate times the time since it was made: no
  connection gets past its allowance of events, reads, knocks or registrations by choosing when to
  ask, and no stream of wraps fills the disk faster than the byte bucket allows.\<close>

theorem bucket_rate_bound:
  assumes "0 \<le> per" and "0 \<le> burst" and "in_order now rs"
  shows "fst (run_asks takeN (newBucket now per burst) rs)
           \<le> burst + seconds (last_time now rs - now) * per"
  using relay_bucket.run_bounded [OF newBucket_ok [OF assms(1,2)], of now rs] assms(3)
  by (simp add: newBucket_def)

theorem bucket_rate_bound_witness:
  "fst (run_asks takeN (newBucket 0 2 3) [(0, 3), (0, 1), (second, 2), (2 * second, 3)]) = 5 \<and>
   fst (run_asks takeN (newBucket 0 2 3) [(0, 3), (0, 1), (second, 2), (2 * second, 3)]) \<le> 3 + 2 * 2"
  using bucket_rate_bound [of 2 3 0 "[(0, 3), (0, 1), (second, 2), (2 * second, 3)]"]
  by (simp add: takeN_def refill_def newBucket_def seconds_def duration_defs Let_def)

text \<open>The calls a limiter lets through.\<close>

fun run_allow :: "limiter \<Rightarrow> nanos list \<Rightarrow> nat \<times> limiter" where
  "run_allow l [] = (0, l)"
| "run_allow l (t # ts) =
     (let (g, l') = allow l t; (total, l'') = run_allow l' ts in ((if g then 1 else 0) + total, l''))"

lemma run_allow_bucket:
  "rat_of_nat (fst (run_allow l ts)) = fst (run_asks takeN (limiter_bucket l) (map (\<lambda>t. (t, 1)) ts))"
proof (induction ts arbitrary: l)
  case (Cons t ts)
  then show ?case using allow_refines_take1 [of l t]
    by (simp add: split_beta Let_def take1_def)
qed simp

lemma ones_in_order: "in_order t (map (\<lambda>t. (t, 1)) ts) \<longleftrightarrow> sorted (t # ts)"
  by (induction ts arbitrary: t) (auto intro: order_trans)

lemma ones_last_time: "last_time t (map (\<lambda>t. (t, 1)) ts) = List.last (t # ts)"
  by (induction ts arbitrary: t) auto

text \<open>The handle registry's limiter lets at most its burst and its rate times the time through,
  for every non-decreasing sequence of instants at which it is asked.\<close>

theorem limiter_rate_bound:
  assumes "0 \<le> rate" and "0 \<le> burst" and "sorted (now # ts)"
  shows "rat_of_nat (fst (run_allow (newLimiter now rate burst) ts))
           \<le> burst + seconds (List.last (now # ts) - now) * rate"
proof -
  have "limiter_bucket (newLimiter now rate burst) = newBucket now rate burst"
    by (simp add: limiter_bucket_def newLimiter_def newBucket_def)
  then show ?thesis
    using relay_bucket.run_bounded [OF newBucket_ok [OF assms(1,2)], of now "map (\<lambda>t. (t, 1)) ts"]
      assms(3)
    by (simp add: run_allow_bucket ones_in_order ones_last_time newBucket_def)
qed

theorem limiter_rate_bound_witness:
  "fst (run_allow (newLimiter 0 1 2) [0, 0, 0, second]) = 3 \<and>
   rat_of_nat (fst (run_allow (newLimiter 0 1 2) [0, 0, 0, second])) \<le> 2 + 1 * 1"
  using limiter_rate_bound [of 1 2 0 "[0, 0, 0, second]"]
  by (simp add: allow_def newLimiter_def seconds_def duration_defs Let_def)

end
