(* ===== verification/Nostr.thy ===== *)
theory Nostr
  imports Prelude
begin

text \<open>
  The fields of a nostr event and of a nostr filter that the sources read. Both types belong to the
  nostr libraries (\<open>github.com/nbd-wtf/go-nostr\<close> on the relay, \<open>fiatjaf.com/nostr\<close> in the engine);
  only their data is needed here. A timestamp is in unix seconds.
\<close>

type_synonym stamp = int

record nevent =
  evID :: string
  pubKey :: string
  createdAt :: stamp
  evKind :: int
  evTags :: "string list list"
  evContent :: string

text \<open>
  A filter as decoded from a request: \<open>fTags\<close> lists the tag names it constrains with their
  values, each name once, as the library's map does.
\<close>

record nfilter =
  fIDs :: "string list"
  fKinds :: "int list"
  fAuthors :: "string list"
  fTags :: "(string \<times> string list) list"
  fSearch :: string
  fLimitZero :: bool

end
