(* ===== verification/Catchup.thy ===== *)
theory Catchup
  imports Nostr "HOL-Library.Multiset"
begin

text \<open>
  The catch-up walk of \<open>engine/catchup/catchup.go\<close>. A relay hands back stored events newest first
  and stops at its cap; the walk pages back from the oldest event of the first answer until the
  relay has nothing older inside the window. A \<open>Mark\<close> remembers the stretch an interrupted walk
  has covered, and the next walk steps over it.

  The relay is not part of the sources: its pages are an argument \<open>fetch\<close> of the walk, indexed by
  the number of pages already taken, and what the walk relies on is the predicate
  \<open>page_contract\<close>, the documented behaviour of \<open>Page\<close>. The context is an argument too: whether
  \<open>ctx.Err()\<close> is set when the page of that number is about to be asked for. \<open>deliver\<close> is the
  caller's callback over a state of its own.
\<close>

section \<open>Where a walk carries on\<close>

definition Below :: "stamp list \<Rightarrow> int \<Rightarrow> stamp" where
  "Below stamps limit =
     (if stamps = [] then 0
      else let s = sort stamps
           in if limit > 0 \<and> int (length s) \<ge> limit
              then s ! (length s - nat limit) else s ! 0)"

definition Newest :: "nevent list \<Rightarrow> int \<Rightarrow> nevent list" where
  "Newest evs limit =
     (if limit \<le> 0 \<or> int (length evs) \<le> limit then evs
      else let low = Below (map createdAt evs) limit
           in filter (\<lambda>ev. createdAt ev \<ge> low) evs)"

record answer_so_far =
  aLimit :: int
  aStamps :: "stamp list"

definition NewAnswer :: "int \<Rightarrow> answer_so_far" where
  "NewAnswer limit = \<lparr>aLimit = limit, aStamps = []\<rparr>"

definition Answer_Add :: "answer_so_far \<Rightarrow> stamp \<Rightarrow> answer_so_far" where
  "Answer_Add a ts =
     (let stamps = aStamps a @ [ts]
      in if aLimit a > 0 \<and> int (length stamps) \<ge> 2 * aLimit a
         then a\<lparr>aStamps := drop (length stamps - nat (aLimit a)) (sort stamps)\<rparr>
         else a\<lparr>aStamps := stamps\<rparr>)"

definition Answer_Below :: "answer_so_far \<Rightarrow> stamp" where
  "Answer_Below a = Below (aStamps a) (aLimit a)"

section \<open>The walk\<close>

record result =
  Pages :: nat
  Fetched :: nat
  Fresh :: nat
  Complete :: bool
  Until :: stamp

record mark =
  Top :: stamp
  Cursor :: stamp

definition no_mark :: mark where "no_mark = \<lparr>Top = 0, Cursor = 0\<rparr>"

definition Started :: "mark \<Rightarrow> bool" where "Started m \<longleftrightarrow> Top m > 0"

definition maxTs :: "stamp \<Rightarrow> stamp \<Rightarrow> stamp" where
  "maxTs a b = (if a > b then a else b)"

type_synonym page = "nat \<Rightarrow> stamp \<Rightarrow> stamp \<Rightarrow> int \<Rightarrow> nevent list \<times> bool"

text \<open>The events of a page handed to \<open>deliver\<close> in order: how many were new, and its state after.\<close>

fun deliver_all :: "('d \<Rightarrow> nevent \<Rightarrow> bool \<times> 'd) \<Rightarrow> 'd \<Rightarrow> nevent list \<Rightarrow> nat \<times> 'd" where
  "deliver_all deliver d [] = (0, d)"
| "deliver_all deliver d (ev # evs) =
     (let (new, d') = deliver d ev; (n, d'') = deliver_all deliver d' evs
      in ((if new then 1 else 0) + n, d''))"

definition step_over :: "mark \<Rightarrow> stamp \<Rightarrow> stamp" where
  "step_over skip until =
     (if Started skip \<and> until \<le> Top skip \<and> until > Cursor skip then Cursor skip else until)"

definition above_mark :: "mark \<Rightarrow> stamp \<Rightarrow> bool" where
  "above_mark skip until \<longleftrightarrow> Started skip \<and> until > Top skip"

definition page_since :: "mark \<Rightarrow> stamp \<Rightarrow> stamp \<Rightarrow> stamp" where
  "page_since skip since until =
     (if above_mark skip until \<and> Top skip > since then Top skip else since)"

definition at_bottom :: "stamp \<Rightarrow> stamp \<Rightarrow> bool" where
  "at_bottom since until \<longleftrightarrow> until \<le> 0 \<or> (since > 0 \<and> until < since)"

text \<open>Where the walk goes on below a page that came back with events.\<close>

definition next_until :: "stamp list \<Rightarrow> int \<Rightarrow> stamp \<Rightarrow> stamp" where
  "next_until stamps limit until =
     (let low = min (Below stamps limit) until
      in if low = until then until - 1 else low)"

function walk_from ::
  "(nat \<Rightarrow> bool) \<Rightarrow> page \<Rightarrow> stamp \<Rightarrow> int \<Rightarrow> int \<Rightarrow> ('d \<Rightarrow> nevent \<Rightarrow> bool \<times> 'd) \<Rightarrow> mark
     \<Rightarrow> stamp \<Rightarrow> result \<Rightarrow> 'd \<Rightarrow> result \<times> 'd" where
  "walk_from ended fetch since limit maxPages deliver skip until0 res0 d =
     (if \<not> int (Pages res0) < maxPages then (res0, d)
      else
        let until = step_over skip until0;
            res = res0\<lparr>Until := until\<rparr>
        in if ended (Pages res) then (res, d)
        else if at_bottom since until then (res\<lparr>Complete := True\<rparr>, d)
        else
          let (evs, err) = fetch (Pages res) (page_since skip since until) until limit;
              stamps = map createdAt evs
          in if err then
               let (fresh, d') = deliver_all deliver d evs
               in (res\<lparr>Fetched := Fetched res + length evs, Fresh := Fresh res + fresh,
                       Until := (if stamps = [] then until else min (Below stamps limit) until)\<rparr>, d')
             else
               let res = res\<lparr>Pages := Pages res + 1\<rparr>
               in if evs = [] then
                    (if above_mark skip until
                     then walk_from ended fetch since limit maxPages deliver skip
                            (Cursor skip) (res\<lparr>Until := Cursor skip\<rparr>) d
                     else (res\<lparr>Complete := True\<rparr>, d))
                  else
                    let (fresh, d') = deliver_all deliver d evs;
                        low = next_until stamps limit until
                    in walk_from ended fetch since limit maxPages deliver skip low
                         (res\<lparr>Fetched := Fetched res + length evs, Fresh := Fresh res + fresh,
                              Until := low\<rparr>) d')"
  by pat_completeness auto
termination
  by (relation "measure (\<lambda>(ended, fetch, since, limit, maxPages, deliver, skip, until, res, d).
        nat (maxPages - int (Pages res)))") auto

declare walk_from.simps [simp del]

definition no_result :: result where
  "no_result = \<lparr>Pages = 0, Fetched = 0, Fresh = 0, Complete = False, Until = 0\<rparr>"

definition walk ::
  "(nat \<Rightarrow> bool) \<Rightarrow> page \<Rightarrow> stamp \<Rightarrow> stamp \<Rightarrow> int \<Rightarrow> int \<Rightarrow> ('d \<Rightarrow> nevent \<Rightarrow> bool \<times> 'd) \<Rightarrow> mark
     \<Rightarrow> 'd \<Rightarrow> result \<times> 'd" where
  "walk ended fetch since oldest limit maxPages deliver skip d =
     walk_from ended fetch since limit maxPages deliver skip oldest no_result d"

definition Back ::
  "(nat \<Rightarrow> bool) \<Rightarrow> page \<Rightarrow> stamp \<Rightarrow> stamp \<Rightarrow> int \<Rightarrow> int \<Rightarrow> ('d \<Rightarrow> nevent \<Rightarrow> bool \<times> 'd) \<Rightarrow> 'd
     \<Rightarrow> result \<times> 'd" where
  "Back ended fetch since oldest limit maxPages deliver d =
     walk ended fetch since oldest limit maxPages deliver no_mark d"

definition Continue ::
  "(nat \<Rightarrow> bool) \<Rightarrow> page \<Rightarrow> stamp \<Rightarrow> stamp \<Rightarrow> int \<Rightarrow> int \<Rightarrow> ('d \<Rightarrow> nevent \<Rightarrow> bool \<times> 'd) \<Rightarrow> mark
     \<Rightarrow> 'd \<Rightarrow> result \<times> mark \<times> 'd" where
  "Continue ended fetch since oldest limit maxPages deliver m d =
     (let (r, d') = walk ended fetch since oldest limit maxPages deliver m d
      in if Complete r then (r, no_mark, d')
         else (r, \<lparr>Top = maxTs oldest (Top m), Cursor = Until r\<rparr>, d'))"

section \<open>What the walk relies on\<close>

text \<open>
  The documented behaviour of \<open>Page\<close> against a store that stays as it is during the walk. A whole
  answer to a request for the window from \<open>s\<close> to \<open>u\<close> holds only events of the window's lower
  bound, and an event of the store in the window that it lacks is stamped no later than where the
  walk carries on, and before \<open>u\<close>: no second holds more events than the relay hands out.
\<close>

definition page_whole :: "nevent set \<Rightarrow> page \<Rightarrow> int \<Rightarrow> bool" where
  "page_whole store fetch limit \<longleftrightarrow>
     (\<forall>i s u evs. fetch i s u limit = (evs, False) \<longrightarrow>
        (\<forall>e \<in> set evs. s \<le> createdAt e) \<and>
        (\<forall>e \<in> store. s \<le> createdAt e \<and> createdAt e \<le> u \<and> e \<notin> set evs \<longrightarrow>
           evs \<noteq> [] \<and> createdAt e \<le> Below (map createdAt evs) limit \<and> createdAt e < u))"

text \<open>A page cut short brought the newest of its window: everything above its \<open>Below\<close> is in.\<close>

definition page_cut :: "nevent set \<Rightarrow> page \<Rightarrow> int \<Rightarrow> bool" where
  "page_cut store fetch limit \<longleftrightarrow>
     (\<forall>i s u evs. fetch i s u limit = (evs, True) \<longrightarrow>
        (\<forall>e \<in> set evs. s \<le> createdAt e) \<and>
        (\<forall>e \<in> store. s \<le> createdAt e \<and> createdAt e \<le> u \<and> evs \<noteq> [] \<and>
           Below (map createdAt evs) limit < createdAt e \<longrightarrow> e \<in> set evs))"

definition page_contract :: "nevent set \<Rightarrow> page \<Rightarrow> int \<Rightarrow> bool" where
  "page_contract store fetch limit \<longleftrightarrow> page_whole store fetch limit \<and> page_cut store fetch limit"

text \<open>The stretch a mark stands for.\<close>

definition in_stretch :: "mark \<Rightarrow> nevent \<Rightarrow> bool" where
  "in_stretch m e \<longleftrightarrow> Started m \<and> Cursor m < createdAt e \<and> createdAt e \<le> Top m"

text \<open>What a walk from \<open>until\<close> down to \<open>since\<close> that steps over \<open>skip\<close> still has to bring.\<close>

definition wanted :: "mark \<Rightarrow> stamp \<Rightarrow> stamp \<Rightarrow> nevent \<Rightarrow> bool" where
  "wanted skip since until e \<longleftrightarrow>
     since \<le> createdAt e \<and> 0 < createdAt e \<and> createdAt e \<le> until \<and> \<not> in_stretch skip e"

section \<open>Below: the limit-th newest\<close>

text \<open>The \<open>n\<close> newest stamps, in ascending order.\<close>

definition newest_n :: "nat \<Rightarrow> stamp list \<Rightarrow> stamp list" where
  "newest_n n xs = drop (length xs - n) (sort xs)"

lemma Below_full: "0 < limit \<Longrightarrow> limit \<le> int (length xs) \<Longrightarrow> Below xs limit = hd (newest_n (nat limit) xs)"
  by (auto simp: Below_def newest_n_def hd_drop_conv_nth Let_def)

lemma Below_in_set: "xs \<noteq> [] \<Longrightarrow> Below xs limit \<in> set xs"
proof -
  assume "xs \<noteq> []"
  then have "sort xs ! (length xs - nat limit) \<in> set xs" if "0 < limit"
    using that nth_mem [of "length xs - nat limit" "sort xs"] by (simp add: nat_eq_iff)
  moreover have "sort xs ! 0 \<in> set xs"
    using \<open>xs \<noteq> []\<close> nth_mem [of 0 "sort xs"] by simp
  ultimately show ?thesis using \<open>xs \<noteq> []\<close> by (auto simp: Below_def Let_def)
qed

lemma Below_short: "xs \<noteq> [] \<Longrightarrow> limit \<le> 0 \<or> int (length xs) < limit \<Longrightarrow> x \<in> set xs \<Longrightarrow> Below xs limit \<le> x"
proof -
  assume a: "xs \<noteq> []" "limit \<le> 0 \<or> int (length xs) < limit" "x \<in> set xs"
  obtain i where i: "i < length (sort xs)" "sort xs ! i = x"
    using a(3) by (metis in_set_conv_nth set_sort)
  have "sort xs ! 0 \<le> sort xs ! i" using i by (intro sorted_nth_mono) auto
  with a i show ?thesis by (auto simp: Below_def Let_def)
qed

text \<open>No fewer than \<open>limit\<close> stamps of a full answer lie at \<open>Below\<close> or above it.\<close>

lemma Below_count:
  assumes "0 < limit" and "limit \<le> int (length xs)"
  shows "nat limit \<le> length (filter (\<lambda>x. Below xs limit \<le> x) xs)"
proof -
  let ?s = "sort xs" and ?k = "length xs - nat limit"
  have eq: "Below xs limit = ?s ! ?k" using assms by (auto simp: Below_def Let_def)
  have "x \<in> set (drop ?k ?s) \<Longrightarrow> ?s ! ?k \<le> x" for x
  proof -
    assume "x \<in> set (drop ?k ?s)"
    then obtain j where "j < length xs - ?k" "x = ?s ! (?k + j)"
      by (auto simp: in_set_conv_nth)
    then show ?thesis by (auto intro: sorted_nth_mono)
  qed
  then have "length (drop ?k ?s) \<le> length (filter (\<lambda>x. Below xs limit \<le> x) (drop ?k ?s))"
    by (simp add: eq filter_id_conv)
  also have "\<dots> \<le> length (filter (\<lambda>x. Below xs limit \<le> x) (take ?k ?s @ drop ?k ?s))"
    by (simp only: filter_append length_append)
  also have "\<dots> = length (filter (\<lambda>x. Below xs limit \<le> x) xs)"
    by (simp add: filter_sort)
  finally show ?thesis using assms by simp
qed

lemma insort_above:
  "\<lbrakk>sorted (ys @ zs); length zs = n\<rbrakk> \<Longrightarrow>
     drop (Suc (length ys + n) - n) (insort x (ys @ zs)) = tl (insort (x :: stamp) zs)"
proof (induction ys)
  case Nil
  then show ?case by (cases "insort x zs") (auto simp: drop_Suc)
next
  case (Cons y ys)
  show ?case
  proof (cases "x \<le> y")
    case True
    have "\<forall>z \<in> set zs. y \<le> z" using Cons.prems by simp
    then have "\<forall>z \<in> set zs. x \<le> z" using True by (meson order_trans)
    then have "insort x zs = x # zs" by (simp add: insort_is_Cons)
    then show ?thesis using True Cons.prems by (simp add: Suc_diff_le)
  next
    case False
    then show ?thesis using Cons by (simp add: Suc_diff_le)
  qed
qed

lemma sort_snoc: "sort (xs @ [x]) = insort x (sort xs)" for x :: stamp
  by (rule properties_for_sort) (simp_all add: sorted_insort)

lemma newest_n_snoc:
  assumes "n \<le> length xs"
  shows "newest_n n (xs @ [x]) = tl (insort x (newest_n n xs))"
proof -
  let ?k = "length xs - n"
  have "sorted (take ?k (sort xs) @ drop ?k (sort xs))" by simp
  from insort_above [OF this refl, of x] assms
  show ?thesis by (simp add: newest_n_def sort_snoc)
qed

section \<open>An answer followed while it comes\<close>

text \<open>
  What \<open>Answer_Add\<close> keeps of the stamps seen so far: all of them, or at least the limit's number
  with the same newest ones.
\<close>

definition answer_inv :: "answer_so_far \<Rightarrow> stamp list \<Rightarrow> bool" where
  "answer_inv a seen \<longleftrightarrow> aStamps a = seen \<or>
     (0 < aLimit a \<and> aLimit a \<le> int (length (aStamps a)) \<and> aLimit a \<le> int (length seen) \<and>
      newest_n (nat (aLimit a)) (aStamps a) = newest_n (nat (aLimit a)) seen)"

lemma newest_n_trim: "n \<le> length xs \<Longrightarrow> newest_n n (drop (length xs - n) (sort xs)) = newest_n n xs"
  by (simp add: newest_n_def sorted_sort_id sorted_wrt_drop)

lemma Answer_Add_limit [simp]: "aLimit (Answer_Add a ts) = aLimit a"
  by (simp add: Answer_Add_def Let_def)

lemma answer_inv_Add:
  assumes "answer_inv a seen"
  shows "answer_inv (Answer_Add a ts) (seen @ [ts])"
proof -
  let ?n = "nat (aLimit a)" and ?xs = "aStamps a @ [ts]"
  have grown: "?xs = seen @ [ts] \<or> (0 < aLimit a \<and> aLimit a \<le> int (length ?xs) \<and>
      aLimit a \<le> int (length (seen @ [ts])) \<and> newest_n ?n ?xs = newest_n ?n (seen @ [ts]))"
    using assms by (auto simp: answer_inv_def newest_n_snoc nat_le_iff)
  show ?thesis
  proof (cases "aLimit a > 0 \<and> int (length ?xs) \<ge> 2 * aLimit a")
    case True
    then have len: "?n \<le> length ?xs" by auto
    from grown True have "aLimit a \<le> int (length (seen @ [ts]))"
      and "newest_n ?n ?xs = newest_n ?n (seen @ [ts])" by auto
    then show ?thesis using True len newest_n_trim [OF len]
      by (simp add: answer_inv_def Answer_Add_def Let_def)
  next
    case False
    then show ?thesis using grown by (auto simp: answer_inv_def Answer_Add_def Let_def)
  qed
qed

lemma answer_inv_fold: "answer_inv a seen \<Longrightarrow> answer_inv (foldl Answer_Add a ts) (seen @ ts)"
proof (induction ts arbitrary: a seen)
  case (Cons t ts)
  from Cons.IH [OF answer_inv_Add [OF Cons.prems, of t]] show ?case by simp
qed simp

lemma foldl_Add_limit [simp]: "aLimit (foldl Answer_Add a ts) = aLimit a"
  by (induction ts arbitrary: a) simp_all

lemma answer_inv_Below: "answer_inv a seen \<Longrightarrow> Answer_Below a = Below seen (aLimit a)"
  by (auto simp: answer_inv_def Answer_Below_def Below_full)

lemma Answer_Add_bounded:
  "0 < aLimit a \<Longrightarrow> int (length (aStamps a)) < 2 * aLimit a \<Longrightarrow>
     int (length (aStamps (Answer_Add a ts))) < 2 * aLimit a"
  by (auto simp: Answer_Add_def Let_def)

lemma foldl_Add_bounded:
  "0 < aLimit a \<Longrightarrow> int (length (aStamps a)) < 2 * aLimit a \<Longrightarrow>
     int (length (aStamps (foldl Answer_Add a ts))) < 2 * aLimit a"
proof (induction ts arbitrary: a)
  case (Cons t ts)
  from Cons.IH [of "Answer_Add a t"] Cons.prems Answer_Add_bounded [of a t] show ?case by simp
qed simp

section \<open>One page of the walk\<close>

lemma deliver_all_append:
  "deliver_all deliver d (xs @ ys) =
     (let (n, d') = deliver_all deliver d xs; (m, d'') = deliver_all deliver d' ys in (n + m, d''))"
  by (induction xs arbitrary: d) (auto simp: split_beta Let_def)

lemma step_over_le: "step_over skip until \<le> until"
  by (simp add: step_over_def)

lemma next_until_less: "next_until stamps limit until < until"
  by (simp add: next_until_def Let_def min_def)

lemma wanted_step_over: "wanted skip since until e \<Longrightarrow> wanted skip since (step_over skip until) e"
  by (auto simp: wanted_def step_over_def in_stretch_def)

lemma wanted_not_bottom: "wanted skip since until e \<Longrightarrow> \<not> at_bottom since until"
  by (auto simp: wanted_def at_bottom_def)

text \<open>An event the page does not ask for lies below the mark, where the walk still goes.\<close>

lemma wanted_below_since:
  assumes "wanted skip since until e" and "createdAt e < page_since skip since until"
  shows "above_mark skip until" and "createdAt e < Top skip" and "createdAt e \<le> Cursor skip"
    and "page_since skip since until = Top skip"
  using assms by (auto simp: wanted_def page_since_def in_stretch_def above_mark_def split: if_splits)

lemma page_next_wanted:
  assumes c: "page_whole store fetch limit"
    and f: "fetch i (page_since skip since until) until limit = (evs, False)"
    and ne: "evs \<noteq> []" and e: "e \<in> store" "e \<notin> set evs" and w: "wanted skip since until e"
  shows "wanted skip since (next_until (map createdAt evs) limit until) e"
proof -
  let ?b = "Below (map createdAt evs) limit"
  have low: "page_since skip since until \<le> ?b"
    using c f Below_in_set [of "map createdAt evs" limit] ne by (auto simp: page_whole_def)
  have "createdAt e \<le> next_until (map createdAt evs) limit until"
  proof (cases "page_since skip since until \<le> createdAt e")
    case True
    then have "createdAt e \<le> ?b" "createdAt e < until"
      using c f e w unfolding page_whole_def wanted_def by blast+
    then show ?thesis by (auto simp: next_until_def Let_def min_def)
  next
    case False
    then have "createdAt e < page_since skip since until" by simp
    note b = wanted_below_since [OF w this]
    have "createdAt e < ?b" "createdAt e < until - 1 \<or> createdAt e = until - 1"
      using b low by (auto simp: above_mark_def)
    then show ?thesis by (auto simp: next_until_def Let_def min_def)
  qed
  then show ?thesis using w by (simp add: wanted_def)
qed

lemma page_empty_wanted:
  assumes c: "page_whole store fetch limit"
    and f: "fetch i (page_since skip since until) until limit = ([], False)"
    and e: "e \<in> store" and w: "wanted skip since until e"
  shows "above_mark skip until" and "wanted skip since (Cursor skip) e"
proof -
  have "createdAt e < page_since skip since until"
  proof (rule ccontr)
    assume "\<not> ?thesis"
    then show False using c f e w unfolding page_whole_def wanted_def by (metis empty_iff linorder_not_le list.set(1))
  qed
  note b = wanted_below_since [OF w this]
  show "above_mark skip until" by (rule b(1))
  show "wanted skip since (Cursor skip) e" using b w by (simp add: wanted_def)
qed

lemma page_cut_covers:
  assumes c: "page_cut store fetch limit"
    and f: "fetch i (page_since skip since until) until limit = (evs, True)"
    and e: "e \<in> store" "e \<notin> set evs" and w: "wanted skip since until e"
  shows "createdAt e \<le> (if map createdAt evs = [] then until
           else min (Below (map createdAt evs) limit) until)"
proof (cases "evs = []")
  case True
  then show ?thesis using w by (simp add: wanted_def)
next
  case False
  let ?b = "Below (map createdAt evs) limit"
  have low: "page_since skip since until \<le> ?b"
    using c f Below_in_set [of "map createdAt evs" limit] False by (auto simp: page_cut_def)
  have "createdAt e \<le> ?b"
  proof (cases "page_since skip since until \<le> createdAt e")
    case True
    then show ?thesis using c f e w False unfolding page_cut_def wanted_def by (meson linorder_not_le)
  next
    case False
    then show ?thesis using low by simp
  qed
  then show ?thesis using w False by (simp add: wanted_def)
qed

section \<open>The whole walk\<close>

text \<open>
  The turns of the loop, as rules: it stops for want of pages, of time or of ground to cover; a cut
  page ends it; an empty page ends it or takes it to the far side of the mark; any other page moves
  it down.
\<close>

lemma walk_from_stop:
  "\<not> int (Pages res) < maxPages \<Longrightarrow>
     walk_from ended fetch since limit maxPages deliver skip until res d = (res, d)"
  by (subst walk_from.simps) simp

lemma walk_from_ended:
  "int (Pages res) < maxPages \<Longrightarrow> ended (Pages res) \<Longrightarrow>
     walk_from ended fetch since limit maxPages deliver skip until res d =
       (res\<lparr>Until := step_over skip until\<rparr>, d)"
  by (subst walk_from.simps) (simp add: Let_def)

lemma walk_from_bottom:
  "int (Pages res) < maxPages \<Longrightarrow> \<not> ended (Pages res) \<Longrightarrow>
     at_bottom since (step_over skip until) \<Longrightarrow>
     walk_from ended fetch since limit maxPages deliver skip until res d =
       (res\<lparr>Until := step_over skip until, Complete := True\<rparr>, d)"
  by (subst walk_from.simps) (simp add: Let_def)

text \<open>The page the loop asks for at a turn.\<close>

definition page_at :: "page \<Rightarrow> stamp \<Rightarrow> int \<Rightarrow> mark \<Rightarrow> nat \<Rightarrow> stamp \<Rightarrow> nevent list \<times> bool" where
  "page_at fetch since limit skip i until = fetch i (page_since skip since until) until limit"

definition turns :: "(nat \<Rightarrow> bool) \<Rightarrow> stamp \<Rightarrow> int \<Rightarrow> mark \<Rightarrow> stamp \<Rightarrow> result \<Rightarrow> bool" where
  "turns ended since maxPages skip until res \<longleftrightarrow>
     int (Pages res) < maxPages \<and> \<not> ended (Pages res) \<and> \<not> at_bottom since (step_over skip until)"

lemma walk_from_cut:
  assumes "turns ended since maxPages skip until res"
    and "page_at fetch since limit skip (Pages res) (step_over skip until) = (evs, True)"
  shows "walk_from ended fetch since limit maxPages deliver skip until res d =
    (res\<lparr>Fetched := Fetched res + length evs,
         Fresh := Fresh res + fst (deliver_all deliver d evs),
         Until := (if map createdAt evs = [] then step_over skip until
                   else min (Below (map createdAt evs) limit) (step_over skip until))\<rparr>,
     snd (deliver_all deliver d evs))"
  using assms by (subst walk_from.simps) (simp add: turns_def page_at_def Let_def split_beta)

lemma walk_from_empty:
  assumes "turns ended since maxPages skip until res"
    and "page_at fetch since limit skip (Pages res) (step_over skip until) = ([], False)"
  shows "walk_from ended fetch since limit maxPages deliver skip until res d =
    (if above_mark skip (step_over skip until)
     then walk_from ended fetch since limit maxPages deliver skip (Cursor skip)
            (res\<lparr>Pages := Pages res + 1, Until := Cursor skip\<rparr>) d
     else (res\<lparr>Until := step_over skip until, Pages := Pages res + 1, Complete := True\<rparr>, d))"
  using assms by (subst walk_from.simps) (simp add: turns_def page_at_def Let_def split_beta)

lemma walk_from_page:
  assumes "turns ended since maxPages skip until res"
    and "page_at fetch since limit skip (Pages res) (step_over skip until) = (evs, False)"
    and "evs \<noteq> []"
  shows "walk_from ended fetch since limit maxPages deliver skip until res d =
    walk_from ended fetch since limit maxPages deliver skip
      (next_until (map createdAt evs) limit (step_over skip until))
      (res\<lparr>Pages := Pages res + 1, Fetched := Fetched res + length evs,
           Fresh := Fresh res + fst (deliver_all deliver d evs),
           Until := next_until (map createdAt evs) limit (step_over skip until)\<rparr>)
      (snd (deliver_all deliver d evs))"
  using assms by (subst walk_from.simps) (simp add: turns_def page_at_def Let_def split_beta)

text \<open>
  Induction along the turns of the loop. \<open>stop\<close> covers the three ways it ends before a page is
  asked for.
\<close>

lemma walk_induct [case_names stop bottom cut empty_end empty_over page]:
  fixes P :: "stamp \<Rightarrow> result \<Rightarrow> 'd \<Rightarrow> bool"
  assumes stop: "\<And>until res d. \<not> int (Pages res) < maxPages \<or> ended (Pages res) \<Longrightarrow> P until res d"
    and bottom: "\<And>until res d. int (Pages res) < maxPages \<Longrightarrow> \<not> ended (Pages res) \<Longrightarrow>
      at_bottom since (step_over skip until) \<Longrightarrow> P until res d"
    and cut: "\<And>until res d evs. turns ended since maxPages skip until res \<Longrightarrow>
      page_at fetch since limit skip (Pages res) (step_over skip until) = (evs, True) \<Longrightarrow> P until res d"
    and empty_end: "\<And>until res d. turns ended since maxPages skip until res \<Longrightarrow>
      page_at fetch since limit skip (Pages res) (step_over skip until) = ([], False) \<Longrightarrow>
      \<not> above_mark skip (step_over skip until) \<Longrightarrow> P until res d"
    and empty_over: "\<And>until res d. turns ended since maxPages skip until res \<Longrightarrow>
      page_at fetch since limit skip (Pages res) (step_over skip until) = ([], False) \<Longrightarrow>
      above_mark skip (step_over skip until) \<Longrightarrow>
      P (Cursor skip) (res\<lparr>Pages := Pages res + 1, Until := Cursor skip\<rparr>) d \<Longrightarrow> P until res d"
    and page: "\<And>until res d evs. turns ended since maxPages skip until res \<Longrightarrow>
      page_at fetch since limit skip (Pages res) (step_over skip until) = (evs, False) \<Longrightarrow> evs \<noteq> [] \<Longrightarrow>
      P (next_until (map createdAt evs) limit (step_over skip until))
        (res\<lparr>Pages := Pages res + 1, Fetched := Fetched res + length evs,
             Fresh := Fresh res + fst (deliver_all deliver d evs),
             Until := next_until (map createdAt evs) limit (step_over skip until)\<rparr>)
        (snd (deliver_all deliver d evs)) \<Longrightarrow> P until res d"
  shows "P until res d"
proof (induction "nat (maxPages - int (Pages res))" arbitrary: until res d rule: less_induct)
  case less
  let ?u = "step_over skip until"
  obtain evs err where p: "page_at fetch since limit skip (Pages res) ?u = (evs, err)"
    by (cases "page_at fetch since limit skip (Pages res) ?u")
  consider "\<not> int (Pages res) < maxPages \<or> ended (Pages res)"
    | "int (Pages res) < maxPages" "\<not> ended (Pages res)" "at_bottom since ?u"
    | "turns ended since maxPages skip until res" by (auto simp: turns_def)
  then show ?case
  proof cases
    case 3
    then have lt: "int (Pages res) < maxPages" by (simp add: turns_def)
    show ?thesis
    proof (cases err)
      case True
      then show ?thesis using cut [OF 3] p by simp
    next
      case False
      then show ?thesis
        using empty_end [OF 3] empty_over [OF 3] page [OF 3] p lt less
        by (cases "evs = []"; cases "above_mark skip ?u") auto
    qed
  qed (use stop bottom in auto)
qed

text \<open>
  The walk's accounting: what it hands to \<open>deliver\<close> is one list of events, counted by \<open>Fetched\<close>
  and \<open>Fresh\<close>, and every event the walk had to bring is in it once the walk is complete, or once
  the event lies above where it stopped.
\<close>

definition brings ::
  "nevent set \<Rightarrow> stamp \<Rightarrow> mark \<Rightarrow> ('d \<Rightarrow> nevent \<Rightarrow> bool \<times> 'd) \<Rightarrow> stamp \<Rightarrow> result \<Rightarrow> 'd
     \<Rightarrow> result \<times> 'd \<Rightarrow> nevent list \<Rightarrow> bool" where
  "brings store since skip deliver until res d out L \<longleftrightarrow>
     snd out = snd (deliver_all deliver d L) \<and>
     Fetched (fst out) = Fetched res + length L \<and>
     Fresh (fst out) = Fresh res + fst (deliver_all deliver d L) \<and>
     (\<forall>e \<in> store. wanted skip since until e \<and> (Complete (fst out) \<or> Until (fst out) < createdAt e)
        \<longrightarrow> e \<in> set L)"

lemma brings_later:
  assumes "brings store since skip deliver until' res' d' out L"
    and "d' = snd (deliver_all deliver d evs)"
    and "Fetched res' = Fetched res + length evs"
    and "Fresh res' = Fresh res + fst (deliver_all deliver d evs)"
    and "\<And>e. e \<in> store \<Longrightarrow> wanted skip since until e \<Longrightarrow> e \<notin> set evs \<Longrightarrow> wanted skip since until' e"
  shows "brings store since skip deliver until res d out (evs @ L)"
  using assms by (auto simp: brings_def deliver_all_append split_beta Let_def)

lemma wanted_reached: "wanted skip since until e \<Longrightarrow> createdAt e \<le> step_over skip until"
  using wanted_step_over by (auto simp: wanted_def)

lemma brings_stop:
  assumes "\<not> int (Pages res) < maxPages \<or> ended (Pages res)"
    and "\<not> Complete res" and "Until res = until \<or> int (Pages res) < maxPages"
  shows "brings store since skip deliver until res d
    (walk_from ended fetch since limit maxPages deliver skip until res d) []"
proof (cases "int (Pages res) < maxPages")
  case True
  then show ?thesis using assms wanted_reached [of skip since until]
    by (fastforce simp: walk_from_ended brings_def)
next
  case False
  then show ?thesis using assms by (auto simp: walk_from_stop brings_def wanted_def)
qed

lemma brings_bottom:
  assumes "int (Pages res) < maxPages" "\<not> ended (Pages res)" "at_bottom since (step_over skip until)"
  shows "brings store since skip deliver until res d
    (walk_from ended fetch since limit maxPages deliver skip until res d) []"
  using assms by (auto simp: walk_from_bottom brings_def dest: wanted_not_bottom [OF wanted_step_over])

lemma brings_cut:
  assumes c: "page_contract store fetch limit" and "\<not> Complete res"
    and t: "turns ended since maxPages skip until res"
    and p: "page_at fetch since limit skip (Pages res) (step_over skip until) = (evs, True)"
  shows "brings store since skip deliver until res d
    (walk_from ended fetch since limit maxPages deliver skip until res d) evs"
proof -
  have "page_cut store fetch limit" using c by (simp add: page_contract_def)
  from page_cut_covers [OF this p [unfolded page_at_def] _ _ wanted_step_over] assms(2)
  show ?thesis by (fastforce simp: walk_from_cut [OF t p] brings_def)
qed

lemma brings_empty_end:
  assumes c: "page_contract store fetch limit"
    and t: "turns ended since maxPages skip until res"
    and p: "page_at fetch since limit skip (Pages res) (step_over skip until) = ([], False)"
    and "\<not> above_mark skip (step_over skip until)"
  shows "brings store since skip deliver until res d
    (walk_from ended fetch since limit maxPages deliver skip until res d) []"
proof -
  have "page_whole store fetch limit" using c by (simp add: page_contract_def)
  from page_empty_wanted(1) [OF this p [unfolded page_at_def] _ wanted_step_over] assms(4)
  show ?thesis by (fastforce simp: walk_from_empty [OF t p] brings_def)
qed

lemma brings_empty_over:
  assumes c: "page_contract store fetch limit"
    and p: "page_at fetch since limit skip (Pages res) (step_over skip until) = ([], False)"
    and L: "brings store since skip deliver (Cursor skip)
      (res\<lparr>Pages := Pages res + 1, Until := Cursor skip\<rparr>) d out L"
  shows "brings store since skip deliver until res d out L"
proof -
  have "page_whole store fetch limit" using c by (simp add: page_contract_def)
  note w = page_empty_wanted(2) [OF this p [unfolded page_at_def] _ wanted_step_over]
  have "brings store since skip deliver until res d out ([] @ L)"
    by (rule brings_later [OF L]) (simp_all add: w)
  then show ?thesis by simp
qed

lemma brings_page:
  assumes c: "page_contract store fetch limit"
    and p: "page_at fetch since limit skip (Pages res) (step_over skip until) = (evs, False)"
    and ne: "evs \<noteq> []"
    and L: "brings store since skip deliver (next_until (map createdAt evs) limit (step_over skip until))
      (res\<lparr>Pages := Pages res + 1, Fetched := Fetched res + length evs,
           Fresh := Fresh res + fst (deliver_all deliver d evs),
           Until := next_until (map createdAt evs) limit (step_over skip until)\<rparr>)
      (snd (deliver_all deliver d evs)) out L"
  shows "brings store since skip deliver until res d out (evs @ L)"
proof -
  have "page_whole store fetch limit" using c by (simp add: page_contract_def)
  note w = page_next_wanted [OF this p [unfolded page_at_def] ne _ _ wanted_step_over]
  show ?thesis by (rule brings_later [OF L]) (simp_all add: w)
qed

lemma walk_from_brings:
  assumes c: "page_contract store fetch limit"
    and "\<not> Complete res" and "Until res = until \<or> int (Pages res) < maxPages"
  shows "\<exists>L. brings store since skip deliver until res d
    (walk_from ended fetch since limit maxPages deliver skip until res d) L"
  using assms(2,3)
proof (induction until res d rule: walk_induct [where ended = ended and since = since
      and maxPages = maxPages and skip = skip and fetch = fetch and limit = limit and deliver = deliver])
  case (stop until res d)
  show ?case by (rule exI, rule brings_stop) (fact stop)+
next
  case (bottom until res d)
  show ?case by (rule exI, rule brings_bottom) (fact bottom)+
next
  case (cut until res d evs)
  show ?case by (rule exI, rule brings_cut [OF c]) (fact cut)+
next
  case (empty_end until res d)
  show ?case by (rule exI, rule brings_empty_end [OF c]) (fact empty_end)+
next
  case (empty_over until res d)
  then obtain L where "brings store since skip deliver (Cursor skip)
      (res\<lparr>Pages := Pages res + 1, Until := Cursor skip\<rparr>) d
      (walk_from ended fetch since limit maxPages deliver skip until res d) L"
    by (auto simp: walk_from_empty [OF empty_over(1,2)])
  from brings_empty_over [OF c empty_over(2) this] show ?case by (rule exI)
next
  case (page until res d evs)
  let ?low = "next_until (map createdAt evs) limit (step_over skip until)"
  from page(4) page.prems obtain L where "brings store since skip deliver ?low
      (res\<lparr>Pages := Pages res + 1, Fetched := Fetched res + length evs,
           Fresh := Fresh res + fst (deliver_all deliver d evs), Until := ?low\<rparr>)
      (snd (deliver_all deliver d evs))
      (walk_from ended fetch since limit maxPages deliver skip until res d) L"
    by (auto simp: walk_from_page [OF page(1,2,3)])
  from brings_page [OF c page(2,3) this] show ?case by (rule exI)
qed

section \<open>Where a walk stops, and that it does\<close>

lemma walk_from_pages:
  "int (Pages res) \<le> maxPages \<Longrightarrow>
     int (Pages (fst (walk_from ended fetch since limit maxPages deliver skip until res d))) \<le> maxPages"
proof (induction until res d rule: walk_induct [where ended = ended and since = since
      and maxPages = maxPages and skip = skip and fetch = fetch and limit = limit and deliver = deliver])
  case (stop until res d)
  then show ?case
    by (cases "int (Pages res) < maxPages") (auto simp: walk_from_stop walk_from_ended)
qed (auto simp: walk_from_bottom walk_from_cut walk_from_empty walk_from_page turns_def)

definition mark_ok :: "mark \<Rightarrow> bool" where
  "mark_ok m \<longleftrightarrow> (Started m \<longrightarrow> Cursor m \<le> Top m)"

text \<open>The cursor only descends: where the walk stops is never above where it began.\<close>

lemma walk_from_until:
  assumes "mark_ok skip"
  shows "Until res \<le> until \<or> int (Pages res) < maxPages \<Longrightarrow>
    Until (fst (walk_from ended fetch since limit maxPages deliver skip until res d)) \<le> until"
proof (induction until res d rule: walk_induct [where ended = ended and since = since
      and maxPages = maxPages and skip = skip and fetch = fetch and limit = limit and deliver = deliver])
  case (stop until res d)
  then show ?case using step_over_le [of skip until]
    by (cases "int (Pages res) < maxPages") (auto simp: walk_from_stop walk_from_ended)
next
  case (bottom until res d)
  then show ?case using step_over_le [of skip until] by (simp add: walk_from_bottom)
next
  case (cut until res d evs)
  then show ?case using step_over_le [of skip until] by (auto simp: walk_from_cut)
next
  case (empty_end until res d)
  then show ?case using step_over_le [of skip until] by (simp add: walk_from_empty)
next
  case (empty_over until res d)
  have "Cursor skip \<le> until"
    using empty_over(3) assms step_over_le [of skip until] by (auto simp: above_mark_def mark_ok_def)
  then show ?case using empty_over by (simp add: walk_from_empty)
next
  case (page until res d evs)
  then show ?case
    using step_over_le [of skip until] next_until_less [of "map createdAt evs" limit "step_over skip until"]
    by (simp add: walk_from_page)
qed

text \<open>With no error and time enough, a page per second of the window is enough to finish it.\<close>

lemma walk_from_completes:
  assumes "mark_ok skip" and "\<And>i s u. \<not> snd (fetch i s u limit)" and "\<And>i. \<not> ended i"
  shows "int (Pages res) + max 0 (until - max 0 (since - 1)) < maxPages \<Longrightarrow>
    Complete (fst (walk_from ended fetch since limit maxPages deliver skip until res d))"
proof (induction until res d rule: walk_induct [where ended = ended and since = since
      and maxPages = maxPages and skip = skip and fetch = fetch and limit = limit and deliver = deliver])
  case (stop until res d)
  then show ?case using assms(3) by auto
next
  case (bottom until res d)
  then show ?case by (simp add: walk_from_bottom)
next
  case (cut until res d evs)
  then show ?case using assms(2) by (metis page_at_def snd_conv)
next
  case (empty_end until res d)
  then show ?case by (simp add: walk_from_empty)
next
  case (empty_over until res d)
  have "Cursor skip < until"
    using empty_over(3) assms(1) step_over_le [of skip until] by (auto simp: above_mark_def mark_ok_def)
  moreover have "max 0 (since - 1) < until"
    using empty_over(1) step_over_le [of skip until] by (auto simp: turns_def at_bottom_def)
  ultimately show ?case using empty_over by (auto simp: walk_from_empty)
next
  case (page until res d evs)
  have "next_until (map createdAt evs) limit (step_over skip until) < until"
    using step_over_le [of skip until] next_until_less [of "map createdAt evs" limit "step_over skip until"]
    by linarith
  moreover have "max 0 (since - 1) < until"
    using page(1) step_over_le [of skip until] by (auto simp: turns_def at_bottom_def)
  ultimately show ?case using page by (auto simp: walk_from_page)
qed

section \<open>Dropping what is asked for again\<close>

lemma sorted_split: "sorted xs \<Longrightarrow> xs = filter (\<lambda>x. x < l) xs @ filter (\<lambda>x. l \<le> x) xs"
  for l :: stamp
proof (induction xs)
  case (Cons x xs)
  then show ?case
  proof (cases "x < l")
    case False
    then have "\<forall>y \<in> set xs. l \<le> y" using Cons.prems by fastforce
    then have "filter (\<lambda>x. x < l) xs = []" "filter (\<lambda>x. l \<le> x) xs = xs"
      by (auto simp: filter_empty_conv filter_id_conv)
    then show ?thesis using False by simp
  qed simp
qed simp

text \<open>The stamps at \<open>Below\<close> and above decide it alone.\<close>

lemma Below_filter:
  assumes "0 < limit" and "limit \<le> int (length xs)"
  shows "Below (filter (\<lambda>x. Below xs limit \<le> x) xs) limit = Below xs limit"
proof -
  let ?l = "Below xs limit" and ?n = "nat limit"
  let ?ys = "filter (\<lambda>x. ?l \<le> x) xs" and ?zs = "filter (\<lambda>x. x < ?l) (sort xs)"
  have len: "?n \<le> length ?ys" by (rule Below_count [OF assms])
  have split: "sort xs = ?zs @ sort ?ys"
    using sorted_split [of "sort xs" ?l] by (simp add: filter_sort)
  then have lens: "length xs = length ?zs + length ?ys"
    by (metis length_append length_sort)
  have n0: "0 < ?n" using assms(1) by simp
  have "Below ?ys limit = sort ?ys ! (length ?ys - ?n)"
    using len assms(1) n0 by (auto simp: Below_def Let_def)
  also have "\<dots> = (?zs @ sort ?ys) ! (length ?zs + (length ?ys - ?n))"
    by (simp only: nth_append_length_plus)
  also have "\<dots> = sort xs ! (length xs - ?n)"
    using len lens split by (metis Nat.add_diff_assoc)
  also have "\<dots> = ?l" using assms n0 by (auto simp: Below_def Let_def)
  finally show ?thesis .
qed

section \<open>The properties of the walk\<close>



text \<open>
  C7. The walk ends, and with pages enough it ends complete: it never takes more pages than it may,
  each page lowers the cursor, and when no page fails and time does not run out, one page for every
  second of the window and one more finish it.
\<close>

theorem walk_finishes:
  assumes "mark_ok skip" and "0 \<le> maxPages"
  shows "int (Pages (fst (walk ended fetch since oldest limit maxPages deliver skip d))) \<le> maxPages \<and>
    ((\<forall>i s u. \<not> snd (fetch i s u limit)) \<and> (\<forall>i. \<not> ended i) \<and>
       max 0 (oldest - max 0 (since - 1)) < maxPages
     \<longrightarrow> Complete (fst (walk ended fetch since oldest limit maxPages deliver skip d)))"
  using assms walk_from_pages [of no_result maxPages]
    walk_from_completes [OF assms(1), of fetch limit ended no_result oldest since maxPages deliver d]
  by (simp add: walk_def no_result_def)

text \<open>
  Following an answer in bounded memory loses nothing: \<open>Answer\<close> keeps fewer than twice the
  limit's stamps whatever comes, and its \<open>Below\<close> is that of the whole answer.
\<close>

theorem Answer_Below_exact:
  assumes "a = foldl Answer_Add (NewAnswer limit) ts"
  shows "Answer_Below a = Below ts limit \<and> (0 < limit \<longrightarrow> int (length (aStamps a)) < 2 * limit)"
proof -
  have "answer_inv (NewAnswer limit) []" by (simp add: answer_inv_def NewAnswer_def)
  from answer_inv_Below [OF answer_inv_fold [OF this, of ts]]
  have "Answer_Below a = Below ts limit" by (simp add: NewAnswer_def assms)
  then show ?thesis
    using foldl_Add_bounded [of "NewAnswer limit" ts] by (simp add: NewAnswer_def assms)
qed

text \<open>
  What \<open>Newest\<close> drops is asked for again: it keeps the order, it leaves where the walk carries
  on unchanged, and everything it drops is stamped below that point.
\<close>

theorem Newest_keeps_place:
  "subseq (Newest evs limit) evs \<and>
   Below (map createdAt (Newest evs limit)) limit = Below (map createdAt evs) limit \<and>
   set evs - set (Newest evs limit) \<subseteq> {e. createdAt e < Below (map createdAt evs) limit}"
proof -
  have "Below (map createdAt (Newest evs limit)) limit = Below (map createdAt evs) limit"
    using Below_filter [of limit "map createdAt evs"]
    by (auto simp: Newest_def Let_def filter_map comp_def)
  then show ?thesis by (auto simp: Newest_def Let_def)
qed

section \<open>A relay that keeps the contract\<close>

text \<open>
  A store listed newest first, no two events in the same second, whose pages are the newest of the
  window up to the limit. It shows that the contract can be kept, for every such store.
\<close>

definition newest_first :: "nevent list \<Rightarrow> bool" where
  "newest_first xs \<longleftrightarrow> sorted_wrt (\<lambda>a b. createdAt b < createdAt a) xs"

definition store_page :: "nevent list \<Rightarrow> page" where
  "store_page xs i s u limit =
     (take (nat limit) (filter (\<lambda>e. s \<le> createdAt e \<and> createdAt e \<le> u) xs), False)"

lemma newest_first_missing:
  assumes "newest_first ys" and "e \<in> set ys" and "e \<notin> set (take n ys)"
  shows "n < length ys" and "\<forall>x \<in> set (take n ys). createdAt e < createdAt x"
proof -
  have "e \<in> set (drop n ys)" using assms(2,3) by (metis UnE append_take_drop_id set_append)
  then show "n < length ys" by (metis drop_all empty_iff list.set(1) linorder_not_le)
  have "newest_first (take n ys @ drop n ys)" using assms(1) by simp
  then show "\<forall>x \<in> set (take n ys). createdAt e < createdAt x"
    using \<open>e \<in> set (drop n ys)\<close> unfolding newest_first_def sorted_wrt_append by blast
qed

lemma store_page_missing:
  assumes xs: "newest_first xs" "0 < limit"
    and evs: "evs = take (nat limit) (filter (\<lambda>e. s \<le> createdAt e \<and> createdAt e \<le> u) xs)"
    and e: "e \<in> set xs" "s \<le> createdAt e" "createdAt e \<le> u" "e \<notin> set evs"
  shows "evs \<noteq> [] \<and> createdAt e \<le> Below (map createdAt evs) limit \<and> createdAt e < u"
proof -
  let ?ys = "filter (\<lambda>e. s \<le> createdAt e \<and> createdAt e \<le> u) xs"
  have "newest_first ?ys" using xs(1) by (simp add: newest_first_def sorted_wrt_filter)
  from newest_first_missing [OF this, of e "nat limit"] e evs
  have len: "nat limit < length ?ys" and lt: "\<forall>x \<in> set evs. createdAt e < createdAt x" by auto
  have ne: "evs \<noteq> []" using len xs(2) evs by auto
  then have "Below (map createdAt evs) limit \<in> createdAt ` set evs"
    using Below_in_set [of "map createdAt evs" limit] by simp
  moreover have "hd evs \<in> set evs" using ne by (rule hd_in_set)
  moreover have "\<forall>x \<in> set evs. createdAt x \<le> u" using evs by (auto dest: in_set_takeD)
  ultimately show ?thesis using lt ne by fastforce
qed

lemma store_page_contract:
  assumes "newest_first xs" and "0 < limit"
  shows "page_contract (set xs) (store_page xs) limit"
proof -
  have "page_whole (set xs) (store_page xs) limit"
    unfolding page_whole_def
  proof (intro allI impI conjI)
    fix i s u evs
    assume "store_page xs i s u limit = (evs, False)"
    then have evs: "evs = take (nat limit) (filter (\<lambda>e. s \<le> createdAt e \<and> createdAt e \<le> u) xs)"
      by (simp add: store_page_def)
    show "\<forall>e \<in> set evs. s \<le> createdAt e" unfolding evs by (auto dest: in_set_takeD)
    show "\<forall>e \<in> set xs. s \<le> createdAt e \<and> createdAt e \<le> u \<and> e \<notin> set evs \<longrightarrow>
        evs \<noteq> [] \<and> createdAt e \<le> Below (map createdAt evs) limit \<and> createdAt e < u"
      using store_page_missing [OF assms evs] by blast
  qed
  then show ?thesis by (simp add: page_contract_def page_cut_def store_page_def)
qed

text \<open>Five wraps, pages of two, and a caller that notes the stamps it is handed.\<close>

definition wrap_at :: "stamp \<Rightarrow> nevent" where
  "wrap_at t = \<lparr>evID = '''', pubKey = '''', createdAt = t, evKind = 1059, evTags = [], evContent = ''''\<rparr>"

definition five_wraps :: "nevent list" where
  "five_wraps = map wrap_at [50, 40, 30, 20, 10]"

definition note_stamp :: "stamp list \<Rightarrow> nevent \<Rightarrow> bool \<times> stamp list" where
  "note_stamp d e = (True, d @ [createdAt e])"

lemma five_wraps_contract: "page_contract (set five_wraps) (store_page five_wraps) 2"
  by (rule store_page_contract) (simp_all add: newest_first_def five_wraps_def wrap_at_def)

lemma five_wraps_walk:
  "walk (\<lambda>_. False) (store_page five_wraps) 5 40 2 9 note_stamp no_mark [] =
     (\<lparr>Pages = 5, Fetched = 7, Fresh = 7, Complete = True, Until = 9\<rparr>, [40, 30, 30, 20, 20, 10, 10])"
  by code_simp

lemma five_wraps_cut:
  "walk (\<lambda>_. False) (store_page five_wraps) 5 40 2 2 note_stamp no_mark [] =
     (\<lparr>Pages = 2, Fetched = 4, Fresh = 4, Complete = False, Until = 20\<rparr>, [40, 30, 30, 20])"
  by code_simp



theorem walk_finishes_witness:
  "Complete (fst (walk (\<lambda>_. False) (store_page five_wraps) 5 40 2 100 note_stamp
      \<lparr>Top = 35, Cursor = 15\<rparr> []))"
  using walk_finishes [of "\<lparr>Top = 35, Cursor = 15\<rparr>" 100 "\<lambda>_. False" "store_page five_wraps" 5 40 2 note_stamp "[]"]
  by (simp add: mark_ok_def Started_def store_page_def)

theorem Answer_Below_exact_witness:
  "aStamps (foldl Answer_Add (NewAnswer 2) [5, 9, 1, 7, 8]) = [7, 9, 8] \<and>
   Answer_Below (foldl Answer_Add (NewAnswer 2) [5, 9, 1, 7, 8]) = Below [5, 9, 1, 7, 8] 2 \<and>
   Below [5, 9, 1, 7, 8] 2 = 8"
  using Answer_Below_exact [OF refl, of 2 "[5, 9, 1, 7, 8]"]
  by (simp add: Answer_Add_def NewAnswer_def Below_def)

end
