(* ===== verification/Catchup_Book.thy ===== *)
theory Catchup_Book
  imports Catchup "HOL-Library.Word"
begin

text \<open>
  What a relay's walk owes the anchor (\<open>engine/catchup/hold.go\<close>) and the book of all walks
  (\<open>engine/catchup/book.go\<close>). A Go map read at a missing key gives the zero value; \<open>mark_of\<close>,
  \<open>hold_of\<close> and \<open>freed_of\<close> are those reads. The counter of \<open>Freed\<close> is a \<open>uint64\<close>.
\<close>

section \<open>Holds\<close>

record hold =
  Floor :: stamp
  Began :: stamp

definition no_hold :: hold where "no_hold = \<lparr>Floor = 0, Began = 0\<rparr>"

definition Held :: "hold \<Rightarrow> bool" where "Held h \<longleftrightarrow> Began h > 0"

definition From :: "hold \<Rightarrow> stamp \<Rightarrow> stamp" where
  "From h anchor = (if Held h \<and> Floor h < anchor then Floor h else anchor)"

definition Hold_Start :: "hold \<Rightarrow> stamp \<Rightarrow> stamp \<Rightarrow> hold" where
  "Hold_Start h anchor now =
     (if \<not> Held h then \<lparr>Floor = anchor, Began = now\<rparr>
      else if anchor < Floor h then h\<lparr>Floor := anchor\<rparr> else h)"

definition Hold_Cut :: "hold \<Rightarrow> stamp \<Rightarrow> stamp \<Rightarrow> bool \<Rightarrow> hold" where
  "Hold_Cut h from began resumed =
     (if resumed \<and> Held h then h
      else \<lparr>Floor = (if Held h \<and> Floor h < from then Floor h else from), Began = began\<rparr>)"

definition Hold_Done :: "hold \<Rightarrow> bool \<Rightarrow> hold" where
  "Hold_Done h stepped =
     (if \<not> stepped \<or> \<not> Held h then no_hold
      else \<lparr>Floor = maxTs (Floor h) (Began h), Began = Began h\<rparr>)"

section \<open>The book\<close>

record freed =
  FN :: "64 word"
  FFrom :: stamp

definition no_freed :: freed where "no_freed = \<lparr>FN = 0, FFrom = 0\<rparr>"

record book =
  Marks :: "string \<rightharpoonup> mark"
  Holds :: "string \<rightharpoonup> hold"
  Freed :: "string \<rightharpoonup> freed"

definition NewBook :: book where
  "NewBook = \<lparr>Marks = Map.empty, Holds = Map.empty, Freed = Map.empty\<rparr>"

definition mark_of :: "book \<Rightarrow> string \<Rightarrow> mark" where
  "mark_of b k = (case Marks b k of Some m \<Rightarrow> m | None \<Rightarrow> no_mark)"

definition hold_of :: "book \<Rightarrow> string \<Rightarrow> hold" where
  "hold_of b k = (case Holds b k of Some h \<Rightarrow> h | None \<Rightarrow> no_hold)"

definition freed_of :: "book \<Rightarrow> string \<Rightarrow> freed" where
  "freed_of b k = (case Freed b k of Some f \<Rightarrow> f | None \<Rightarrow> no_freed)"

record conn =
  cKey :: string
  cOwn :: bool
  cTwins :: "string list"
  cResumed :: bool
  cBase :: stamp
  cOwed :: hold
  cFreed :: "64 word"

definition setHold :: "book \<Rightarrow> string \<Rightarrow> hold \<Rightarrow> book" where
  "setHold b key h =
     (if Held h then b\<lparr>Holds := (Holds b)(key \<mapsto> h)\<rparr> else b\<lparr>Holds := (Holds b)(key := None)\<rparr>)"

definition Connect :: "book \<Rightarrow> string \<Rightarrow> string list \<Rightarrow> stamp \<Rightarrow> stamp \<Rightarrow> conn" where
  "Connect b key own anchor now =
     (let c = \<lparr>cKey = key, cOwn = key \<in> set own, cTwins = filter (\<lambda>k. k \<noteq> key) own,
               cResumed = Started (mark_of b key), cBase = anchor, cOwed = no_hold,
               cFreed = FN (freed_of b key)\<rparr>
      in if \<not> cOwn c then c
         else let base = foldl (\<lambda>base k. From (hold_of b k) base) (From (hold_of b key) anchor) (cTwins c)
              in c\<lparr>cBase := base, cOwed := Hold_Cut (hold_of b key) base now (cResumed c)\<rparr>)"

definition covered :: "book \<Rightarrow> conn \<Rightarrow> bool" where
  "covered b c \<longleftrightarrow>
     FN (freed_of b (cKey c)) \<noteq> cFreed c \<and> Floor (cOwed c) \<ge> FFrom (freed_of b (cKey c))"

definition Owe :: "book \<Rightarrow> conn \<Rightarrow> book" where
  "Owe b c = (if cOwn c \<and> \<not> covered b c then setHold b (cKey c) (cOwed c) else b)"

definition Book_Cut :: "book \<Rightarrow> conn \<Rightarrow> mark \<Rightarrow> book" where
  "Book_Cut b c m =
     (if covered b c then b
      else let b = (if Started m then b\<lparr>Marks := (Marks b)(cKey c \<mapsto> m)\<rparr> else b)
           in if cOwn c then setHold b (cKey c) (cOwed c) else b)"

definition KeepFirst :: "book \<Rightarrow> conn \<Rightarrow> stamp \<Rightarrow> stamp \<Rightarrow> book" where
  "KeepFirst b c oldest newest =
     (if oldest \<le> 0 \<or> covered b c then b
      else let b = (if cOwn c then setHold b (cKey c) (cOwed c) else b);
               m = mark_of b (cKey c)
           in if \<not> Started m then b\<lparr>Marks := (Marks b)(cKey c \<mapsto> \<lparr>Top = newest, Cursor = oldest\<rparr>)\<rparr>
              else if oldest \<le> Top m
                then b\<lparr>Marks := (Marks b)(cKey c \<mapsto> \<lparr>Top = newest, Cursor = min (Cursor m) oldest\<rparr>)\<rparr>
              else b)"

text \<open>A pass on one entry of our relay lets a twin go: its counter moves on, and what it owed from
  the pass's base on is owed no more.\<close>

definition free_twin :: "stamp \<Rightarrow> book \<Rightarrow> string \<Rightarrow> book" where
  "free_twin base b k =
     (let b = b\<lparr>Freed := (Freed b)(k \<mapsto> \<lparr>FN = FN (freed_of b k) + 1, FFrom = base\<rparr>)\<rparr>
      in if Held (hold_of b k) \<and> Floor (hold_of b k) \<ge> base
         then b\<lparr>Holds := (Holds b)(k := None), Marks := (Marks b)(k := None)\<rparr> else b)"

definition Book_Done :: "book \<Rightarrow> conn \<Rightarrow> bool \<Rightarrow> book" where
  "Book_Done b c stepped =
     (let b = b\<lparr>Marks := (Marks b)(cKey c := None)\<rparr>
      in if \<not> cOwn c then b
         else foldl (free_twin (cBase c))
                (setHold b (cKey c) (Hold_Done (hold_of b (cKey c)) stepped)) (cTwins c))"

definition Book_Refused :: "book \<Rightarrow> conn \<Rightarrow> book" where
  "Book_Refused b c =
     b\<lparr>Marks := (Marks b)(cKey c := None), Holds := (Holds b)(cKey c := None),
       Freed := (Freed b)(cKey c \<mapsto> \<lparr>FN = FN (freed_of b (cKey c)) + 1, FFrom = 0\<rparr>)\<rparr>"

definition Book_Start :: "book \<Rightarrow> string list \<Rightarrow> stamp \<Rightarrow> stamp \<Rightarrow> book" where
  "Book_Start b own anchor now =
     foldl (\<lambda>b k. setHold b k (Hold_Start (hold_of b k) anchor now)) b own"

text \<open>\<open>Floor\<close>: the loop's \<open>low\<close> and \<open>held\<close> as one option.\<close>

definition lower_floor :: "book \<Rightarrow> stamp option \<Rightarrow> string \<Rightarrow> stamp option" where
  "lower_floor b low k =
     (let h = hold_of b k
      in if Held h \<and> (case low of None \<Rightarrow> True | Some l \<Rightarrow> Floor h < l) then Some (Floor h) else low)"

definition Book_Floor :: "book \<Rightarrow> string list \<Rightarrow> stamp option" where
  "Book_Floor b own = foldl (lower_floor b) None own"

section \<open>Reads after writes\<close>

lemma hold_of_setHold: "hold_of (setHold b key h) k =
    (if k = key then (if Held h then h else no_hold) else hold_of b k)"
  by (simp add: hold_of_def setHold_def)

lemma not_held_no_hold [simp]: "\<not> Held no_hold"
  by (simp add: Held_def no_hold_def)

lemma setHold_frame [simp]:
  "Marks (setHold b key h) = Marks b" "Freed (setHold b key h) = Freed b"
  "freed_of (setHold b key h) k = freed_of b k" "mark_of (setHold b key h) k = mark_of b k"
  by (simp_all add: setHold_def freed_of_def mark_of_def)

lemma hold_of_Marks [simp]: "hold_of (b\<lparr>Marks := m\<rparr>) k = hold_of b k"
  by (simp add: hold_of_def)

lemma hold_of_Freed [simp]: "hold_of (b\<lparr>Freed := f\<rparr>) k = hold_of b k"
  by (simp add: hold_of_def)

lemma freed_of_frame [simp]:
  "freed_of (b\<lparr>Marks := m\<rparr>) k = freed_of b k" "freed_of (b\<lparr>Holds := h\<rparr>) k = freed_of b k"
  by (simp_all add: freed_of_def)

lemma covered_frame [simp]: "covered (setHold b key h) c = covered b c"
  "covered (b\<lparr>Marks := m\<rparr>) c = covered b c"
  by (simp_all add: covered_def)

section \<open>The lowest floor\<close>

lemma lower_floor_None: "lower_floor b low k = None \<longleftrightarrow> low = None \<and> \<not> Held (hold_of b k)"
  by (auto simp: lower_floor_def Let_def split: option.splits)

lemma lower_floor_Some:
  "lower_floor b low k = Some l \<Longrightarrow>
     (\<forall>l0. low = Some l0 \<longrightarrow> l \<le> l0) \<and> (Held (hold_of b k) \<longrightarrow> l \<le> Floor (hold_of b k)) \<and>
     (low = Some l \<or> Held (hold_of b k) \<and> Floor (hold_of b k) = l)"
  by (auto simp: lower_floor_def Let_def split: option.splits if_splits)

lemma Floor_fold_None:
  "foldl (lower_floor b) low own = None \<longleftrightarrow> low = None \<and> (\<forall>k \<in> set own. \<not> Held (hold_of b k))"
  by (induction own arbitrary: low) (auto simp: lower_floor_None)

lemma Floor_fold_Some:
  "foldl (lower_floor b) low own = Some l \<Longrightarrow>
     (\<forall>l0. low = Some l0 \<longrightarrow> l \<le> l0) \<and> (\<forall>k \<in> set own. Held (hold_of b k) \<longrightarrow> l \<le> Floor (hold_of b k)) \<and>
     (low = Some l \<or> (\<exists>k \<in> set own. Held (hold_of b k) \<and> Floor (hold_of b k) = l))"
proof (induction own arbitrary: low)
  case (Cons k own)
  from Cons.IH [of "lower_floor b low k"] Cons.prems
  have IH: "\<forall>l0. lower_floor b low k = Some l0 \<longrightarrow> l \<le> l0"
    "\<forall>k \<in> set own. Held (hold_of b k) \<longrightarrow> l \<le> Floor (hold_of b k)"
    "lower_floor b low k = Some l \<or> (\<exists>k \<in> set own. Held (hold_of b k) \<and> Floor (hold_of b k) = l)"
    by simp_all
  show ?case
  proof (cases "lower_floor b low k")
    case None
    then show ?thesis using IH lower_floor_None [of b low k] by auto
  next
    case (Some l1)
    then show ?thesis using IH lower_floor_Some [OF Some] by (auto intro: order_trans)
  qed
qed simp

lemma From_le: "From h a \<le> a" and From_floor: "Held h \<Longrightarrow> From h a \<le> Floor h"
  and From_cases: "From h a = a \<or> Held h \<and> From h a = Floor h"
  by (auto simp: From_def)

lemma From_fold:
  "(\<forall>k \<in> set ks. Held (hold_of b k) \<longrightarrow> foldl (\<lambda>base k. From (hold_of b k) base) a ks \<le> Floor (hold_of b k))
   \<and> foldl (\<lambda>base k. From (hold_of b k) base) a ks \<le> a
   \<and> (foldl (\<lambda>base k. From (hold_of b k) base) a ks = a \<or>
      (\<exists>k \<in> set ks. Held (hold_of b k) \<and>
         foldl (\<lambda>base k. From (hold_of b k) base) a ks = Floor (hold_of b k)))"
proof (induction ks arbitrary: a)
  case (Cons k ks)
  show ?case
    using Cons.IH [of "From (hold_of b k) a"] From_le [of "hold_of b k" a]
      From_floor [of "hold_of b k" a] From_cases [of "hold_of b k" a]
    by (auto intro: order_trans)
qed simp

text \<open>
  The window of a connection to our relay is taken from the lowest anchor any of its entries owes.
\<close>

definition owed_floor :: "book \<Rightarrow> string list \<Rightarrow> stamp \<Rightarrow> stamp" where
  "owed_floor b own anchor = (case Book_Floor b own of None \<Rightarrow> anchor | Some l \<Rightarrow> min l anchor)"

lemma Connect_own:
  assumes "key \<in> set own"
  shows "cBase (Connect b key own anchor now) = owed_floor b own anchor"
proof -
  let ?twins = "filter (\<lambda>k. k \<noteq> key) own"
  let ?base = "foldl (\<lambda>base k. From (hold_of b k) base) (From (hold_of b key) anchor) ?twins"
  have base: "cBase (Connect b key own anchor now) = ?base"
    using assms by (simp add: Connect_def Let_def)
  have le: "\<forall>k \<in> set own. Held (hold_of b k) \<longrightarrow> ?base \<le> Floor (hold_of b k)" "?base \<le> anchor"
    and cs: "?base = anchor \<or> (\<exists>k \<in> set own. Held (hold_of b k) \<and> ?base = Floor (hold_of b k))"
    using From_fold [of ?twins b "From (hold_of b key) anchor"] From_le [of "hold_of b key" anchor]
      From_floor [of "hold_of b key" anchor] From_cases [of "hold_of b key" anchor] assms
    by (auto intro: order_trans)
  show ?thesis
  proof (cases "Book_Floor b own")
    case None
    then have "\<forall>k \<in> set own. \<not> Held (hold_of b k)"
      using Floor_fold_None [of b None own] by (simp add: Book_Floor_def)
    then show ?thesis using None base cs by (auto simp: owed_floor_def)
  next
    case (Some l)
    then have l: "\<forall>k \<in> set own. Held (hold_of b k) \<longrightarrow> l \<le> Floor (hold_of b k)"
      "\<exists>k \<in> set own. Held (hold_of b k) \<and> Floor (hold_of b k) = l"
      using Floor_fold_Some [of b None own l] by (auto simp: Book_Floor_def)
    then show ?thesis using Some base le cs by (fastforce simp: owed_floor_def min_def)
  qed
qed

section \<open>The ledger\<close>

text \<open>
  An abstract account of what the walks on our relay owe: for each key the anchors a pass has still
  to be taken from. A walk that stops short, or whose first answer came full or was cut, is charged
  with what its connection says it owes, unless a pass elsewhere covered it meanwhile. A finished
  pass from \<open>base\<close> pays every debt from \<open>base\<close> on, its own and its twins'; one that stepped over
  stretches owes one more pass from when the walk began. A refusal cancels the key's debts.
\<close>

type_synonym ledger = "string \<Rightarrow> stamp set"

definition charge :: "book \<Rightarrow> conn \<Rightarrow> ledger \<Rightarrow> ledger" where
  "charge b c D =
     (if cOwn c \<and> \<not> covered b c then D(cKey c := insert (Floor (cOwed c)) (D (cKey c))) else D)"

definition pay :: "book \<Rightarrow> conn \<Rightarrow> bool \<Rightarrow> ledger \<Rightarrow> ledger" where
  "pay b c stepped D k =
     (if \<not> cOwn c then D k
      else if k = cKey c \<and> stepped \<and> Held (hold_of b k)
        then {max (Floor (hold_of b k)) (Began (hold_of b k))}
      else if k = cKey c \<or> k \<in> set (cTwins c) then {v \<in> D k. v < cBase c}
      else D k)"

text \<open>
  The runs of a book for one address whose relay entries are \<open>own\<close>: a runner starts while none of
  its connections is open, each key has at most one open connection, and the clock is positive.
\<close>

inductive ledger_run :: "string list \<Rightarrow> book \<Rightarrow> (string \<rightharpoonup> conn) \<Rightarrow> ledger \<Rightarrow> bool" for own where
  fresh: "ledger_run own NewBook Map.empty (\<lambda>_. {})"
| start: "\<lbrakk>ledger_run own b live D; \<forall>k \<in> set own. live k = None; 0 < now\<rbrakk> \<Longrightarrow>
    ledger_run own (Book_Start b own anchor now) live
      (\<lambda>k. if k \<in> set own then insert anchor (D k) else D k)"
| connect: "\<lbrakk>ledger_run own b live D; 0 < now\<rbrakk> \<Longrightarrow>
    ledger_run own b (live(key \<mapsto> Connect b key own anchor now)) D"
| owe: "\<lbrakk>ledger_run own b live D; live key = Some c\<rbrakk> \<Longrightarrow>
    ledger_run own (Owe b c) live (charge b c D)"
| cut: "\<lbrakk>ledger_run own b live D; live key = Some c\<rbrakk> \<Longrightarrow>
    ledger_run own (Book_Cut b c m) (live(key := None)) (charge b c D)"
| keep: "\<lbrakk>ledger_run own b live D; live key = Some c; 0 < oldest\<rbrakk> \<Longrightarrow>
    ledger_run own (KeepFirst b c oldest newest) live (charge b c D)"
| finish: "\<lbrakk>ledger_run own b live D; live key = Some c\<rbrakk> \<Longrightarrow>
    ledger_run own (Book_Done b c stepped) (live(key := None)) (pay b c stepped D)"
| refuse: "\<lbrakk>ledger_run own b live D; live key = Some c\<rbrakk> \<Longrightarrow>
    ledger_run own (Book_Refused b c) (live(key := None)) (D(key := {}))"

text \<open>What one open connection has to say of its key.\<close>

definition conn_ok :: "string list \<Rightarrow> ledger \<Rightarrow> string \<Rightarrow> conn \<Rightarrow> bool" where
  "conn_ok own D k c \<longleftrightarrow>
     cKey c = k \<and> (cOwn c \<longleftrightarrow> k \<in> set own) \<and> cTwins c = filter (\<lambda>j. j \<noteq> k) own \<and>
     (cOwn c \<longrightarrow> Held (cOwed c) \<and> cBase c \<le> Floor (cOwed c) \<and> (\<forall>v \<in> D k. Floor (cOwed c) \<le> v))"

text \<open>The book's holds cover the ledger, and only our relay's entries hold anything.\<close>

definition covers :: "string list \<Rightarrow> book \<Rightarrow> ledger \<Rightarrow> bool" where
  "covers own b D \<longleftrightarrow>
     (\<forall>k v. v \<in> D k \<longrightarrow> k \<in> set own \<and> Held (hold_of b k) \<and> Floor (hold_of b k) \<le> v) \<and>
     (\<forall>k. Holds b k \<noteq> None \<longrightarrow> k \<in> set own)"

definition ledger_inv :: "string list \<Rightarrow> book \<Rightarrow> (string \<rightharpoonup> conn) \<Rightarrow> ledger \<Rightarrow> bool" where
  "ledger_inv own b live D \<longleftrightarrow>
     covers own b D \<and> (\<forall>k c. live k = Some c \<longrightarrow> conn_ok own D k c)"

lemma coversD:
  "covers own b D \<Longrightarrow> v \<in> D k \<Longrightarrow> k \<in> set own \<and> Held (hold_of b k) \<and> Floor (hold_of b k) \<le> v"
  by (auto simp: covers_def)

lemma conn_ok_less: "conn_ok own D k c \<Longrightarrow> D' k \<subseteq> D k \<Longrightarrow> conn_ok own D' k c"
  by (auto simp: conn_ok_def)

lemma Connect_ok:
  assumes "covers own b D" and "0 < now"
  shows "conn_ok own D key (Connect b key own anchor now)"
proof (cases "key \<in> set own")
  case False
  then show ?thesis by (auto simp: conn_ok_def Connect_def Let_def)
next
  case True
  let ?c = "Connect b key own anchor now" and ?h = "hold_of b key"
  have sel: "cKey ?c = key" "cOwn ?c" "cTwins ?c = filter (\<lambda>j. j \<noteq> key) own"
    "cOwed ?c = Hold_Cut ?h (cBase ?c) now (cResumed ?c)"
    using True by (simp_all add: Connect_def Let_def)
  have "Held ?h \<Longrightarrow> cBase ?c \<le> Floor ?h"
    using Connect_own [OF True, of b anchor now] True Floor_fold_Some [of b None own]
      Floor_fold_None [of b None own]
    by (fastforce simp: owed_floor_def Book_Floor_def split: option.splits)
  then show ?thesis using sel True assms coversD [OF assms(1), of _ key]
    by (fastforce simp: conn_ok_def Hold_Cut_def Held_def split: if_splits)
qed

text \<open>Writing a connection's debt into the book.\<close>

lemma covers_setHold:
  assumes "covers own b D" and "conn_ok own D k c" and "cOwn c"
  shows "covers own (setHold b k (cOwed c)) (D(k := insert (Floor (cOwed c)) (D k)))"
  using assms by (auto simp: covers_def conn_ok_def hold_of_setHold)
    (auto simp: setHold_def split: if_splits)

lemma covers_Marks: "covers own (b\<lparr>Marks := m\<rparr>) D \<longleftrightarrow> covers own b D"
  by (simp add: covers_def)

lemma covers_charge:
  assumes "covers own b D" and "conn_ok own D k c"
    and "b' = (if cOwn c \<and> \<not> covered b c then setHold b k (cOwed c) else b) \<or>
         (\<exists>m. b' = (if cOwn c \<and> \<not> covered b c then setHold b k (cOwed c) else b)\<lparr>Marks := m\<rparr>)"
  shows "covers own b' (charge b c D)"
  using covers_setHold [OF assms(1,2)] assms
  by (auto simp: charge_def covers_Marks conn_ok_def)

lemma conn_ok_charge:
  assumes "conn_ok own D k c" and "conn_ok own D j c'" and "j \<noteq> k \<or> c' = c"
  shows "conn_ok own (charge b c D) j c'"
  using assms by (auto simp: conn_ok_def charge_def)

lemma Owe_shape: "conn_ok own D k c \<Longrightarrow>
    Owe b c = (if cOwn c \<and> \<not> covered b c then setHold b k (cOwed c) else b)"
  by (simp add: Owe_def conn_ok_def)

lemma setHold_Marks: "setHold (b\<lparr>Marks := m\<rparr>) k h = (setHold b k h)\<lparr>Marks := m\<rparr>"
  by (simp add: setHold_def)

lemma Cut_shape: "conn_ok own D k c \<Longrightarrow>
    \<exists>m'. Book_Cut b c m = (if cOwn c \<and> \<not> covered b c then setHold b k (cOwed c) else b)\<lparr>Marks := m'\<rparr>"
  by (cases "covered b c"; cases "Started m"; cases "cOwn c")
     (auto simp: Book_Cut_def conn_ok_def setHold_Marks Let_def intro: exI [of _ "Marks b"])

lemma Keep_shape: "conn_ok own D k c \<Longrightarrow> 0 < oldest \<Longrightarrow>
    \<exists>m'. KeepFirst b c oldest newest =
      (if cOwn c \<and> \<not> covered b c then setHold b k (cOwed c) else b)\<lparr>Marks := m'\<rparr>"
  by (cases "covered b c"; cases "cOwn c")
     (auto simp: KeepFirst_def conn_ok_def Let_def intro: exI [of _ "Marks b"])

text \<open>The two folds over our entries, key by key.\<close>

lemma Start_fold:
  assumes "0 < now"
  shows "hold_of (Book_Start b own anchor now) k =
      (if k \<in> set own then Hold_Start (hold_of b k) anchor now else hold_of b k)"
    and "Holds (Book_Start b own anchor now) k \<noteq> None \<Longrightarrow> k \<in> set own \<or> Holds b k \<noteq> None"
proof -
  have held: "Held (Hold_Start h anchor now)" for h
    using assms by (auto simp: Hold_Start_def Held_def)
  have twice: "Hold_Start (Hold_Start h anchor now) anchor now = Hold_Start h anchor now" for h
    using assms by (auto simp: Hold_Start_def Held_def)
  show "hold_of (Book_Start b own anchor now) k =
      (if k \<in> set own then Hold_Start (hold_of b k) anchor now else hold_of b k)"
    unfolding Book_Start_def
    by (induction own arbitrary: b) (auto simp: hold_of_setHold held twice)
  show "Holds (Book_Start b own anchor now) k \<noteq> None \<Longrightarrow> k \<in> set own \<or> Holds b k \<noteq> None"
    unfolding Book_Start_def
    by (induction own arbitrary: b) (force simp: setHold_def split: if_splits)+
qed

lemma free_twin_hold:
  "hold_of (free_twin base b j) k =
     (if k = j \<and> Held (hold_of b k) \<and> base \<le> Floor (hold_of b k) then no_hold else hold_of b k)"
  by (auto simp: free_twin_def hold_of_def Let_def)

lemma free_fold_hold:
  "hold_of (foldl (free_twin base) b ks) k =
     (if k \<in> set ks \<and> Held (hold_of b k) \<and> base \<le> Floor (hold_of b k) then no_hold else hold_of b k)"
  by (induction ks arbitrary: b) (auto simp: free_twin_hold)

lemma free_fold_Holds: "Holds (foldl (free_twin base) b ks) k \<noteq> None \<Longrightarrow> Holds b k \<noteq> None"
proof (induction ks arbitrary: b)
  case (Cons j ks)
  then have "Holds (free_twin base b j) k \<noteq> None" by simp
  then show ?case by (auto simp: free_twin_def Let_def split: if_splits)
qed simp

lemma covers_Start:
  assumes "covers own b D" and "0 < now"
  shows "covers own (Book_Start b own anchor now)
           (\<lambda>k. if k \<in> set own then insert anchor (D k) else D k)"
  unfolding covers_def
proof (intro conjI allI impI)
  fix k v assume v: "v \<in> (if k \<in> set own then insert anchor (D k) else D k)"
  then show k: "k \<in> set own" using assms(1) by (auto simp: covers_def split: if_splits)
  show "Held (hold_of (Book_Start b own anchor now) k)"
    and "Floor (hold_of (Book_Start b own anchor now) k) \<le> v"
    using v k coversD [OF assms(1), of v k] \<open>0 < now\<close>
    by (auto simp: Start_fold(1) [OF \<open>0 < now\<close>] Hold_Start_def Held_def split: if_splits)
next
  fix k assume "Holds (Book_Start b own anchor now) k \<noteq> None"
  then show "k \<in> set own" using Start_fold(2) [OF \<open>0 < now\<close>, of b own anchor k] assms(1)
    by (auto simp: covers_def)
qed

lemma Done_hold:
  assumes "conn_ok own D k c" and "cOwn c"
  shows "hold_of (Book_Done b c stepped) j =
     (if j = k then (if Held (Hold_Done (hold_of b k) stepped) then Hold_Done (hold_of b k) stepped
                     else no_hold)
      else if j \<in> set own \<and> Held (hold_of b j) \<and> cBase c \<le> Floor (hold_of b j) then no_hold
      else hold_of b j)"
  using assms by (auto simp: Book_Done_def conn_ok_def free_fold_hold hold_of_setHold)

lemma Done_Holds:
  assumes "conn_ok own D k c" and "Holds (Book_Done b c stepped) j \<noteq> None"
  shows "Holds b j \<noteq> None \<or> j \<in> set own"
  using assms free_fold_Holds [of "cBase c" _ "cTwins c" j]
  by (fastforce simp: Book_Done_def conn_ok_def setHold_def Let_def split: if_splits)

lemma covers_Done:
  assumes cov: "covers own b D" and ok: "conn_ok own D k c"
  shows "covers own (Book_Done b c stepped) (pay b c stepped D)"
proof (cases "cOwn c")
  case False
  then have "pay b c stepped D = D" by (auto simp: pay_def)
  then show ?thesis using cov False by (simp add: Book_Done_def Let_def covers_Marks)
next
  case own: True
  have k: "cKey c = k" "k \<in> set own" "set (cTwins c) = set own - {k}"
    using ok own by (auto simp: conn_ok_def)
  have paid: "\<not> v < cBase c" if "v \<in> D k" for v
    using ok own that by (fastforce simp: conn_ok_def)
  show ?thesis unfolding covers_def
  proof (intro conjI allI impI)
    fix j v assume v: "v \<in> pay b c stepped D j"
    show "j \<in> set own" using v k own coversD [OF cov, of v j] by (auto simp: pay_def split: if_splits)
    show "Held (hold_of (Book_Done b c stepped) j)" and "Floor (hold_of (Book_Done b c stepped) j) \<le> v"
      using v k own paid coversD [OF cov, of v j]
      by (auto simp: pay_def Done_hold [OF ok own] Hold_Done_def Held_def max_def maxTs_def
          split: if_splits)
  next
    fix j assume "Holds (Book_Done b c stepped) j \<noteq> None"
    then show "j \<in> set own" using Done_Holds [OF ok, of b stepped j] cov by (auto simp: covers_def)
  qed
qed

lemma pay_less: "j \<noteq> cKey c \<Longrightarrow> pay b c stepped D j \<subseteq> D j"
  by (auto simp: pay_def)

lemma covers_Refused:
  assumes "covers own b D" and "conn_ok own D k c"
  shows "covers own (Book_Refused b c) (D(k := {}))"
  using assms by (auto simp: covers_def conn_ok_def Book_Refused_def hold_of_def)

lemma ledger_run_inv: "ledger_run own b live D \<Longrightarrow> ledger_inv own b live D"
proof (induction rule: ledger_run.induct)
  case fresh
  show ?case by (simp add: ledger_inv_def covers_def NewBook_def)
next
  case (start b live D now anchor)
  then show ?case
    using covers_Start [of own b D now anchor] by (auto simp: ledger_inv_def conn_ok_def)
next
  case (connect b live D now key anchor)
  then show ?case using Connect_ok [of own b D now key anchor] by (auto simp: ledger_inv_def)
next
  case (owe b live D key c)
  then have ok: "conn_ok own D key c" by (auto simp: ledger_inv_def)
  show ?case using owe covers_charge [OF _ ok] Owe_shape [OF ok] conn_ok_charge [OF ok]
    by (simp add: ledger_inv_def) (metis option.inject)
next
  case (cut b live D key c m)
  then have ok: "conn_ok own D key c" by (auto simp: ledger_inv_def)
  obtain m' where "Book_Cut b c m =
      (if cOwn c \<and> \<not> covered b c then setHold b key (cOwed c) else b)\<lparr>Marks := m'\<rparr>"
    using Cut_shape [OF ok] by blast
  then have "covers own (Book_Cut b c m) (charge b c D)"
    using cut.IH by (intro covers_charge [OF _ ok]) (auto simp: ledger_inv_def)
  then show ?case using cut conn_ok_charge [OF ok] by (simp add: ledger_inv_def)
next
  case (keep b live D key c oldest newest)
  then have ok: "conn_ok own D key c" by (auto simp: ledger_inv_def)
  obtain m' where "KeepFirst b c oldest newest =
      (if cOwn c \<and> \<not> covered b c then setHold b key (cOwed c) else b)\<lparr>Marks := m'\<rparr>"
    using Keep_shape [OF ok \<open>0 < oldest\<close>] by blast
  then have "covers own (KeepFirst b c oldest newest) (charge b c D)"
    using keep.IH by (intro covers_charge [OF _ ok]) (auto simp: ledger_inv_def)
  then show ?case using keep conn_ok_charge [OF ok]
    by (simp add: ledger_inv_def) (metis option.inject)
next
  case (finish b live D key c stepped)
  then have ok: "conn_ok own D key c" by (auto simp: ledger_inv_def)
  have "conn_ok own (pay b c stepped D) j c'" if "j \<noteq> key" "live j = Some c'" for j c'
  proof (rule conn_ok_less)
    show "conn_ok own D j c'" using that(2) finish.IH by (simp add: ledger_inv_def)
    have "cKey c = key" using ok by (simp add: conn_ok_def)
    then show "pay b c stepped D j \<subseteq> D j" using that(1) pay_less by simp
  qed
  then show ?case using finish covers_Done [OF _ ok] by (auto simp: ledger_inv_def)
next
  case (refuse b live D key c)
  then have ok: "conn_ok own D key c" by (auto simp: ledger_inv_def)
  have "conn_ok own (D(key := {})) j c'" if "j \<noteq> key" "live j = Some c'" for j c'
    using that refuse.IH conn_ok_less [of own D j c' "D(key := {})"] by (simp add: ledger_inv_def)
  moreover have "covers own (Book_Refused b c) (D(key := {}))"
    using refuse.IH by (intro covers_Refused [OF _ ok]) (simp add: ledger_inv_def)
  ultimately show ?case by (simp add: ledger_inv_def del: fun_upd_apply) (simp add: fun_upd_other)
qed

section \<open>Properties of the book\<close>

text \<open>C4. In every run of the book, a debt that no finished pass has paid and no refusal has
  cancelled is still covered: the anchor the engine saves (at most \<open>Book_Floor\<close>) is not past it, and
  the next window opened on any entry of our relay, from whatever anchor, reaches down to it. So no
  order of cut walks, capped answers, passes on twin entries and restarts lets a stretch of our relay
  be skipped.\<close>

theorem debts_stay_covered:
  assumes run: "ledger_run own b live D" and debt: "v \<in> D k" and key: "key \<in> set own"
  shows "(\<exists>l. Book_Floor b own = Some l \<and> l \<le> v) \<and> cBase (Connect b key own anchor now) \<le> v"
proof -
  have "covers own b D" using ledger_run_inv [OF run] by (simp add: ledger_inv_def)
  from coversD [OF this debt] have k: "k \<in> set own" "Held (hold_of b k)" "Floor (hold_of b k) \<le> v"
    by auto
  then obtain l where l: "Book_Floor b own = Some l"
    using Floor_fold_None [of b None own] by (fastforce simp: Book_Floor_def)
  then have "l \<le> v" using Floor_fold_Some [of b None own l] k by (fastforce simp: Book_Floor_def)
  with l show ?thesis using Connect_own [OF key, of b anchor now] by (simp add: owed_floor_def)
qed

theorem debts_stay_covered_witness:
  "\<exists>b live D. ledger_run [''a'', ''b''] b live D \<and> 50 \<in> D ''a'' \<and> 70 \<in> D ''b'' \<and>
     (\<exists>l. Book_Floor b [''a'', ''b''] = Some l \<and> l \<le> 50) \<and>
     cBase (Connect b ''b'' [''a'', ''b''] 200 210) \<le> 50"
proof -
  let ?own = "[''a'', ''b'']"
  define a where "a = Connect NewBook ''a'' ?own 50 100"
  define b1 where "b1 = Owe NewBook a"
  define D1 where "D1 = charge NewBook a (\<lambda>_. {})"
  define c where "c = Connect NewBook ''b'' ?own 70 100"
  have "ledger_run ?own NewBook (Map.empty(''a'' \<mapsto> a, ''b'' \<mapsto> c)) (\<lambda>_. {})"
    unfolding a_def c_def by (intro ledger_run.connect ledger_run.fresh) simp_all
  then have r: "ledger_run ?own b1 (Map.empty(''a'' \<mapsto> a, ''b'' \<mapsto> c)) D1"
    unfolding b1_def D1_def by (rule ledger_run.owe [where key = "''a''"]) simp
  define b2 where "b2 = Book_Cut b1 c \<lparr>Top = 99, Cursor = 80\<rparr>"
  define D2 where "D2 = charge b1 c D1"
  have run: "ledger_run ?own b2 ((Map.empty(''a'' \<mapsto> a, ''b'' \<mapsto> c))(''b'' := None)) D2"
    unfolding b2_def D2_def by (rule ledger_run.cut [OF r]) simp
  have a: "a = \<lparr>cKey = ''a'', cOwn = True, cTwins = [''b''], cResumed = False, cBase = 50,
      cOwed = \<lparr>Floor = 50, Began = 100\<rparr>, cFreed = 0\<rparr>"
    by (simp add: a_def Connect_def NewBook_def hold_of_def mark_of_def freed_of_def no_hold_def
        no_freed_def no_mark_def Started_def Held_def From_def Hold_Cut_def)
  have c: "c = \<lparr>cKey = ''b'', cOwn = True, cTwins = [''a''], cResumed = False, cBase = 70,
      cOwed = \<lparr>Floor = 70, Began = 100\<rparr>, cFreed = 0\<rparr>"
    by (simp add: c_def Connect_def NewBook_def hold_of_def mark_of_def freed_of_def no_hold_def
        no_freed_def no_mark_def Started_def Held_def From_def Hold_Cut_def)
  have D: "50 \<in> D2 ''a''" "70 \<in> D2 ''b''"
    by (simp_all add: D2_def D1_def b1_def charge_def covered_def Owe_def a c freed_of_def
        setHold_def NewBook_def no_freed_def)
  from debts_stay_covered [OF run D(1), of "''b''" 200 210] run D show ?thesis by auto
qed



lemma free_fold_freed:
  "distinct ks \<Longrightarrow> freed_of (foldl (free_twin base) b ks) k =
     (if k \<in> set ks then \<lparr>FN = FN (freed_of b k) + 1, FFrom = base\<rparr> else freed_of b k)"
  by (induction ks arbitrary: b) (auto simp: free_twin_def freed_of_def Let_def)

text \<open>A pass that finished on one entry while another entry's connection was open settles that
  connection too, when it reached down to what the connection owes: neither a full first answer, nor
  a cut walk, nor a capped first answer on it puts a hold or a mark back.\<close>

theorem covered_stays_settled:
  assumes "distinct own" and "key \<in> set own" and "twin \<in> set own" and "twin \<noteq> key"
    and "c = Connect b0 twin own anchor0 now0" and "freed_of b twin = freed_of b0 twin"
    and "p = Connect b1 key own anchor1 now1" and "cBase p \<le> Floor (cOwed c)"
    and "b' = Book_Done b p stepped"
  shows "Owe b' c = b' \<and> Book_Cut b' c m = b' \<and> KeepFirst b' c oldest newest = b'"
proof -
  have "freed_of b' twin = \<lparr>FN = FN (freed_of b twin) + 1, FFrom = cBase p\<rparr>"
    using assms by (simp add: Book_Done_def Connect_def Let_def free_fold_freed)
  moreover have "cFreed c = FN (freed_of b twin)" "cKey c = twin"
    using assms by (simp_all add: Connect_def Let_def)
  ultimately have "covered b' c" using assms(8) by (simp add: covered_def)
  then show ?thesis by (simp add: Owe_def Book_Cut_def KeepFirst_def)
qed

theorem covered_stays_settled_witness:
  "Owe (Book_Done NewBook (Connect NewBook ''a'' [''a'', ''b''] 50 100) False)
       (Connect NewBook ''b'' [''a'', ''b''] 50 100) =
     Book_Done NewBook (Connect NewBook ''a'' [''a'', ''b''] 50 100) False \<and>
   Owe NewBook (Connect NewBook ''b'' [''a'', ''b''] 50 100) \<noteq> NewBook"
proof -
  let ?own = "[''a'', ''b'']"
  let ?c = "Connect NewBook ''b'' ?own 50 100" and ?p = "Connect NewBook ''a'' ?own 50 100"
  note eqs = Connect_def Owe_def covered_def setHold_def NewBook_def hold_of_def mark_of_def
      freed_of_def no_hold_def no_freed_def no_mark_def Started_def Held_def From_def Hold_Cut_def
  have "cBase ?p \<le> Floor (cOwed ?c)" by (simp add: eqs)
  then have "Owe (Book_Done NewBook ?p False) ?c = Book_Done NewBook ?p False"
    using covered_stays_settled [of ?own "''a''" "''b''" ?c NewBook 50 100 NewBook ?p NewBook 50 100
      "Book_Done NewBook ?p False" False] by simp
  moreover have "Holds (Owe NewBook ?c) ''b'' \<noteq> Holds NewBook ''b''" by (simp add: eqs)
  ultimately show ?thesis by metis
qed

end
