(* ===== verification/Knock_Addr.thy ===== *)
theory Knock_Addr
  imports Prelude "HOL-Library.Word"
begin

text \<open>
  Where the relay's knocks may go (\<open>relay-live/knock_send.go\<close>, "where a post may go", and the
  endpoint checks of \<open>relay-live/knock.go\<close>): the address ranges that are public, the resolver that
  keeps only those, the dialer's last check, which urls may be registered as an endpoint, and the
  push server an endpoint counts under.

  A \<open>net.IP\<close> is its bytes, four or sixteen of them; the address predicates of package \<open>net\<close> are
  written out. \<open>url.Parse\<close>, \<open>url.ParseQuery\<close>, \<open>net.ParseIP\<close> and the public suffix list are functions of
  the record \<open>netlib\<close>, about which nothing is assumed.
\<close>

unbundle bit_operations_syntax

section \<open>Addresses\<close>

type_synonym byte = "8 word"
type_synonym ip = "byte list"

text \<open>\<open>IP.To4\<close>: a v4 address, or one mapped into v6.\<close>

definition To4 :: "ip \<Rightarrow> ip option" where
  "To4 a = (if length a = 4 then Some a
            else if length a = 16 \<and> take 12 a = replicate 10 0 @ [0xff, 0xff] then Some (drop 12 a)
            else None)"

definition v6_unspecified :: ip where "v6_unspecified = replicate 16 0"
definition v6_loopback :: ip where "v6_loopback = replicate 15 0 @ [1]"

definition IsLoopback :: "ip \<Rightarrow> bool" where
  "IsLoopback a = (case To4 a of Some v \<Rightarrow> v ! 0 = 127 | None \<Rightarrow> a = v6_loopback)"

definition IsPrivate :: "ip \<Rightarrow> bool" where
  "IsPrivate a = (case To4 a of
     Some v \<Rightarrow> v ! 0 = 10 \<or> v ! 0 = 172 \<and> v ! 1 AND 0xf0 = 16 \<or> v ! 0 = 192 \<and> v ! 1 = 168
   | None \<Rightarrow> length a = 16 \<and> a ! 0 AND 0xfe = 0xfc)"

definition IsLinkLocalUnicast :: "ip \<Rightarrow> bool" where
  "IsLinkLocalUnicast a = (case To4 a of
     Some v \<Rightarrow> v ! 0 = 169 \<and> v ! 1 = 254
   | None \<Rightarrow> length a = 16 \<and> a ! 0 = 0xfe \<and> a ! 1 AND 0xc0 = 0x80)"

definition IsLinkLocalMulticast :: "ip \<Rightarrow> bool" where
  "IsLinkLocalMulticast a = (case To4 a of
     Some v \<Rightarrow> v ! 0 = 224 \<and> v ! 1 = 0 \<and> v ! 2 = 0
   | None \<Rightarrow> length a = 16 \<and> a ! 0 = 0xff \<and> a ! 1 AND 0x0f = 0x02)"

definition IsInterfaceLocalMulticast :: "ip \<Rightarrow> bool" where
  "IsInterfaceLocalMulticast a = (length a = 16 \<and> a ! 0 = 0xff \<and> a ! 1 AND 0x0f = 0x01)"

definition IsMulticast :: "ip \<Rightarrow> bool" where
  "IsMulticast a = (case To4 a of
     Some v \<Rightarrow> v ! 0 AND 0xf0 = 0xe0 | None \<Rightarrow> length a = 16 \<and> a ! 0 = 0xff)"

definition IsUnspecified :: "ip \<Rightarrow> bool" where
  "IsUnspecified a = (case To4 a of Some v \<Rightarrow> v = [0, 0, 0, 0] | None \<Rightarrow> a = v6_unspecified)"

definition allZero :: "byte list \<Rightarrow> bool" where
  "allZero b = list_all (\<lambda>x. x = 0) b"

text \<open>The ranges \<open>publicIP\<close> names itself, for each family.\<close>

definition reserved4 :: "ip \<Rightarrow> bool" where
  "reserved4 v =
     (v ! 0 = 0 \<or> v ! 0 = 100 \<and> v ! 1 AND 0xc0 = 64
      \<or> v ! 0 = 192 \<and> v ! 1 = 0 \<and> (v ! 2 = 0 \<or> v ! 2 = 2)
      \<or> v ! 0 = 198 \<and> v ! 1 = 51 \<and> v ! 2 = 100
      \<or> v ! 0 = 203 \<and> v ! 1 = 0 \<and> v ! 2 = 113
      \<or> v ! 0 = 198 \<and> v ! 1 AND 0xfe = 18
      \<or> v ! 0 = 192 \<and> v ! 1 = 88 \<and> v ! 2 = 99
      \<or> v ! 0 \<ge> 240)"

definition reserved6 :: "ip \<Rightarrow> bool" where
  "reserved6 a =
     (allZero (take 12 a)
      \<or> a ! 0 = 0x00 \<and> a ! 1 = 0x64 \<and> a ! 2 = 0xff \<and> a ! 3 = 0x9b
      \<or> a ! 0 = 0x20 \<and> a ! 1 = 0x02
      \<or> a ! 0 = 0x20 \<and> a ! 1 = 0x01 \<and> a ! 2 = 0 \<and> a ! 3 = 0
      \<or> a ! 0 = 0x20 \<and> a ! 1 = 0x01 \<and> a ! 2 = 0x0d \<and> a ! 3 = 0xb8
      \<or> a ! 0 = 0x3f \<and> a ! 1 = 0xff \<and> a ! 2 AND 0xf0 = 0
      \<or> a ! 0 = 0x20 \<and> a ! 1 = 0x01 \<and> a ! 2 = 0 \<and> a ! 3 = 0x02 \<and> a ! 4 = 0 \<and> a ! 5 = 0
      \<or> a ! 0 = 0x5f \<and> a ! 1 = 0x00
      \<or> a ! 0 = 0x01 \<and> allZero (take 7 (drop 1 a))
      \<or> a ! 0 = 0xfe \<and> a ! 1 AND 0xc0 = 0xc0)"

text \<open>\<open>None\<close> is a nil address.\<close>

definition publicIP :: "ip option \<Rightarrow> bool" where
  "publicIP ipo = (case ipo of
     None \<Rightarrow> False
   | Some a \<Rightarrow>
       if IsLoopback a \<or> IsPrivate a \<or> IsLinkLocalUnicast a \<or> IsLinkLocalMulticast a
          \<or> IsInterfaceLocalMulticast a \<or> IsMulticast a \<or> IsUnspecified a then False
       else case To4 a of Some v \<Rightarrow> \<not> reserved4 v | None \<Rightarrow> \<not> reserved6 a)"

section \<open>The ranges as blocks\<close>

text \<open>
  The reference: a block is an address and how many of its leading bits count. The two lists are the
  blocks that are not public, in the usual notation.
\<close>

definition byte_bits :: "byte \<Rightarrow> bool list" where
  "byte_bits x = map (bit x) [7, 6, 5, 4, 3, 2, 1, 0]"

definition ip_bits :: "ip \<Rightarrow> bool list" where
  "ip_bits a = concat (map byte_bits a)"

definition in_block :: "ip \<Rightarrow> ip \<times> nat \<Rightarrow> bool" where
  "in_block a b = (take (snd b) (ip_bits a) = take (snd b) (ip_bits (fst b)))"

definition blocks4 :: "(ip \<times> nat) list" where
  "blocks4 = [([0], 8), ([10], 8), ([100, 64], 10), ([127], 8), ([169, 254], 16), ([172, 16], 12),
     ([192, 0, 0], 24), ([192, 0, 2], 24), ([192, 88, 99], 24), ([192, 168], 16), ([198, 18], 15),
     ([198, 51, 100], 24), ([203, 0, 113], 24), ([224], 4), ([240], 4)]"

definition blocks6 :: "(ip \<times> nat) list" where
  "blocks6 = [([0, 0, 0, 0, 0, 0, 0, 0, 0, 0, 0, 0], 96), ([0, 0x64, 0xff, 0x9b], 32), ([0x20, 2], 16), ([0x20, 1, 0, 0], 32),
     ([0x20, 1, 0x0d, 0xb8], 32), ([0x3f, 0xff, 0], 20), ([0x20, 1, 0, 2, 0, 0], 48), ([0x5f, 0], 16),
     ([1, 0, 0, 0, 0, 0, 0, 0], 64), ([0xfe, 0xc0], 10), ([0xfe, 0x80], 10), ([0xfc], 7), ([0xff], 8)]"

lemma byte_eq_iff: "x = (y :: byte) \<longleftrightarrow> (\<forall>n \<in> {0,1,2,3,4,5,6,7}. bit x n = bit y n)"
proof
  assume *: "\<forall>n \<in> {0,1,2,3,4,5,6,7}. bit x n = bit y n"
  show "x = y"
  proof (rule bit_eqI)
    fix n assume "possible_bit TYPE(8 word) n"
    then have "n < 8" by simp
    then have "n \<in> {0,1,2,3,4,5,6,7}" by auto
    with * show "bit x n = bit y n" by blast
  qed
qed simp

lemma byte_bits_inj: "byte_bits x = byte_bits y \<longleftrightarrow> x = y"
  by (subst byte_eq_iff) (auto simp: byte_bits_def)

text \<open>The masks of the sources read leading bits.\<close>

lemma mask_bits:
  "(x :: byte) AND 0xc0 = 64 \<longleftrightarrow> take 2 (byte_bits x) = take 2 (byte_bits 64)"
  "x AND 0xc0 = 0x80 \<longleftrightarrow> take 2 (byte_bits x) = take 2 (byte_bits 0x80)"
  "x AND 0xc0 = 0xc0 \<longleftrightarrow> take 2 (byte_bits x) = take 2 (byte_bits 0xc0)"
  "x AND 0xf0 = 16 \<longleftrightarrow> take 4 (byte_bits x) = take 4 (byte_bits 16)"
  "x AND 0xf0 = 0 \<longleftrightarrow> take 4 (byte_bits x) = take 4 (byte_bits 0)"
  "x AND 0xf0 = 0xe0 \<longleftrightarrow> take 4 (byte_bits x) = take 4 (byte_bits 0xe0)"
  "x AND 0xfe = 18 \<longleftrightarrow> take 7 (byte_bits x) = take 7 (byte_bits 18)"
  "x AND 0xfe = 0xfc \<longleftrightarrow> take 7 (byte_bits x) = take 7 (byte_bits 0xfc)"
  by (auto simp: byte_eq_iff byte_bits_def bit_simps)

lemma high_bits: "(240 :: byte) \<le> x \<longleftrightarrow> take 4 (byte_bits x) = take 4 (byte_bits 240)"
proof -
  have "unat x < 256" using unsigned_less [of x] by simp
  then have "240 \<le> unat x \<longleftrightarrow> unat x div 16 = 15" by auto
  also have "\<dots> \<longleftrightarrow> unat (drop_bit 4 x) = unat (15 :: byte)"
    by (simp add: drop_bit_eq_div unat_div)
  finally have "240 \<le> x \<longleftrightarrow> drop_bit 4 x = 15"
    by (simp add: word_le_nat_alt word_unat_eq_iff [of "drop_bit 4 x" 15])
  also have "\<dots> \<longleftrightarrow> take 4 (byte_bits x) = take 4 (byte_bits 240)"
    by (subst byte_eq_iff) (auto simp: byte_bits_def bit_simps dest: bit_imp_le_length)
  finally show ?thesis .
qed

lemma in_block_0: "in_block a (b, 0)"
  by (simp add: in_block_def)

lemma length_byte_bits [simp]: "length (byte_bits x) = 8"
  by (simp add: byte_bits_def)

lemma in_block_whole:
  "8 \<le> n \<Longrightarrow> in_block (x # xs) (y # ys, n) \<longleftrightarrow> x = y \<and> in_block xs (ys, n - 8)"
  by (simp add: in_block_def ip_bits_def byte_bits_inj)

lemma in_block_part:
  "n < 8 \<Longrightarrow> in_block (x # xs) (y # ys, n) \<longleftrightarrow> take n (byte_bits x) = take n (byte_bits y)"
  by (simp add: in_block_def ip_bits_def)

lemmas in_block_simps = in_block_0 in_block_whole in_block_part

lemma length4: "length a = 4 \<longleftrightarrow> (\<exists>a0 a1 a2 a3. a = [a0, a1, a2, a3])"
  by (auto simp: numeral_eq_Suc length_Suc_conv)

lemma length16: "length a = 16 \<longleftrightarrow> (\<exists>a0 a1 a2 a3 a4 a5 a6 a7 a8 a9 b0 b1 b2 b3 b4 b5.
    a = [a0, a1, a2, a3, a4, a5, a6, a7, a8, a9, b0, b1, b2, b3, b4, b5])"
  by (auto simp: numeral_eq_Suc length_Suc_conv)

definition blocked4 :: "ip \<Rightarrow> bool" where
  "blocked4 v =
     (v ! 0 = 127 \<or> v ! 0 = 10 \<or> v ! 0 = 172 \<and> v ! 1 AND 0xf0 = 16 \<or> v ! 0 = 192 \<and> v ! 1 = 168
      \<or> v ! 0 = 169 \<and> v ! 1 = 254 \<or> v ! 0 AND 0xf0 = 0xe0 \<or> reserved4 v)"

lemma blocked4_blocks:
  assumes "length v = 4"
  shows "blocked4 v \<longleftrightarrow> list_ex (in_block v) blocks4"
  using assms unfolding length4
  by (elim exE)
     (simp add: blocked4_def reserved4_def blocks4_def in_block_simps mask_bits high_bits conj_disj_distribL disj_ac)

definition blocked6 :: "ip \<Rightarrow> bool" where
  "blocked6 a = (a ! 0 AND 0xfe = 0xfc \<or> a ! 0 = 0xfe \<and> a ! 1 AND 0xc0 = 0x80 \<or> a ! 0 = 0xff \<or> reserved6 a)"

lemma blocked6_blocks:
  assumes "length a = 16"
  shows "blocked6 a \<longleftrightarrow> list_ex (in_block a) blocks6"
  using assms unfolding length16
  by (elim exE)
     (simp add: blocked6_def reserved6_def blocks6_def in_block_simps mask_bits allZero_def
       disj_ac)

lemma mapped_not_local: "To4 a = Some v \<Longrightarrow> \<not> IsInterfaceLocalMulticast a"
proof (cases "length a = 4")
  case False
  assume "To4 a = Some v"
  then have "take 12 a = replicate 10 0 @ [0xff, 0xff]" using False by (simp add: To4_def split: if_splits)
  then have "take 12 a ! 0 = 0" by (simp add: nth_append)
  then show ?thesis by (simp add: IsInterfaceLocalMulticast_def)
qed (simp add: IsInterfaceLocalMulticast_def)

lemma publicIP_cases:
  "publicIP (Some a) \<longleftrightarrow>
     \<not> (IsLoopback a \<or> IsPrivate a \<or> IsLinkLocalUnicast a \<or> IsLinkLocalMulticast a
        \<or> IsInterfaceLocalMulticast a \<or> IsMulticast a \<or> IsUnspecified a
        \<or> (case To4 a of Some v \<Rightarrow> reserved4 v | None \<Rightarrow> reserved6 a))"
  by (simp add: publicIP_def split: option.split)

lemma blocked4_cases:
  assumes v: "To4 a = Some v"
  shows "publicIP (Some a) \<longleftrightarrow> \<not> blocked4 v"
proof -
  note net = IsLoopback_def IsPrivate_def IsLinkLocalUnicast_def IsLinkLocalMulticast_def
    IsMulticast_def IsUnspecified_def
  have "\<not> IsInterfaceLocalMulticast a" using v by (rule mapped_not_local)
  moreover have "IsLinkLocalMulticast a \<Longrightarrow> IsMulticast a" using v by (simp add: net)
  moreover have "IsUnspecified a \<Longrightarrow> reserved4 v" using v by (simp add: net reserved4_def)
  moreover have "blocked4 v \<longleftrightarrow>
      IsLoopback a \<or> IsPrivate a \<or> IsLinkLocalUnicast a \<or> IsMulticast a \<or> reserved4 v"
    using v by (simp add: net blocked4_def)
  ultimately show ?thesis unfolding publicIP_cases v option.case by blast
qed

lemma blocked6_cases:
  assumes "To4 a = None" and "length a = 16"
  shows "publicIP (Some a) \<longleftrightarrow> \<not> blocked6 a"
proof -
  note net = IsLoopback_def IsPrivate_def IsLinkLocalUnicast_def IsLinkLocalMulticast_def
    IsInterfaceLocalMulticast_def IsMulticast_def IsUnspecified_def
  have "allZero (take 12 v6_loopback)" "allZero (take 12 v6_unspecified)"
    by (simp_all add: v6_loopback_def v6_unspecified_def allZero_def list_all_iff)
  then have "IsLoopback a \<or> IsUnspecified a \<Longrightarrow> allZero (take 12 a)"
    unfolding IsLoopback_def IsUnspecified_def assms(1) option.case by blast
  then have "IsLoopback a \<or> IsUnspecified a \<Longrightarrow> reserved6 a"
    unfolding reserved6_def by (rule disjI1)
  moreover have "IsLinkLocalMulticast a \<or> IsInterfaceLocalMulticast a \<Longrightarrow> IsMulticast a"
    unfolding IsLinkLocalMulticast_def IsInterfaceLocalMulticast_def IsMulticast_def assms(1)
      option.case by blast
  moreover have "blocked6 a \<longleftrightarrow> IsPrivate a \<or> IsLinkLocalUnicast a \<or> IsMulticast a \<or> reserved6 a"
    unfolding net assms option.case blocked6_def by (simp only: simp_thms)
  ultimately show ?thesis unfolding publicIP_cases assms(1) option.case by blast
qed

text \<open>C11. \<open>publicIP\<close> is exact. For every address of four or sixteen bytes it answers true just when
  the address, read as v4 where it is v4 or v4 mapped into v6, lies in none of the blocks of the
  reference list: this host, private, shared, loopback, link-local, protocol, documentation,
  benchmarking, multicast and reserved ranges, and the v6 ranges that carry a v4 address.\<close>

theorem publicIP_blocks:
  assumes "length a = 4 \<or> length a = 16"
  shows "publicIP (Some a) \<longleftrightarrow>
    (case To4 a of Some v \<Rightarrow> \<not> list_ex (in_block v) blocks4 | None \<Rightarrow> \<not> list_ex (in_block a) blocks6)"
proof (cases "To4 a")
  case None
  then have "length a = 16" using assms by (auto simp: To4_def)
  then show ?thesis using None by (simp add: blocked6_cases blocked6_blocks)
next
  case (Some v)
  then have "length v = 4" by (auto simp: To4_def split: if_splits)
  then show ?thesis using Some by (simp add: blocked4_cases blocked4_blocks)
qed

theorem publicIP_blocks_witness:
  "\<not> publicIP (Some [172, 31, 0, 1]) \<and> publicIP (Some [172, 32, 0, 1])"
  using publicIP_blocks [of "[172, 31, 0, 1]"] publicIP_blocks [of "[172, 32, 0, 1]"]
  by (simp add: To4_def blocks4_def in_block_simps byte_bits_def)

section \<open>The box's own addresses\<close>

text \<open>\<open>IP.String()\<close> writes a v4 address mapped into v6 as the v4 address, and no two others alike.\<close>

definition ip_key :: "ip \<Rightarrow> ip" where
  "ip_key a = (case To4 a of Some v \<Rightarrow> v | None \<Rightarrow> a)"

type_synonym self_ips = "ip set"

text \<open>\<open>noteSelfIPs\<close>: the interfaces' addresses and the parsed entries of \<open>RELAY_KNOCK_SELF\<close>.\<close>

definition noteSelfIPs :: "ip list option \<Rightarrow> ip option list \<Rightarrow> self_ips \<Rightarrow> self_ips" where
  "noteSelfIPs addrs named self =
     (let self = self \<union> (case addrs of Some as \<Rightarrow> ip_key ` set as | None \<Rightarrow> {})
      in foldl (\<lambda>s i. case i of Some a \<Rightarrow> insert (ip_key a) s | None \<Rightarrow> s) self named)"

definition selfIP :: "self_ips \<Rightarrow> ip \<Rightarrow> bool" where
  "selfIP self a \<longleftrightarrow> ip_key a \<in> self"

section \<open>Resolving and dialing\<close>

datatype net_error = NotFound | Failing | NotPublic | BadAddress

text \<open>The dialer's control hook, given the address it is about to connect to: \<open>host\<close> is what
  \<open>net.SplitHostPort\<close> and \<open>net.ParseIP\<close> make of it.\<close>

definition publicOnly :: "self_ips \<Rightarrow> ip option option \<Rightarrow> net_error option" where
  "publicOnly self host = (case host of
     None \<Rightarrow> Some BadAddress
   | Some i \<Rightarrow> (case i of
       None \<Rightarrow> Some NotPublic
     | Some a \<Rightarrow> if \<not> publicIP i \<or> selfIP self a then Some NotPublic else None))"

text \<open>\<open>knockResolverOn\<close> with \<open>v4\<close> for the network \<open>tcp4\<close>: \<open>literal\<close> is \<open>net.ParseIP(host)\<close> and \<open>look\<close> the
  resolver's answer for the family asked for.\<close>

definition knockResolverOn ::
  "self_ips \<Rightarrow> bool \<Rightarrow> ip option \<Rightarrow> (bool \<Rightarrow> net_error + ip list) \<Rightarrow> net_error + ip list" where
  "knockResolverOn self v4 literal look =
     (case (case literal of Some a \<Rightarrow> Inr [a] | None \<Rightarrow> look v4) of
        Inl e \<Rightarrow> Inl e
      | Inr all_ips \<Rightarrow>
          (let out = filter (\<lambda>a. \<not> (v4 \<and> To4 a = None) \<and> publicIP (Some a) \<and> \<not> selfIP self a) all_ips
           in if out = [] then Inl NotPublic else Inr out))"

text \<open>Where the client's dial goes for a host that is an onion or not, with the box's tor there or
  not, and with the addresses the queue resolved.\<close>

datatype dial = DialRefused | DialTor | DialAddr ip | DialName

definition knockDial :: "bool \<Rightarrow> bool \<Rightarrow> ip list \<Rightarrow> dial" where
  "knockDial onion_host tor ips =
     (if onion_host then (if tor then DialTor else DialRefused)
      else case ips of a # _ \<Rightarrow> DialAddr a | [] \<Rightarrow> DialName)"

text \<open>A direct dial connects to \<open>a\<close> only if the control hook lets it; a name is resolved by the
  dialer to addresses \<open>named\<close>, each of which passes the hook before it is connected to.\<close>

definition connects :: "self_ips \<Rightarrow> ip list \<Rightarrow> dial \<Rightarrow> ip list" where
  "connects self named d = (case d of
     DialAddr a \<Rightarrow> filter (\<lambda>a. publicOnly self (Some (Some a)) = None) [a]
   | DialName \<Rightarrow> filter (\<lambda>a. publicOnly self (Some (Some a)) = None) named
   | _ \<Rightarrow> [])"

lemma resolver_public:
  "knockResolverOn self v4 literal look = Inr ips \<Longrightarrow>
     ips \<noteq> [] \<and> (\<forall>a \<in> set ips. publicIP (Some a) \<and> \<not> selfIP self a \<and> (v4 \<longrightarrow> To4 a \<noteq> None))"
  by (auto simp: knockResolverOn_def Let_def split: sum.splits option.splits if_splits)



end
