(* ===== verification/Knock_Endpoint.thy ===== *)
theory Knock_Endpoint
  imports Strconv Knock_Addr Bucket
begin

text \<open>
  Which urls the relay takes as an endpoint and which push server each counts under
  (\<open>relay-live/knock.go\<close>: \<open>knockPushHosts\<close>, \<open>knockPorts\<close>, \<open>knockDomainOf\<close>, \<open>numericHost\<close>,
  \<open>endpointOK\<close>, \<open>knockQueryOK\<close>), and the check that a name has a public address, with its bounded
  memory of answers (\<open>nameCheck\<close>, \<open>rememberLocked\<close>, \<open>lookupOn\<close>).
\<close>

section \<open>What the libraries answer\<close>

text \<open>The fields of \<open>url.URL\<close> the sources read; \<open>uUser\<close> says that a user is named.\<close>

record url =
  uScheme :: string
  uUser :: bool
  uOpaque :: string
  uHostname :: string
  uPort :: string
  uRawQuery :: string
  uFragment :: string

text \<open>\<open>url.Parse\<close>, \<open>url.ParseQuery\<close> (each name with its values), \<open>net.ParseIP\<close>, whether the public
  suffix of a name is an icann one, \<open>publicsuffix.EffectiveTLDPlusOne\<close>, and \<open>sha256.Sum256\<close>.\<close>

record netlib =
  urlParse :: "string \<Rightarrow> url option"
  parseQuery :: "string \<Rightarrow> (string \<times> string list) list option"
  parseIP :: "string \<Rightarrow> ip option"
  icann :: "string \<Rightarrow> bool"
  etldPlusOne :: "string \<Rightarrow> string option"
  sha256 :: "string \<Rightarrow> string"

section \<open>Settings\<close>

definition envInt :: "string option \<Rightarrow> int \<Rightarrow> int" where
  "envInt v d = (case v of
     Some s \<Rightarrow> (case ParseInt s of Some n \<Rightarrow> if n > 0 then n else d | None \<Rightarrow> d)
   | None \<Rightarrow> d)"

definition knockPushHosts :: "string option \<Rightarrow> string set" where
  "knockPushHosts v =
     set (filter (\<lambda>h. h \<noteq> []) (map (\<lambda>h. to_lower (TrimSpace h)) (split_at (CHR '','')
       (case v of Some s \<Rightarrow> s
        | None \<Rightarrow> ''ntfy.sh,envs.net,conversations.im,unifiedpush.org,mozilla.com''))))"

definition knockPorts :: "string \<Rightarrow> string set" where
  "knockPorts v =
     insert ''443'' (set (concat (map (\<lambda>p. case ParseInt (TrimSpace p) of
        Some n \<Rightarrow> if n > 0 \<and> n < 65536 then [Itoa n] else []
      | None \<Rightarrow> []) (split_at (CHR '','') v))))"

section \<open>Endpoints\<close>

text \<open>The key of an address: the table lists no address.\<close>

definition knockKey :: "netlib \<Rightarrow> string \<Rightarrow> string" where
  "knockKey L addr = sha256 L (to_lower addr)"

definition knockDomainOf :: "netlib \<Rightarrow> string \<Rightarrow> string" where
  "knockDomainOf L h =
     (let host = to_lower h
      in if host = [] \<or> has_suffix host ''.'' \<or> contains_any host ''[]:%'' then []
         else if parseIP L host \<noteq> None then []
         else if has_suffix host ''.onion'' then host
         else if \<not> icann L host then []
         else case etldPlusOne L host of Some d \<Rightarrow> d | None \<Rightarrow> [])"

text \<open>The loop over the parts of the name.\<close>

fun numeric_parts :: "string list \<Rightarrow> bool" where
  "numeric_parts [] \<longleftrightarrow> True"
| "numeric_parts (part # ps) \<longleftrightarrow>
     (if part = [] then numeric_parts ps
      else if has_prefix (to_lower part) ''0x'' then True
      else if ParseUint (to_lower part) \<noteq> None then numeric_parts ps
      else False)"

definition numericHost :: "string \<Rightarrow> bool" where
  "numericHost h = numeric_parts (split_at (CHR ''.'') h)"

definition knockFCMHost :: string where
  "knockFCMHost = ''fcm.distributor.unifiedpush.org''"

definition lower_letters :: string where "lower_letters = ''abcdefghijklmnopqrstuvwxyz''"
definition upper_letters :: string where "upper_letters = ''ABCDEFGHIJKLMNOPQRSTUVWXYZ''"
definition decimals :: string where "decimals = ''0123456789''"

definition tokenChars :: "string \<Rightarrow> bool" where
  "tokenChars v \<longleftrightarrow> Trim v (lower_letters @ upper_letters @ decimals @ ''-_.:'') = []"

definition queryName :: "string \<Rightarrow> bool" where
  "queryName k \<longleftrightarrow> k \<noteq> [] \<and> length k \<le> 16 \<and> Trim k (lower_letters @ decimals @ ''_'') = []"

text \<open>One value of a query: the switch of \<open>knockQueryOK\<close>.\<close>

definition query_value_ok :: "bool \<Rightarrow> string \<Rightarrow> string \<Rightarrow> bool" where
  "query_value_ok fcm k v =
     (if fcm \<and> queryName k \<and> tokenChars v then True
      else if k = ''up'' then v = ''1''
      else if k = ''v2'' then v = []
      else if k = ''token'' \<or> k = ''instance'' then \<not> (v = [] \<or> \<not> tokenChars v)
      else False)"

definition knockQueryOK :: "netlib \<Rightarrow> string \<Rightarrow> bool \<Rightarrow> bool" where
  "knockQueryOK L raw fcm =
     (if raw = [] then True
      else if length raw > 256 then False
      else case parseQuery L raw of
             None \<Rightarrow> False
           | Some q \<Rightarrow> list_all (\<lambda>(k, vs). list_all (query_value_ok fcm k) vs) q)"

definition maxEndpointLen :: nat where "maxEndpointLen = 512"

definition endpointOK :: "netlib \<Rightarrow> bool \<Rightarrow> string set \<Rightarrow> string \<Rightarrow> bool" where
  "endpointOK L onions ports raw =
     (if length raw > maxEndpointLen \<or> contains_any raw [CHR '' '', CHR 0x09, CHR 0x0D, CHR 0x0A, CHR 0x5C]
      then False
      else case urlParse L raw of
        None \<Rightarrow> False
      | Some u \<Rightarrow>
          if uUser u \<or> uFragment u \<noteq> [] \<or> uOpaque u \<noteq> [] then False
          else let host = to_lower (uHostname u); port = uPort u
            in if host = [] \<or> has_suffix host ''.'' then False
               else if has_suffix host ''.onion'' then
                 (if \<not> onions \<or> (uScheme u \<noteq> ''https'' \<and> uScheme u \<noteq> ''http'') then False
                  else port = [] \<or> port = ''80'' \<or> port = ''443'')
               else if uScheme u \<noteq> ''https'' \<or> host = ''localhost'' \<or> has_suffix host ''.localhost'' then False
               else if port \<noteq> [] \<and> port \<notin> ports then False
               else if parseIP L host \<noteq> None \<or> numericHost host then False
               else if \<not> knockQueryOK L (uRawQuery u) (host = knockFCMHost) then False
               else knockDomainOf L host \<noteq> [])"

text \<open>The server of an endpoint, as \<open>checkLocked\<close>, \<open>take\<close> and \<open>setLocked\<close> find it.\<close>

definition host_of :: "netlib \<Rightarrow> string \<Rightarrow> string" where
  "host_of L raw = (case urlParse L raw of Some u \<Rightarrow> to_lower (uHostname u) | None \<Rightarrow> [])"

definition domain_of :: "netlib \<Rightarrow> string \<Rightarrow> string" where
  "domain_of L raw = (case urlParse L raw of Some u \<Rightarrow> knockDomainOf L (uHostname u) | None \<Rightarrow> [])"

lemma knockDomainOf_lower: "knockDomainOf L (to_lower h) = knockDomainOf L h"
  by (simp add: knockDomainOf_def)

lemma domain_of_host: "urlParse L raw = Some u \<Longrightarrow> domain_of L raw = knockDomainOf L (host_of L raw)"
  by (simp add: domain_of_def host_of_def knockDomainOf_lower)

lemma tokenChars_iff:
  "tokenChars v \<longleftrightarrow> set v \<subseteq> set (lower_letters @ upper_letters @ decimals @ ''-_.:'')"
  unfolding tokenChars_def Trim_empty ..

section \<open>Names that resolve\<close>

record knockName =
  nmsg :: string
  nuntil :: nanos

text \<open>What the names' own lock guards: the answers kept and the pace of lookups.\<close>

record knockNames =
  names :: "string \<rightharpoonup> knockName"
  lookups :: bucket

definition knockNamesKept :: nat where "knockNamesKept = 10000"

definition knockNoName :: string where
  "knockNoName = ''invalid: this endpoint's name does not resolve''"
definition knockNoV4 :: string where
  "knockNoV4 = ''invalid: this endpoint's server has no ipv4 address''"
definition nameFailed :: string where
  "nameFailed = ''error: the name could not be looked up, try again''"

datatype family = FamIP | FamIP4 | FamIP6

text \<open>\<open>lookupOn\<close> for a resolver \<open>r\<close> of one host: over ipv4 only A records, and AAAA only to tell the two
  refusals apart.\<close>

definition lookupOn :: "bool \<Rightarrow> (family \<Rightarrow> net_error + ip list) \<Rightarrow> net_error + ip list" where
  "lookupOn v4 r =
     (if \<not> v4 then r FamIP
      else case r FamIP4 of
        Inl NotFound \<Rightarrow> (case r FamIP6 of Inr v6 \<Rightarrow> if v6 \<noteq> [] then Inr v6 else Inl NotFound
                         | Inl _ \<Rightarrow> Inl NotFound)
      | x \<Rightarrow> x)"

text \<open>\<open>nameCheck\<close> up to the lookup: an answer that still holds, or none asked for past the pace
  (\<open>("", false)\<close>); otherwise the lock is let go for the lookup.\<close>

definition name_ask :: "nanos \<Rightarrow> string \<Rightarrow> knockNames \<Rightarrow> (string \<times> bool) option \<times> knockNames" where
  "name_ask now h s =
     (let host = to_lower h
      in case names s host of
           Some n \<Rightarrow>
             if now < nuntil n then (Some (nmsg n, True), s)
             else (let (ok, b) = take1 (lookups s) now
                   in (if ok then None else Some ([], False), s\<lparr>lookups := b\<rparr>))
         | None \<Rightarrow> (let (ok, b) = take1 (lookups s) now
                    in (if ok then None else Some ([], False), s\<lparr>lookups := b\<rparr>)))"

text \<open>The loop over the addresses.\<close>

fun name_scan :: "self_ips \<Rightarrow> bool \<Rightarrow> string \<Rightarrow> ip list \<Rightarrow> string" where
  "name_scan self v4 msg [] = msg"
| "name_scan self v4 msg (a # as) =
     (if \<not> publicIP (Some a) \<or> selfIP self a then name_scan self v4 msg as
      else if v4 \<and> To4 a = None then name_scan self v4 knockNoV4 as
      else [])"

definition name_msg :: "self_ips \<Rightarrow> bool \<Rightarrow> net_error + ip list \<Rightarrow> string option" where
  "name_msg self v4 res = (case res of
     Inl NotFound \<Rightarrow> Some knockNoName
   | Inl _ \<Rightarrow> None
   | Inr ips \<Rightarrow> Some (name_scan self v4 knockNoName ips))"

definition name_hold :: "string \<Rightarrow> nanos" where
  "name_hold msg = (if msg = [] then hour else 10 * minute)"

text \<open>The search for an entry to let go, over the map's keys in the order the iteration gives.\<close>

fun find_victim :: "nanos \<Rightarrow> (string \<rightharpoonup> knockName) \<Rightarrow> string \<Rightarrow> nat \<Rightarrow> string list \<Rightarrow> string" where
  "find_victim now m victim seen [] = victim"
| "find_victim now m victim seen (h # hs) =
     (case m h of
        None \<Rightarrow> find_victim now m victim seen hs
      | Some old \<Rightarrow>
          (let expired = nuntil old < now;
               victim = (if victim = [] \<or> expired then h else victim)
           in if seen + 1 \<ge> 64 \<or> expired then victim
              else find_victim now m victim (seen + 1) hs))"

definition rememberLocked ::
  "nanos \<Rightarrow> string list \<Rightarrow> string \<Rightarrow> knockName \<Rightarrow> knockNames \<Rightarrow> knockNames" where
  "rememberLocked now order host n s =
     (let m = names s;
          m = (if m host = None \<and> card (dom m) \<ge> knockNamesKept
               then m(find_victim now m [] 0 order := None) else m)
      in s\<lparr>names := m(host \<mapsto> n)\<rparr>)"

text \<open>\<open>nameCheck\<close> from the lookup's answer on; \<open>now\<close> is the time of the question.\<close>

definition name_done ::
  "self_ips \<Rightarrow> bool \<Rightarrow> nanos \<Rightarrow> nanos \<Rightarrow> string list \<Rightarrow> string \<Rightarrow> net_error + ip list \<Rightarrow> knockNames
     \<Rightarrow> (string \<times> bool) \<times> knockNames" where
  "name_done self v4 now now2 order h res s =
     (case name_msg self v4 res of
        None \<Rightarrow> ((nameFailed, True), s)
      | Some msg \<Rightarrow>
          ((msg, True), rememberLocked now2 order (to_lower h) \<lparr>nmsg = msg, nuntil = now + name_hold msg\<rparr> s))"

text \<open>The whole check for one caller.\<close>

definition nameCheck ::
  "self_ips \<Rightarrow> bool \<Rightarrow> nanos \<Rightarrow> nanos \<Rightarrow> string list \<Rightarrow> (string \<Rightarrow> net_error + ip list) \<Rightarrow> string \<Rightarrow> knockNames
     \<Rightarrow> (string \<times> bool) \<times> knockNames" where
  "nameCheck self v4 now now2 order look h s =
     (case name_ask now h s of
        (Some ans, s') \<Rightarrow> (ans, s')
      | (None, s') \<Rightarrow> name_done self v4 now now2 order h (look (to_lower h)) s')"

text \<open>The runs of the memory: any number of checks at once, each with its two locked parts anywhere
  between the others'. \<open>asked\<close> is every lookup's host, time of the question and answer.\<close>

type_synonym lookup_log = "(string \<times> nanos \<times> (net_error + ip list)) set"

inductive name_run :: "self_ips \<Rightarrow> bool \<Rightarrow> knockNames \<Rightarrow> lookup_log \<Rightarrow> bool" for self v4 where
  start: "name_run self v4 \<lparr>names = Map.empty, lookups = newBucket now 20 40\<rparr> {}"
| ask: "name_run self v4 s asked \<Longrightarrow> name_run self v4 (snd (name_ask now h s)) asked"
| answer: "\<lbrakk>name_run self v4 s asked; dom (names s) \<subseteq> set order\<rbrakk> \<Longrightarrow>
    name_run self v4 (snd (name_done self v4 now now2 order h res s)) (insert (to_lower h, now, res) asked)"

lemma find_victim_hit:
  "m victim \<noteq> None \<or> victim = [] \<and> (\<exists>h \<in> set order. m h \<noteq> None) \<Longrightarrow>
     m (find_victim now m victim seen order) \<noteq> None"
proof (induction order arbitrary: victim seen)
  case (Cons h order)
  show ?case
  proof (cases "m h")
    case None
    then have "m (find_victim now m victim seen order) \<noteq> None" using Cons by (intro Cons.IH) auto
    then show ?thesis using None by simp
  next
    case (Some old)
    let ?v = "if victim = [] \<or> nuntil old < now then h else victim"
    have "m ?v \<noteq> None" using Cons.prems Some by auto
    moreover from this have "m (find_victim now m ?v (seen + 1) order) \<noteq> None" by (intro Cons.IH disjI1)
    ultimately show ?thesis using Some by (auto simp: Let_def)
  qed
qed simp

lemma name_scan_public:
  "name_scan self v4 msg ips = [] \<Longrightarrow> msg \<noteq> [] \<Longrightarrow>
     \<exists>a \<in> set ips. publicIP (Some a) \<and> \<not> selfIP self a \<and> (v4 \<longrightarrow> To4 a \<noteq> None)"
  by (induction ips arbitrary: msg) (auto simp: knockNoV4_def split: if_splits)


lemma remember_card:
  assumes "finite (dom (names s))" and "card (dom (names s)) \<le> knockNamesKept"
    and "dom (names s) \<subseteq> set order"
  shows "finite (dom (names (rememberLocked now order host n s))) \<and>
         card (dom (names (rememberLocked now order host n s))) \<le> knockNamesKept"
proof (cases "names s host = None \<and> card (dom (names s)) \<ge> knockNamesKept")
  case False
  then show ?thesis using assms
    by (cases "names s host = None") (auto simp: rememberLocked_def card_insert_if insert_absorb)
next
  case True
  let ?v = "find_victim now (names s) [] 0 order"
  have "dom (names s) \<noteq> {}" using True by (auto simp: knockNamesKept_def)
  then obtain h where "h \<in> dom (names s)" by blast
  then have v: "?v \<in> dom (names s)"
    using assms(3) find_victim_hit [of "names s" "[]" order now 0] by blast
  then have "card (dom (names s) - {?v}) < knockNamesKept"
    using assms True by (simp add: card_Diff_singleton knockNamesKept_def)
  moreover have "dom (names (rememberLocked now order host n s)) = insert host (dom (names s) - {?v})"
    using True by (auto simp: rememberLocked_def Let_def)
  ultimately show ?thesis using assms by (simp add: card_insert_if)
qed

definition name_memory :: "self_ips \<Rightarrow> bool \<Rightarrow> knockNames \<Rightarrow> lookup_log \<Rightarrow> bool" where
  "name_memory self v4 s asked \<longleftrightarrow>
     finite (dom (names s)) \<and> card (dom (names s)) \<le> knockNamesKept \<and>
     (\<forall>h n. names s h = Some n \<longrightarrow> (\<exists>t res. (h, t, res) \<in> asked \<and>
        name_msg self v4 res = Some (nmsg n) \<and> nuntil n = t + name_hold (nmsg n)))"

lemma name_ask_names: "names (snd (name_ask now h s)) = names s"
  by (auto simp: name_ask_def Let_def split: option.splits prod.splits)

lemma remember_names:
  "names (rememberLocked now order host n s) k = Some n' \<Longrightarrow> k = host \<and> n' = n \<or> names s k = Some n'"
  by (auto simp: rememberLocked_def Let_def split: if_splits)

lemma name_run_memory: "name_run self v4 s asked \<Longrightarrow> name_memory self v4 s asked"
proof (induction rule: name_run.induct)
  case (start now)
  show ?case by (simp add: name_memory_def)
next
  case (ask s asked now h)
  then show ?case by (simp add: name_memory_def name_ask_names)
next
  case (answer s asked order now now2 h res)
  show ?case
  proof (cases "name_msg self v4 res")
    case None
    then show ?thesis using answer.IH by (simp add: name_memory_def name_done_def) blast
  next
    case (Some msg)
    let ?n = "\<lparr>nmsg = msg, nuntil = now + name_hold msg\<rparr>"
    let ?s = "rememberLocked now2 order (to_lower h) ?n s"
    have s: "snd (name_done self v4 now now2 order h res s) = ?s"
      using Some by (simp add: name_done_def)
    have "\<exists>t r. (k, t, r) \<in> insert (to_lower h, now, res) asked \<and>
        name_msg self v4 r = Some (nmsg n) \<and> nuntil n = t + name_hold (nmsg n)"
      if "names ?s k = Some n" for k n
      using remember_names [OF that] Some answer.IH by (force simp: name_memory_def)
    then show ?thesis using remember_card [of s order now2 "to_lower h" ?n] answer
      unfolding s by (simp add: name_memory_def)
  qed
qed

text \<open>C12. The memory of names is sound and bounded, however the checks of many callers interleave. It
  never holds more than \<open>knockNamesKept\<close> answers; an answer that lets a name pass without a new
  lookup goes back to a lookup of that very name, less than an hour old, that gave a public ipv4
  address (any public one where posts may go over ipv6) that is not the box's own; and an answer
  given from memory is never that of a resolver that failed.\<close>

theorem name_memory_sound:
  assumes "name_run self v4 s asked"
  shows "card (dom (names s)) \<le> knockNamesKept \<and>
    (\<forall>msg. fst (name_ask now h s) = Some (msg, True) \<longrightarrow>
       (\<exists>t res. (to_lower h, t, res) \<in> asked \<and> now < t + hour \<and> res \<noteq> Inl Failing \<and>
          (msg = [] \<longrightarrow> (\<exists>ips. res = Inr ips \<and>
             (\<exists>a \<in> set ips. publicIP (Some a) \<and> \<not> selfIP self a \<and> (v4 \<longrightarrow> To4 a \<noteq> None))))))"
proof (intro conjI allI impI)
  have mem: "name_memory self v4 s asked" by (rule name_run_memory [OF assms])
  then show "card (dom (names s)) \<le> knockNamesKept" by (simp add: name_memory_def)
  fix msg assume "fst (name_ask now h s) = Some (msg, True)"
  then obtain n where n: "names s (to_lower h) = Some n" "now < nuntil n" "nmsg n = msg"
    by (auto simp: name_ask_def Let_def split: option.splits if_splits prod.splits)
  with mem obtain t res where r: "(to_lower h, t, res) \<in> asked" "name_msg self v4 res = Some msg"
    "nuntil n = t + name_hold msg" by (force simp: name_memory_def)
  have "name_hold msg \<le> hour" by (simp add: name_hold_def duration_defs)
  moreover have "res \<noteq> Inl Failing" using r(2) by (auto simp: name_msg_def)
  moreover have "msg = [] \<Longrightarrow> \<exists>ips. res = Inr ips \<and>
      (\<exists>a \<in> set ips. publicIP (Some a) \<and> \<not> selfIP self a \<and> (v4 \<longrightarrow> To4 a \<noteq> None))"
    using r(2) name_scan_public [of self v4 knockNoName]
    by (auto simp: name_msg_def knockNoName_def split: sum.splits net_error.splits)
  ultimately show "\<exists>t res. (to_lower h, t, res) \<in> asked \<and> now < t + hour \<and> res \<noteq> Inl Failing \<and>
      (msg = [] \<longrightarrow> (\<exists>ips. res = Inr ips \<and>
         (\<exists>a \<in> set ips. publicIP (Some a) \<and> \<not> selfIP self a \<and> (v4 \<longrightarrow> To4 a \<noteq> None))))"
    using r n(2) by (intro exI [of _ t] exI [of _ res]) auto
qed

theorem name_memory_sound_witness:
  "\<exists>s asked. name_run {} True s asked \<and> fst (name_ask 5 ''A.org'' s) = Some ([], True) \<and>
     (\<exists>t res. (''a.org'', t, res) \<in> asked \<and> 5 < t + hour \<and> res \<noteq> Inl Failing)"
proof -
  let ?s0 = "\<lparr>names = Map.empty, lookups = newBucket 0 20 40\<rparr>"
  let ?s1 = "snd (name_done {} True 0 1 [] ''a.org'' (Inr [[9, 9, 9, 9]]) ?s0)"
  have low: "to_lower ''A.org'' = ''a.org''" "to_lower ''a.org'' = ''a.org''"
    by code_simp+
  have run: "name_run {} True ?s1 {(to_lower ''a.org'', 0, Inr [[9, 9, 9, 9]])}"
    by (rule name_run.answer [OF name_run.start [of "{}" True 0], simplified])
  have pub: "publicIP (Some [9, 9, 9, 9])"
    by (simp add: blocked4_cases To4_def blocked4_blocks blocks4_def in_block_simps byte_bits_def)
  then have "fst (name_ask 5 ''A.org'' ?s1) = Some ([], True)"
    by (simp add: name_ask_def name_done_def name_msg_def selfIP_def To4_def rememberLocked_def low
        name_hold_def duration_defs knockNamesKept_def)
  with name_memory_sound [OF run, of 5 "''A.org''"] run low show ?thesis by metis
qed

end
