(* ===== verification/Knock_State.thy ===== *)
theory Knock_State
  imports Knock_Endpoint Nostr
begin

text \<open>
  The state of the relay's knocker (\<open>relay-live/knock.go\<close>, \<open>knock_send.go\<close>): endpoints, push
  servers, shares, registrations, forgets, the queue, the timers and the rows waiting for the table.

  Endpoints and servers are compared by pointer in the code, and an endpoint let go may still be
  named by a timer, a queue or a post in flight while another with the same url is taken. So both
  live in heaps (\<open>eh\<close>, \<open>dh\<close>) and the maps hold their numbers; \<open>en\<close> and \<open>dn\<close> are the next free ones.
  Everything the mutex \<open>k.mu\<close> guards is one record, \<open>knocker\<close>, and each function of the code that
  runs under the lock is a function on it, given the time it reads.
\<close>

type_synonym ep_id = nat
type_synonym dom_id = nat
type_synonym key = string

section \<open>Data\<close>

record knockEP =
  ep_url :: string
  ep_domain :: string
  ep_keys :: "key set"
  ep_last :: nanos
  trailing :: bool
  decoyGen :: int
  runGen :: int
  decoyAt :: nanos
  queuedReal :: bool
  queuedDecoy :: bool
  fails :: int
  failingSince :: nanos
  lastFail :: nanos
  ep_unchecked :: bool
  born :: nanos
  delivered :: bool

definition new_ep :: "string \<Rightarrow> string \<Rightarrow> nanos \<Rightarrow> knockEP" where
  "new_ep u d now = \<lparr>ep_url = u, ep_domain = d, ep_keys = {}, ep_last = time_zero, trailing = False,
     decoyGen = 0, runGen = 0, decoyAt = time_zero, queuedReal = False, queuedDecoy = False, fails = 0,
     failingSince = time_zero, lastFail = time_zero, ep_unchecked = False, born = now, delivered = False\<rparr>"

record knockReg =
  rep :: ep_id
  made :: unix
  expires :: unix
  rfirst :: unix

record knockShare =
  sh_eps :: int
  sh_regs :: int
  epCap :: int
  regCap :: int
  sh_pending :: "ep_id set"
  fresh :: bucket

definition pendingCap :: "knockShare \<Rightarrow> int" where
  "pendingCap sh = epCap sh div 10"

text \<open>\<open>lanes\<close> and \<open>credit\<close> are arrays of \<open>knockTiers\<close> entries, read and written at indices below it.\<close>

record knockDomain =
  dname :: string
  dpush :: bool
  d_eps :: int
  d_regs :: int
  d_pending :: int
  lanes :: "nat \<Rightarrow> ep_id list"
  decoys :: "ep_id list"
  credit :: "nat \<Rightarrow> int"
  inRing :: bool
  drate :: bucket
  inflight :: int
  d_unchecked :: int

text \<open>What waits on a timer: the closures handed to \<open>k.after\<close>.\<close>

datatype timer = DecoyDue ep_id int | DecoyRun ep_id int int | Trail ep_id

record knockOp =
  op_key :: key
  op_ep :: string
  op_made :: unix
  op_expires :: unix
  op_born :: unix
  op_proven :: bool
  op_delivered :: bool

record knockStats =
  st_real :: int
  st_decoys :: int
  st_failed :: int
  st_dropped :: int
  st_gone :: int

record knockQueue =
  qpush :: "dom_id list"
  qshared :: "dom_id list"
  turn :: bool
  sharedQueued :: int
  sharedBusy :: int
  queued :: int
  qrate :: bucket
  ipBusy :: "string \<Rightarrow> int"

record knocker =
  regs :: "key \<rightharpoonup> knockReg"
  forgets :: "key \<rightharpoonup> unix"
  eps :: "string \<rightharpoonup> ep_id"
  domains :: "string \<rightharpoonup> dom_id"
  shares :: "string \<rightharpoonup> knockShare"
  eh :: "ep_id \<Rightarrow> knockEP"
  en :: ep_id
  dh :: "dom_id \<Rightarrow> knockDomain"
  dn :: dom_id
  queue :: knockQueue
  timers :: "(nanos \<times> timer) list"
  store_ch :: "knockOp list"
  store_dropped :: int
  stats :: knockStats

text \<open>What \<open>newKnocker\<close> and the environment fix, and the libraries.\<close>

record knock_cfg =
  lib :: netlib
  onions :: bool
  pushHosts :: "string set"
  ports :: "string set"
  kfloor :: nanos
  pushHostEPs :: int
  pushHostRegs :: int
  sharedEPs :: int
  sharedRegs :: int
  serverEPs :: int
  serverRegs :: int
  pushHostFresh :: int
  sharedFresh :: int
  knockPerSec :: int
  domainPerSec :: int
  pushHostPerSec :: int
  decoyMean :: nanos

section \<open>Constants\<close>

definition knockKind :: int where "knockKind = 21059"
definition wrapKind :: int where "wrapKind = 1059"
definition knockTTL :: nanos where "knockTTL = 30 * 24 * hour"
definition knockSkew :: nanos where "knockSkew = 2 * hour"
definition knockTrail :: nanos where "knockTrail = 30 * second"
definition maxRegsPerEP :: nat where "maxRegsPerEP = 256"
definition knockSweepChunk :: int where "knockSweepChunk = 1000"
definition knockFailFor :: nanos where "knockFailFor = 24 * hour"
definition knockFailAtLeast :: int where "knockFailAtLeast = 5"
definition knockNewFailAtLeast :: int where "knockNewFailAtLeast = 3"
definition knockNewFailFor :: nanos where "knockNewFailFor = hour"
definition knockNewFailSpan :: nanos where "knockNewFailSpan = 30 * minute"
definition knockNewFailGap :: nanos where "knockNewFailGap = 10 * minute"
definition knockUncheckedEPs :: int where "knockUncheckedEPs = 8"
definition knockTrustAfter :: nanos where "knockTrustAfter = 24 * hour"
definition knockTiers :: nat where "knockTiers = 4"

definition knockTierAge :: "nat \<Rightarrow> nanos" where
  "knockTierAge t = [0, knockTrustAfter, 7 * 24 * hour, 30 * 24 * hour] ! t"

definition knockTierWeight :: "nat \<Rightarrow> int" where
  "knockTierWeight t = [1, 2, 3, 4] ! t"

definition tier :: "knockEP \<Rightarrow> nanos \<Rightarrow> nat" where
  "tier ep now =
     (if \<not> delivered ep then 0
      else foldl (\<lambda>t i. if now - born ep \<ge> knockTierAge i then i else t) 0 [1..<knockTiers])"

definition trusted :: "knockEP \<Rightarrow> nanos \<Rightarrow> bool" where
  "trusted ep now \<longleftrightarrow> tier ep now > 0"

lemma tier_less: "tier ep now < knockTiers"
  by (simp add: tier_def knockTiers_def numeral_eq_Suc)

lemma tier_trusted: "trusted ep now \<longleftrightarrow> delivered ep \<and> now - born ep \<ge> knockTrustAfter"
  by (auto simp: trusted_def tier_def knockTiers_def knockTierAge_def numeral_eq_Suc knockTrustAfter_def
      duration_defs)

section \<open>Reaching into the heaps\<close>

definition upd_ep :: "ep_id \<Rightarrow> (knockEP \<Rightarrow> knockEP) \<Rightarrow> knocker \<Rightarrow> knocker" where
  "upd_ep e f k = k\<lparr>eh := (eh k)(e := f (eh k e))\<rparr>"

definition upd_dom :: "dom_id \<Rightarrow> (knockDomain \<Rightarrow> knockDomain) \<Rightarrow> knocker \<Rightarrow> knocker" where
  "upd_dom i f k = k\<lparr>dh := (dh k)(i := f (dh k i))\<rparr>"

definition upd_share :: "string \<Rightarrow> (knockShare \<Rightarrow> knockShare) \<Rightarrow> knocker \<Rightarrow> knocker" where
  "upd_share n f k = (case shares k n of Some sh \<Rightarrow> k\<lparr>shares := (shares k)(n \<mapsto> f sh)\<rparr> | None \<Rightarrow> k)"

definition upd_q :: "(knockQueue \<Rightarrow> knockQueue) \<Rightarrow> knocker \<Rightarrow> knocker" where
  "upd_q f k = k\<lparr>queue := f (queue k)\<rparr>"

text \<open>An endpoint that is still the one its url names: the test \<open>k.eps[ep.url] == ep\<close>.\<close>

definition live :: "knocker \<Rightarrow> ep_id \<Rightarrow> bool" where
  "live k e \<longleftrightarrow> eps k (ep_url (eh k e)) = Some e"

section \<open>Shares and servers\<close>

definition share_name :: "knock_cfg \<Rightarrow> string \<Rightarrow> string" where
  "share_name c domain = (if domain \<in> pushHosts c then domain else [])"

definition new_share :: "knock_cfg \<Rightarrow> nanos \<Rightarrow> string \<Rightarrow> knockShare" where
  "new_share c now name =
     (let (ec, rc, f) = (if name \<noteq> [] then (pushHostEPs c, pushHostRegs c, pushHostFresh c)
                         else (sharedEPs c, sharedRegs c, sharedFresh c))
      in \<lparr>sh_eps = 0, sh_regs = 0, epCap = ec, regCap = rc, sh_pending = {},
          fresh = newBucket now (of_int f / 3600) (of_int f)\<rparr>)"

text \<open>\<open>shareOf\<close> makes the share when it is not there yet; \<open>the_share\<close> is the one it returns.\<close>

definition shareOf :: "knock_cfg \<Rightarrow> nanos \<Rightarrow> string \<Rightarrow> knocker \<Rightarrow> knocker" where
  "shareOf c now domain k =
     (let name = share_name c domain
      in if shares k name = None then k\<lparr>shares := (shares k)(name \<mapsto> new_share c now name)\<rparr> else k)"

definition the_share :: "knock_cfg \<Rightarrow> string \<Rightarrow> knocker \<Rightarrow> knockShare" where
  "the_share c domain k = the (shares k (share_name c domain))"

definition new_domain :: "knock_cfg \<Rightarrow> nanos \<Rightarrow> string \<Rightarrow> knockDomain" where
  "new_domain c now name =
     \<lparr>dname = name, dpush = name \<in> pushHosts c, d_eps = 0, d_regs = 0, d_pending = 0, lanes = (\<lambda>_. []),
      decoys = [], credit = (\<lambda>_. 0), inRing = False,
      drate = (if name \<in> pushHosts c then newBucket now (of_int (pushHostPerSec c)) (of_int (pushHostPerSec c) * 10)
               else newBucket now (of_int (domainPerSec c)) (of_int (domainPerSec c) * 30)),
      inflight = 0, d_unchecked = 0\<rparr>"

definition domainLocked :: "knock_cfg \<Rightarrow> nanos \<Rightarrow> string \<Rightarrow> knocker \<Rightarrow> dom_id \<times> knocker" where
  "domainLocked c now name k = (case domains k name of
     Some i \<Rightarrow> (i, k)
   | None \<Rightarrow> (dn k, k\<lparr>domains := (domains k)(name \<mapsto> dn k), dh := (dh k)(dn k := new_domain c now name),
                     dn := dn k + 1\<rparr>))"

section \<open>The table's channel\<close>

definition store_cap :: nat where "store_cap = 65536"

definition store_put :: "key \<Rightarrow> string \<Rightarrow> unix \<Rightarrow> unix \<Rightarrow> unix \<Rightarrow> bool \<Rightarrow> knocker \<Rightarrow> knocker" where
  "store_put key ep m ex b del k =
     (if length (store_ch k) < store_cap
      then k\<lparr>store_ch := store_ch k @ [\<lparr>op_key = key, op_ep = ep, op_made = m, op_expires = ex, op_born = b,
                            op_proven = False, op_delivered = del\<rparr>]\<rparr>
      else k\<lparr>store_dropped := store_dropped k + 1\<rparr>)"

definition store_proven :: "string \<Rightarrow> knocker \<Rightarrow> knocker" where
  "store_proven ep k =
     (if length (store_ch k) < store_cap
      then k\<lparr>store_ch := store_ch k @ [\<lparr>op_key = [], op_ep = ep, op_made = 0, op_expires = 0, op_born = 0,
                            op_proven = True, op_delivered = False\<rparr>]\<rparr>
      else k\<lparr>store_dropped := store_dropped k + 1\<rparr>)"

definition store_putSweep :: "key \<Rightarrow> knocker \<Rightarrow> knocker" where
  "store_putSweep key k =
     (if length (store_ch k) \<ge> store_cap div 2 then k
      else k\<lparr>store_ch := store_ch k @ [\<lparr>op_key = key, op_ep = [], op_made = 0, op_expires = 0, op_born = 0,
                            op_proven = False, op_delivered = False\<rparr>]\<rparr>)"

end
