(* ===== verification/Knock_Queue.thy ===== *)
theory Knock_Queue
  imports Knock_State
begin

text \<open>
  The queue of knocks (\<open>relay-live/knock_send.go\<close>): knocks wait per push server in lanes by the age
  of the endpoint, the servers with knocks wait in two rings served by turns, and what may go is
  bounded by each server's pace, its posts in flight and the budget of all of them.
\<close>

section \<open>Operations\<close>

definition knockWorkers :: int where "knockWorkers = 32"
definition knockSharedWorkers :: int where "knockSharedWorkers = 16"
definition knockPushHostQueue :: nat where "knockPushHostQueue = 2048"
definition knockSharedQueue :: int where "knockSharedQueue = 1024"
definition knockDomainQueue :: nat where "knockDomainQueue = 64"
definition knockPerServer :: int where "knockPerServer = 2"
definition knockPerPushServer :: int where "knockPerPushServer = 8"
definition knockPerIP :: int where "knockPerIP = 2"
definition knockPerPushHostIP :: int where "knockPerPushHostIP = 8"

definition waiting :: "knockDomain \<Rightarrow> nat" where
  "waiting d = foldl (\<lambda>n t. n + length (lanes d t)) (length (decoys d)) [0..<knockTiers]"

text \<open>One lane of the loop in \<open>nextLane\<close>: the credits, the weights of the lanes with knocks, and the
  best so far.\<close>

definition lane_turn ::
  "knockDomain \<Rightarrow> (nat \<Rightarrow> int) \<times> int \<times> nat option \<Rightarrow> nat \<Rightarrow> (nat \<Rightarrow> int) \<times> int \<times> nat option" where
  "lane_turn d = (\<lambda>(cr, total, best) t.
     if lanes d t = [] then (cr, total, best)
     else let cr = cr(t := cr t + knockTierWeight t)
          in (cr, total + knockTierWeight t,
              case best of None \<Rightarrow> Some t | Some b \<Rightarrow> if cr t > cr b then Some t else Some b))"

definition nextLane :: "knockDomain \<Rightarrow> nat option \<times> knockDomain" where
  "nextLane d =
     (let (cr, total, best) = foldl (lane_turn d) (credit d, 0, None) [0..<knockTiers]
      in (best, d\<lparr>credit := (case best of Some b \<Rightarrow> cr(b := cr b - total) | None \<Rightarrow> cr)\<rparr>))"

definition queueCap :: "knockDomain \<Rightarrow> nat" where
  "queueCap d = (if dpush d then knockPushHostQueue else knockDomainQueue)"

definition busyCap :: "knockDomain \<Rightarrow> int" where
  "busyCap d = (if dpush d then knockPerPushServer else knockPerServer)"

definition ring :: "bool \<Rightarrow> knocker \<Rightarrow> dom_id list" where
  "ring p k = (if p then qpush (queue k) else qshared (queue k))"

definition set_ring :: "bool \<Rightarrow> dom_id list \<Rightarrow> knocker \<Rightarrow> knocker" where
  "set_ring p r k = upd_q (\<lambda>x. if p then x\<lparr>qpush := r\<rparr> else x\<lparr>qshared := r\<rparr>) k"

definition ringAppend :: "dom_id \<Rightarrow> knocker \<Rightarrow> knocker" where
  "ringAppend i k =
     (if inRing (dh k i) then k
      else let k = upd_dom i (\<lambda>d. d\<lparr>inRing := True\<rparr>) k; p = dpush (dh k i)
           in set_ring p (ring p k @ [i]) k)"

definition count_dropped :: "knocker \<Rightarrow> knocker" where
  "count_dropped k = k\<lparr>stats := (stats k)\<lparr>st_dropped := st_dropped (stats k) + 1\<rparr>\<rparr>"

text \<open>A knock put in its lane: the counters, the ring and the signal.\<close>

definition enqueued :: "dom_id \<Rightarrow> knocker \<Rightarrow> knocker" where
  "enqueued i k =
     (let k = upd_q (\<lambda>x. x\<lparr>queued := queued x + 1\<rparr>) k;
          k = (if \<not> dpush (dh k i) then upd_q (\<lambda>x. x\<lparr>sharedQueued := sharedQueued x + 1\<rparr>) k else k)
      in ringAppend i k)"

definition addLocked :: "knock_cfg \<Rightarrow> nanos \<Rightarrow> ep_id \<Rightarrow> bool \<Rightarrow> knocker \<Rightarrow> knocker" where
  "addLocked c now e decoy k =
     (if \<not> live k e then k
      else let (i, k) = domainLocked c now (ep_domain (eh k e)) k;
               d = dh k i; ep = eh k e; t = tier ep now;
               fresh_n = length (lanes d 0) + length (decoys d);
               full = fresh_n \<ge> queueCap d \<or> \<not> dpush d \<and> sharedQueued (queue k) \<ge> knockSharedQueue;
               half = fresh_n \<ge> queueCap d div 2
                        \<or> \<not> dpush d \<and> sharedQueued (queue k) \<ge> knockSharedQueue div 2
           in if decoy then
                (if queuedDecoy ep \<or> queuedReal ep then k
                 else if half then count_dropped k
                 else enqueued i (upd_dom i (\<lambda>d. d\<lparr>decoys := decoys d @ [e]\<rparr>)
                        (upd_ep e (\<lambda>p. p\<lparr>queuedDecoy := True\<rparr>) k)))
              else if queuedReal ep then k
              else if (if t > 0 then length (lanes d t) \<ge> queueCap d else full) then count_dropped k
              else enqueued i (upd_dom i (\<lambda>d. d\<lparr>lanes := (lanes d)(t := lanes d t @ [e])\<rparr>)
                     (upd_ep e (\<lambda>p. p\<lparr>queuedReal := True\<rparr>) k)))"

definition unqueued :: "dom_id \<Rightarrow> knocker \<Rightarrow> knocker" where
  "unqueued i k =
     (let k = upd_q (\<lambda>x. x\<lparr>queued := queued x - 1\<rparr>) k
      in if \<not> dpush (dh k i) then upd_q (\<lambda>x. x\<lparr>sharedQueued := sharedQueued x - 1\<rparr>) k else k)"

text \<open>\<open>without\<close> takes the first occurrence out.\<close>

definition without :: "ep_id list \<Rightarrow> ep_id \<Rightarrow> ep_id list \<times> bool" where
  "without s e = (remove1 e s, e \<in> set s)"

definition forget_lane :: "dom_id \<Rightarrow> ep_id \<Rightarrow> knocker \<Rightarrow> nat \<Rightarrow> knocker" where
  "forget_lane i e k t =
     (let (l, gone) = without (lanes (dh k i) t) e;
          k = upd_dom i (\<lambda>d. d\<lparr>lanes := (lanes d)(t := l)\<rparr>) k
      in if gone then unqueued i k else k)"

definition forgetLocked :: "dom_id \<Rightarrow> ep_id \<Rightarrow> knocker \<Rightarrow> knocker" where
  "forgetLocked i e k =
     (let k = foldl (forget_lane i e) k [0..<knockTiers];
          (l, gone) = without (decoys (dh k i)) e;
          k = upd_dom i (\<lambda>d. d\<lparr>decoys := l\<rparr>) k;
          k = (if gone then unqueued i k else k)
      in upd_ep e (\<lambda>p. p\<lparr>queuedReal := False, queuedDecoy := False\<rparr>) k)"

text \<open>\<open>budgetWait\<close>: the bucket is brought up to now; the wait is in whole nanoseconds.\<close>

definition budgetWait :: "nanos \<Rightarrow> knocker \<Rightarrow> nanos \<times> knocker" where
  "budgetWait now k =
     (let k = upd_q (\<lambda>x. x\<lparr>qrate := snd (takeN (qrate x) now 0)\<rparr>) k; b = qrate (queue k)
      in (if tokens b \<ge> 1 then 0
          else if perSec b \<le> 0 then hour
          else \<lfloor>(1 - tokens b) / perSec b * of_int second\<rfloor>, k))"

text \<open>A knock goes: one token of the server's pace and one of the budget, the counts, and the server
  back in its ring while it has more.\<close>

definition send_off :: "dom_id \<Rightarrow> nanos \<Rightarrow> knocker \<Rightarrow> knocker" where
  "send_off i now k =
     (let k = upd_dom i (\<lambda>d. d\<lparr>drate := snd (take1 (drate d) now)\<rparr>) k;
          k = upd_q (\<lambda>x. x\<lparr>qrate := snd (take1 (qrate x) now)\<rparr>) k;
          k = unqueued i k;
          k = upd_dom i (\<lambda>d. d\<lparr>inflight := inflight d + 1\<rparr>) k;
          k = (if \<not> dpush (dh k i) then upd_q (\<lambda>x. x\<lparr>sharedBusy := sharedBusy x + 1\<rparr>) k else k)
      in if waiting (dh k i) > 0 then ringAppend i k else k)"

text \<open>\<open>fromRing\<close>, the loop counted down by its first argument; \<open>p\<close> says which ring.\<close>

fun fromRing :: "nat \<Rightarrow> bool \<Rightarrow> nanos \<Rightarrow> knocker \<Rightarrow> (ep_id \<times> bool) option \<times> knocker" where
  "fromRing 0 p now k = (None, k)"
| "fromRing (Suc n) p now k =
     (case ring p k of
        [] \<Rightarrow> (None, k)
      | i # r \<Rightarrow>
          let k = upd_dom i (\<lambda>d. d\<lparr>inRing := False\<rparr>) (set_ring p r k)
          in if waiting (dh k i) = 0 then fromRing n p now k
             else if inflight (dh k i) \<ge> busyCap (dh k i)
                     \<or> \<not> dpush (dh k i) \<and> sharedBusy (queue k) \<ge> knockSharedWorkers
               then fromRing n p now (ringAppend i k)
             else let k = upd_dom i (\<lambda>d. d\<lparr>drate := snd (takeN (drate d) now 0)\<rparr>) k
               in if tokens (drate (dh k i)) < 1 then fromRing n p now (ringAppend i k)
                  else case nextLane (dh k i) of
                    (Some t, d) \<Rightarrow>
                      let e = hd (lanes d t);
                          k = upd_dom i (\<lambda>_. d\<lparr>lanes := (lanes d)(t := tl (lanes d t))\<rparr>) k;
                          k = upd_ep e (\<lambda>x. x\<lparr>queuedReal := False\<rparr>) k
                      in (Some (e, False), send_off i now k)
                  | (None, d) \<Rightarrow>
                      let k = upd_dom i (\<lambda>_. d) k
                      in if tokens (qrate (queue k)) \<le> bmax (qrate (queue k)) / 2
                         then fromRing n p now (ringAppend i k)
                         else let e = hd (decoys d);
                                  k = upd_dom i (\<lambda>d. d\<lparr>decoys := tl (decoys d)\<rparr>) k;
                                  k = upd_ep e (\<lambda>x. x\<lparr>queuedDecoy := False\<rparr>) k
                              in (Some (e, True), send_off i now k))"

definition nextLocked :: "nanos \<Rightarrow> knocker \<Rightarrow> (ep_id \<times> bool) option \<times> knocker" where
  "nextLocked now k =
     (let (wait, k) = budgetWait now k
      in if wait > 0 then (None, k)
         else let k = upd_q (\<lambda>x. x\<lparr>turn := \<not> turn x\<rparr>) k;
                  p1 = \<not> turn (queue k)
              in case fromRing (length (ring p1 k)) p1 now k of
                   (Some x, k) \<Rightarrow> (Some x, k)
                 | (None, k) \<Rightarrow> fromRing (length (ring (\<not> p1) k)) (\<not> p1) now k)"

definition doneLocked :: "ep_id \<Rightarrow> knocker \<Rightarrow> knocker" where
  "doneLocked e k = (case domains k (ep_domain (eh k e)) of
     None \<Rightarrow> k
   | Some i \<Rightarrow>
       let k = upd_dom i (\<lambda>d. d\<lparr>inflight := inflight d - 1\<rparr>) k;
           k = (if \<not> dpush (dh k i) then upd_q (\<lambda>x. x\<lparr>sharedBusy := sharedBusy x - 1\<rparr>) k else k);
           d = dh k i
       in if d_eps d \<le> 0 \<and> waiting d = 0 \<and> inflight d = 0
          then k\<lparr>domains := (domains k)(ep_domain (eh k e) := None)\<rparr> else k)"

end
