(* ===== verification/Knock_Queue_Inv.thy ===== *)
theory Knock_Queue_Inv
  imports Knock_Queue
begin

text \<open>
  The invariant of the queue of knocks and what each operation of \<open>Knock_Queue\<close> keeps of it: every
  knock waits once, with its server in the ring of its kind; the counters are the sums they stand
  for; the queues and the posts in flight stay within their bounds. \<open>fl\<close> is the list of the
  endpoints whose posts are in flight.
\<close>

section \<open>Selectors after updates\<close>

lemma upd_dom_sel [simp]:
  "regs (upd_dom i f k) = regs k" "forgets (upd_dom i f k) = forgets k" "eps (upd_dom i f k) = eps k"
  "domains (upd_dom i f k) = domains k" "shares (upd_dom i f k) = shares k" "eh (upd_dom i f k) = eh k"
  "en (upd_dom i f k) = en k" "dn (upd_dom i f k) = dn k" "queue (upd_dom i f k) = queue k"
  "timers (upd_dom i f k) = timers k" "store_ch (upd_dom i f k) = store_ch k"
  "store_dropped (upd_dom i f k) = store_dropped k" "stats (upd_dom i f k) = stats k"
  "dh (upd_dom i f k) j = (if j = i then f (dh k i) else dh k j)"
  by (simp_all add: upd_dom_def)

lemma upd_ep_sel [simp]:
  "regs (upd_ep e f k) = regs k" "forgets (upd_ep e f k) = forgets k" "eps (upd_ep e f k) = eps k"
  "domains (upd_ep e f k) = domains k" "shares (upd_ep e f k) = shares k" "dh (upd_ep e f k) = dh k"
  "en (upd_ep e f k) = en k" "dn (upd_ep e f k) = dn k" "queue (upd_ep e f k) = queue k"
  "timers (upd_ep e f k) = timers k" "store_ch (upd_ep e f k) = store_ch k"
  "store_dropped (upd_ep e f k) = store_dropped k" "stats (upd_ep e f k) = stats k"
  "eh (upd_ep e f k) j = (if j = e then f (eh k e) else eh k j)"
  by (simp_all add: upd_ep_def)

lemma upd_q_sel [simp]:
  "regs (upd_q f k) = regs k" "forgets (upd_q f k) = forgets k" "eps (upd_q f k) = eps k"
  "domains (upd_q f k) = domains k" "shares (upd_q f k) = shares k" "dh (upd_q f k) = dh k"
  "en (upd_q f k) = en k" "dn (upd_q f k) = dn k" "eh (upd_q f k) = eh k"
  "timers (upd_q f k) = timers k" "store_ch (upd_q f k) = store_ch k"
  "store_dropped (upd_q f k) = store_dropped k" "stats (upd_q f k) = stats k"
  "queue (upd_q f k) = f (queue k)"
  by (simp_all add: upd_q_def)

section \<open>The invariant\<close>

text \<open>The real knocks waiting at a server, lane after lane.\<close>

definition reals :: "knockDomain \<Rightarrow> ep_id list" where
  "reals d = lanes d 0 @ lanes d 1 @ lanes d 2 @ lanes d 3"

lemma waiting_eq: "waiting d = length (reals d) + length (decoys d)"
  by (simp add: waiting_def reals_def knockTiers_def numeral_eq_Suc)

lemma set_reals: "e \<in> set (reals d) \<longleftrightarrow> (\<exists>t < knockTiers. e \<in> set (lanes d t))"
  by (auto simp: reals_def knockTiers_def numeral_eq_Suc less_Suc_eq)

definition srv :: "knocker \<Rightarrow> ep_id \<Rightarrow> dom_id \<Rightarrow> bool" where
  "srv k e i \<longleftrightarrow> domains k (ep_domain (eh k e)) = Some i"

text \<open>One server's queue.\<close>

definition dom_ok :: "knocker \<Rightarrow> dom_id \<Rightarrow> bool" where
  "dom_ok k i \<longleftrightarrow> (let d = dh k i in
     distinct (reals d) \<and> distinct (decoys d) \<and>
     (\<forall>e. e \<in> set (reals d) \<longrightarrow> queuedReal (eh k e) \<and> srv k e i) \<and>
     (\<forall>e. e \<in> set (decoys d) \<longrightarrow> queuedDecoy (eh k e) \<and> srv k e i) \<and>
     length (lanes d 0) + length (decoys d) \<le> queueCap d \<and>
     (\<forall>t < knockTiers. 0 < t \<longrightarrow> length (lanes d t) \<le> queueCap d) \<and>
     (0 < waiting d \<longrightarrow> inRing d))"

definition ring_ok :: "knocker \<Rightarrow> bool" where
  "ring_ok k \<longleftrightarrow> (\<forall>p. distinct (ring p k) \<and>
     (\<forall>i. i \<in> set (ring p k) \<longleftrightarrow> i < dn k \<and> inRing (dh k i) \<and> dpush (dh k i) = p))"

text \<open>The counters of the queue.\<close>

definition sums_ok :: "knocker \<Rightarrow> bool" where
  "sums_ok k \<longleftrightarrow>
     queued (queue k) = (\<Sum>i < dn k. int (waiting (dh k i))) \<and>
     sharedQueued (queue k) = (\<Sum>i < dn k. if dpush (dh k i) then 0 else int (waiting (dh k i))) \<and>
     sharedBusy (queue k) = (\<Sum>i < dn k. if dpush (dh k i) then 0 else inflight (dh k i))"

definition flight_ok :: "ep_id list \<Rightarrow> knocker \<Rightarrow> bool" where
  "flight_ok fl k \<longleftrightarrow>
     (\<forall>e \<in> set fl. \<exists>i. srv k e i) \<and>
     (\<forall>i < dn k. inflight (dh k i) = int (length (filter (\<lambda>e. srv k e i) fl)) \<and>
        inflight (dh k i) \<le> busyCap (dh k i)) \<and>
     sharedBusy (queue k) \<le> knockSharedWorkers"

definition heap_ok :: "knock_cfg \<Rightarrow> knocker \<Rightarrow> bool" where
  "heap_ok c k \<longleftrightarrow>
     (\<forall>n i. domains k n = Some i \<longrightarrow> i < dn k \<and> dname (dh k i) = n \<and> dpush (dh k i) = (n \<in> pushHosts c))"

text \<open>Nothing is marked as waiting that does not wait.\<close>

definition marks_ok :: "knocker \<Rightarrow> bool" where
  "marks_ok k \<longleftrightarrow>
     (\<forall>e. queuedReal (eh k e) \<longrightarrow> (\<exists>i. srv k e i \<and> e \<in> set (reals (dh k i)))) \<and>
     (\<forall>e. queuedDecoy (eh k e) \<longrightarrow> (\<exists>i. srv k e i \<and> e \<in> set (decoys (dh k i))))"

definition queue_ok :: "knock_cfg \<Rightarrow> ep_id list \<Rightarrow> knocker \<Rightarrow> bool" where
  "queue_ok c fl k \<longleftrightarrow> heap_ok c k \<and> (\<forall>i < dn k. dom_ok k i) \<and> ring_ok k \<and> sums_ok k \<and>
     flight_ok fl k \<and> marks_ok k"

lemmas queue_defs = queue_ok_def heap_ok_def ring_ok_def sums_ok_def flight_ok_def marks_ok_def

lemma sum_upd:
  fixes f :: "nat \<Rightarrow> int"
  assumes "i < n" and "\<And>j. j < n \<Longrightarrow> j \<noteq> i \<Longrightarrow> g j = f j"
  shows "(\<Sum>j < n. g j) = (\<Sum>j < n. f j) - f i + g i"
proof -
  have "(\<Sum>j < n. g j) = g i + (\<Sum>j \<in> {..<n} - {i}. g j)" using assms(1) by (simp add: sum.remove)
  also have "(\<Sum>j \<in> {..<n} - {i}. g j) = (\<Sum>j \<in> {..<n} - {i}. f j)"
    using assms(2) by (intro sum.cong) auto
  also have "\<dots> = (\<Sum>j < n. f j) - f i" using assms(1) by (simp add: sum_diff1)
  finally show ?thesis by simp
qed

section \<open>One server changes\<close>

lemma srv_cong: "domains k' = domains k \<Longrightarrow> ep_domain (eh k' e) = ep_domain (eh k e) \<Longrightarrow>
    srv k' e i = srv k e i"
  by (simp add: srv_def)

lemma srv_fun: "srv k e i \<Longrightarrow> srv k e j \<Longrightarrow> i = j"
  by (simp add: srv_def)

lemma queue_marks:
  assumes "queue_ok c fl k" and "srv k e i" and "i < dn k"
  shows "queuedReal (eh k e) \<longleftrightarrow> e \<in> set (reals (dh k i))"
    and "queuedDecoy (eh k e) \<longleftrightarrow> e \<in> set (decoys (dh k i))"
proof -
  have srv: "srv k e j \<longleftrightarrow> j = i" for j using assms(2) by (auto simp: srv_def)
  have "dom_ok k i" and "marks_ok k" using assms(1,3) by (simp_all add: queue_ok_def)
  then show "queuedReal (eh k e) \<longleftrightarrow> e \<in> set (reals (dh k i))"
    and "queuedDecoy (eh k e) \<longleftrightarrow> e \<in> set (decoys (dh k i))"
    unfolding marks_ok_def dom_ok_def Let_def using srv by metis+
qed

definition dom_fits :: "knocker \<Rightarrow> dom_id \<Rightarrow> knockDomain \<Rightarrow> bool" where
  "dom_fits k i d \<longleftrightarrow>
     distinct (reals d) \<and> distinct (decoys d) \<and>
     (\<forall>e. e \<in> set (reals d) \<union> set (decoys d) \<longrightarrow> srv k e i) \<and>
     length (lanes d 0) + length (decoys d) \<le> queueCap d \<and>
     (\<forall>t < knockTiers. 0 < t \<longrightarrow> length (lanes d t) \<le> queueCap d) \<and> (0 < waiting d \<longrightarrow> inRing d)"

lemma dom_fits_now: "queue_ok c fl k \<Longrightarrow> i < dn k \<Longrightarrow> dom_fits k i (dh k i)"
  by (auto simp: queue_ok_def dom_ok_def dom_fits_def Let_def)

text \<open>An operation that touches one server's queue, the marks of its endpoints and the counters.\<close>

lemma queue_step:
  assumes ok: "queue_ok c fl k" and i: "i < dn k"
    and same: "domains k' = domains k" "dn k' = dn k" "\<And>e. ep_domain (eh k' e) = ep_domain (eh k e)"
      "\<And>j. j \<noteq> i \<Longrightarrow> dh k' j = dh k j"
      "dname (dh k' i) = dname (dh k i)" "dpush (dh k' i) = dpush (dh k i)"
    and far: "\<And>e. \<not> srv k e i \<Longrightarrow>
      queuedReal (eh k' e) = queuedReal (eh k e) \<and> queuedDecoy (eh k' e) = queuedDecoy (eh k e)"
    and near: "\<And>e. srv k e i \<Longrightarrow> queuedReal (eh k' e) = (e \<in> set (reals (dh k' i))) \<and>
      queuedDecoy (eh k' e) = (e \<in> set (decoys (dh k' i)))"
    and fits: "dom_fits k i (dh k' i)"
    and sums: "queued (queue k') = queued (queue k) + int (waiting (dh k' i)) - int (waiting (dh k i))"
      "sharedQueued (queue k') = sharedQueued (queue k) +
        (if dpush (dh k i) then 0 else int (waiting (dh k' i)) - int (waiting (dh k i)))"
      "sharedBusy (queue k') = sharedBusy (queue k) +
        (if dpush (dh k i) then 0 else inflight (dh k' i) - inflight (dh k i))"
    and ring: "ring_ok k'" and flight: "flight_ok fl' k'"
  shows "queue_ok c fl' k'"
proof -
  have srv: "srv k' e j = srv k e j" for e j using same by (intro srv_cong) auto
  have heap: "heap_ok c k'" unfolding heap_ok_def
  proof (intro allI impI)
    fix n j assume "domains k' n = Some j"
    then have "j < dn k \<and> dname (dh k j) = n \<and> dpush (dh k j) = (n \<in> pushHosts c)"
      using ok same(1) by (simp add: queue_ok_def heap_ok_def)
    then show "j < dn k' \<and> dname (dh k' j) = n \<and> dpush (dh k' j) = (n \<in> pushHosts c)"
      using same by (cases "j = i") auto
  qed
  have other: "dom_ok k' j" if j: "j < dn k" "j \<noteq> i" for j
  proof -
    have "dom_ok k j" using ok j by (simp add: queue_ok_def)
    moreover have "\<not> srv k e i" if "srv k e j" for e using srv_fun [OF that] j(2) by blast
    ultimately show ?thesis using same(4) [OF j(2)] far srv by (simp add: dom_ok_def Let_def)
  qed
  have "dom_ok k' i" using fits near srv by (auto simp: dom_ok_def dom_fits_def Let_def)
  then have doms: "\<forall>j < dn k'. dom_ok k' j" using other same(2) by metis
  have "sums_ok k'"
    unfolding sums_ok_def using ok sums same(2,4,6)
      sum_upd [OF i, of "\<lambda>j. int (waiting (dh k' j))" "\<lambda>j. int (waiting (dh k j))"]
      sum_upd [OF i, of "\<lambda>j. if dpush (dh k' j) then 0 else int (waiting (dh k' j))"
        "\<lambda>j. if dpush (dh k j) then 0 else int (waiting (dh k j))"]
      sum_upd [OF i, of "\<lambda>j. if dpush (dh k' j) then 0 else inflight (dh k' j)"
        "\<lambda>j. if dpush (dh k j) then 0 else inflight (dh k j)"]
    by (simp add: queue_ok_def sums_ok_def)
  moreover have "marks_ok k'" unfolding marks_ok_def
  proof (intro conjI allI impI)
    fix e assume q: "queuedReal (eh k' e)"
    show "\<exists>j. srv k' e j \<and> e \<in> set (reals (dh k' j))"
    proof (cases "srv k e i")
      case False
      then obtain j where "srv k e j" "e \<in> set (reals (dh k j))" "j \<noteq> i"
        using q far [OF False] ok unfolding queue_ok_def marks_ok_def by metis
      then show ?thesis using srv same(4) by auto
    qed (use q near srv in auto)
  next
    fix e assume q: "queuedDecoy (eh k' e)"
    show "\<exists>j. srv k' e j \<and> e \<in> set (decoys (dh k' j))"
    proof (cases "srv k e i")
      case False
      then obtain j where "srv k e j" "e \<in> set (decoys (dh k j))" "j \<noteq> i"
        using q far [OF False] ok unfolding queue_ok_def marks_ok_def by metis
      then show ?thesis using srv same(4) by auto
    qed (use q near srv in auto)
  qed
  ultimately show ?thesis using heap doms ring flight by (simp add: queue_ok_def)
qed

lemma flight_same:
  assumes "flight_ok fl k" and "domains k' = domains k" and "dn k' = dn k"
    and "\<And>e. ep_domain (eh k' e) = ep_domain (eh k e)"
    and "\<And>i. inflight (dh k' i) = inflight (dh k i)" and "\<And>i. dpush (dh k' i) = dpush (dh k i)"
    and "sharedBusy (queue k') = sharedBusy (queue k)"
  shows "flight_ok fl k'"
proof -
  have "busyCap (dh k' i) = busyCap (dh k i)" for i by (simp add: busyCap_def assms(6))
  then have "flight_ok fl k' = flight_ok fl k"
    unfolding flight_ok_def srv_def by (simp add: assms(2-5,7))
  then show ?thesis using assms(1) by simp
qed

section \<open>What the invariant does not read\<close>

definition dview :: "knockDomain \<Rightarrow> string \<times> bool \<times> (nat \<Rightarrow> ep_id list) \<times> ep_id list \<times> bool \<times> int" where
  "dview d = (dname d, dpush d, lanes d, decoys d, inRing d, inflight d)"

definition eview :: "knockEP \<Rightarrow> string \<times> bool \<times> bool" where
  "eview p = (ep_domain p, queuedReal p, queuedDecoy p)"

definition qview :: "knockQueue \<Rightarrow> dom_id list \<times> dom_id list \<times> int \<times> int \<times> int" where
  "qview x = (qpush x, qshared x, queued x, sharedQueued x, sharedBusy x)"

lemma dviewD:
  assumes "dview d' = dview d"
  shows "dname d' = dname d" "dpush d' = dpush d" "lanes d' = lanes d" "decoys d' = decoys d"
    "inRing d' = inRing d" "inflight d' = inflight d" "reals d' = reals d" "waiting d' = waiting d"
    "queueCap d' = queueCap d" "busyCap d' = busyCap d"
  using assms by (simp_all add: dview_def reals_def waiting_def queueCap_def busyCap_def)

lemma queue_cong:
  assumes "domains k' = domains k" and "dn k' = dn k" and "\<And>i. dview (dh k' i) = dview (dh k i)"
    and "\<And>e. eview (eh k' e) = eview (eh k e)" and "qview (queue k') = qview (queue k)"
  shows "queue_ok c fl k' = queue_ok c fl k"
proof -
  have ep: "ep_domain (eh k' e) = ep_domain (eh k e)" "queuedReal (eh k' e) = queuedReal (eh k e)"
    "queuedDecoy (eh k' e) = queuedDecoy (eh k e)" for e using assms(4) [of e] by (simp_all add: eview_def)
  have qu: "ring p k' = ring p k" "queued (queue k') = queued (queue k)"
    "sharedQueued (queue k') = sharedQueued (queue k)" "sharedBusy (queue k') = sharedBusy (queue k)" for p
    using assms(5) by (simp_all add: qview_def ring_def)
  have "srv k' = srv k" by (intro ext) (simp add: srv_def assms(1) ep)
  then show ?thesis
    unfolding queue_ok_def heap_ok_def dom_ok_def ring_ok_def sums_ok_def flight_ok_def marks_ok_def Let_def
    by (simp add: assms(1,2) ep qu dviewD [OF assms(3)] cong: if_cong)
qed

section \<open>The rings\<close>

lemma ringAppend_sel [simp]:
  "regs (ringAppend i k) = regs k" "forgets (ringAppend i k) = forgets k" "eps (ringAppend i k) = eps k"
  "domains (ringAppend i k) = domains k" "shares (ringAppend i k) = shares k" "eh (ringAppend i k) = eh k"
  "en (ringAppend i k) = en k" "dn (ringAppend i k) = dn k"
  "timers (ringAppend i k) = timers k" "store_ch (ringAppend i k) = store_ch k"
  "store_dropped (ringAppend i k) = store_dropped k" "stats (ringAppend i k) = stats k"
  "dh (ringAppend i k) j = (if j = i then (dh k i)\<lparr>inRing := True\<rparr> else dh k j)"
  "queued (queue (ringAppend i k)) = queued (queue k)"
  "sharedQueued (queue (ringAppend i k)) = sharedQueued (queue k)"
  "sharedBusy (queue (ringAppend i k)) = sharedBusy (queue k)"
  "qrate (queue (ringAppend i k)) = qrate (queue k)" "turn (queue (ringAppend i k)) = turn (queue k)"
  "ipBusy (queue (ringAppend i k)) = ipBusy (queue k)"
  by (auto simp: ringAppend_def set_ring_def Let_def)

lemma ring_upd [simp]:
  "ring p (upd_dom i f k) = ring p k" "ring p (upd_ep e g k) = ring p k"
  "ring p (set_ring b r k) = (if p = b then r else ring p k)"
  by (auto simp: ring_def set_ring_def)

lemma ring_ringAppend:
  "ring p (ringAppend i k) = (if \<not> inRing (dh k i) \<and> p = dpush (dh k i) then ring p k @ [i] else ring p k)"
  by (simp add: ringAppend_def Let_def)

lemma ringAppend_ok: "ring_ok k \<Longrightarrow> i < dn k \<Longrightarrow> ring_ok (ringAppend i k)"
  unfolding ring_ok_def ring_ringAppend by (auto simp: if_bool_eq_disj)

lemma ring_same:
  assumes "ring_ok k" and "\<And>p. ring p k' = ring p k" and "dn k' = dn k"
    and "\<And>i. inRing (dh k' i) = inRing (dh k i)" and "\<And>i. dpush (dh k' i) = dpush (dh k i)"
  shows "ring_ok k'"
  using assms by (simp add: ring_ok_def)

section \<open>Putting a knock in\<close>

text \<open>The fields the queue of a server is made of.\<close>

lemma reals_frame [simp]:
  "reals (d\<lparr>inRing := x\<rparr>) = reals d" "reals (d\<lparr>drate := b\<rparr>) = reals d" "reals (d\<lparr>inflight := n\<rparr>) = reals d"
  "reals (d\<lparr>decoys := l\<rparr>) = reals d" "reals (d\<lparr>credit := cr\<rparr>) = reals d"
  "reals (d\<lparr>d_eps := m\<rparr>) = reals d" "reals (d\<lparr>d_regs := m\<rparr>) = reals d"
  "reals (d\<lparr>d_pending := m\<rparr>) = reals d" "reals (d\<lparr>d_unchecked := m\<rparr>) = reals d"
  by (simp_all add: reals_def)

lemma waiting_frame [simp]:
  "waiting (d\<lparr>inRing := x\<rparr>) = waiting d" "waiting (d\<lparr>drate := b\<rparr>) = waiting d"
  "waiting (d\<lparr>inflight := n\<rparr>) = waiting d" "waiting (d\<lparr>credit := cr\<rparr>) = waiting d"
  "waiting (d\<lparr>d_eps := m\<rparr>) = waiting d" "waiting (d\<lparr>d_regs := m\<rparr>) = waiting d"
  "waiting (d\<lparr>d_pending := m\<rparr>) = waiting d" "waiting (d\<lparr>d_unchecked := m\<rparr>) = waiting d"
  by (simp_all add: waiting_eq)

lemma queueCap_cong: "dpush d' = dpush d \<Longrightarrow> queueCap d' = queueCap d"
  by (simp add: queueCap_def)

lemma enqueued_sel [simp]:
  "domains (enqueued i k) = domains k" "dn (enqueued i k) = dn k" "eh (enqueued i k) = eh k"
  "dh (enqueued i k) j = (if j = i then (dh k i)\<lparr>inRing := True\<rparr> else dh k j)"
  "queued (queue (enqueued i k)) = queued (queue k) + 1"
  "sharedQueued (queue (enqueued i k)) = sharedQueued (queue k) + (if dpush (dh k i) then 0 else 1)"
  "sharedBusy (queue (enqueued i k)) = sharedBusy (queue k)"
  "regs (enqueued i k) = regs k" "forgets (enqueued i k) = forgets k" "eps (enqueued i k) = eps k"
  "shares (enqueued i k) = shares k" "en (enqueued i k) = en k" "timers (enqueued i k) = timers k"
  "store_ch (enqueued i k) = store_ch k"
  by (simp_all add: enqueued_def Let_def)

lemma ring_upd_q [simp]:
  "ring p (upd_q (\<lambda>x. x\<lparr>queued := f x\<rparr>) k) = ring p k"
  "ring p (upd_q (\<lambda>x. x\<lparr>sharedQueued := f x\<rparr>) k) = ring p k"
  "ring p (upd_q (\<lambda>x. x\<lparr>sharedBusy := f x\<rparr>) k) = ring p k"
  "ring p (upd_q (\<lambda>x. x\<lparr>qrate := g x\<rparr>) k) = ring p k"
  "ring p (upd_q (\<lambda>x. x\<lparr>turn := h x\<rparr>) k) = ring p k"
  by (simp_all add: ring_def)

lemma enqueued_ring_ok:
  assumes "ring_ok k" and "i < dn k"
  shows "ring_ok (enqueued i k)"
proof -
  have "ring_ok (upd_q (\<lambda>x. x\<lparr>queued := queued x + 1\<rparr>) k)"
    by (rule ring_same [OF assms(1)]) simp_all
  moreover from this have "ring_ok (upd_q (\<lambda>x. x\<lparr>sharedQueued := sharedQueued x + 1\<rparr>)
      (upd_q (\<lambda>x. x\<lparr>queued := queued x + 1\<rparr>) k))"
    by (rule ring_same) simp_all
  ultimately show ?thesis using assms(2) by (auto simp: enqueued_def Let_def intro!: ringAppend_ok)
qed

lemma enqueue_ok:
  assumes ok: "queue_ok c fl k" and s: "srv k e i" and i: "i < dn k"
    and d: "dname d' = dname (dh k i)" "dpush d' = dpush (dh k i)" "inflight d' = inflight (dh k i)"
      "inRing d' = inRing (dh k i)" "waiting d' = waiting (dh k i) + 1"
    and fits: "dom_fits k i (d'\<lparr>inRing := True\<rparr>)"
    and g: "\<And>p. ep_domain (g p) = ep_domain p" "queuedReal (g (eh k e)) = (e \<in> set (reals d'))"
      "queuedDecoy (g (eh k e)) = (e \<in> set (decoys d'))"
    and rest: "\<And>x. x \<noteq> e \<Longrightarrow> x \<in> set (reals d') \<longleftrightarrow> x \<in> set (reals (dh k i))"
      "\<And>x. x \<noteq> e \<Longrightarrow> x \<in> set (decoys d') \<longleftrightarrow> x \<in> set (decoys (dh k i))"
  shows "queue_ok c fl (enqueued i (upd_dom i (\<lambda>_. d') (upd_ep e g k)))"
proof (rule queue_step [OF ok i])
  let ?k = "upd_dom i (\<lambda>_. d') (upd_ep e g k)"
  show "ring_ok (enqueued i ?k)"
  proof (rule enqueued_ring_ok)
    have "ring_ok k" using ok by (simp add: queue_ok_def)
    then show "ring_ok ?k" by (rule ring_same) (simp_all add: d)
  qed (use i in simp)
  have "flight_ok fl k" using ok by (simp add: queue_ok_def)
  then show "flight_ok fl (enqueued i ?k)" by (rule flight_same) (simp_all add: d g(1))
  show "queuedReal (eh (enqueued i ?k) x) = queuedReal (eh k x) \<and>
      queuedDecoy (eh (enqueued i ?k) x) = queuedDecoy (eh k x)" if "\<not> srv k x i" for x
    using that s by auto
  show "queuedReal (eh (enqueued i ?k) x) = (x \<in> set (reals (dh (enqueued i ?k) i))) \<and>
      queuedDecoy (eh (enqueued i ?k) x) = (x \<in> set (decoys (dh (enqueued i ?k) i)))"
    if "srv k x i" for x
    using that g rest queue_marks [OF ok that i] by (cases "x = e") auto
qed (use d fits g in auto)

lemma tiers_cases: "t < knockTiers \<Longrightarrow> t = 0 \<or> t = 1 \<or> t = 2 \<or> t = 3"
  by (auto simp: knockTiers_def)

lemma reals_snoc:
  assumes "t < knockTiers"
  shows "set (reals (d\<lparr>lanes := (lanes d)(t := lanes d t @ [e])\<rparr>)) = insert e (set (reals d))"
    and "length (reals (d\<lparr>lanes := (lanes d)(t := lanes d t @ [e])\<rparr>)) = Suc (length (reals d))"
    and "distinct (reals (d\<lparr>lanes := (lanes d)(t := lanes d t @ [e])\<rparr>)) \<longleftrightarrow>
      distinct (reals d) \<and> e \<notin> set (reals d)"
  using tiers_cases [OF assms] by (auto simp: reals_def)

lemma addLocked_ok:
  assumes ok: "queue_ok c fl k" and s: "live k e \<Longrightarrow> \<exists>i. srv k e i"
  shows "queue_ok c fl (addLocked c now e decoy k)"
proof (cases "live k e")
  case False
  then show ?thesis using ok by (simp add: addLocked_def)
next
  case True
  then obtain i where i: "srv k e i" using s by blast
  then have "domains k (ep_domain (eh k e)) = Some i" by (simp add: srv_def)
  then have dl: "domainLocked c now (ep_domain (eh k e)) k = (i, k)" and lt: "i < dn k"
    using ok by (simp_all add: domainLocked_def queue_ok_def heap_ok_def)
  let ?d = "dh k i" and ?t = "tier (eh k e) now"
  have t: "?t < knockTiers" by (rule tier_less)
  note now = dom_fits_now [OF ok lt] and marks = queue_marks [OF ok i lt]
  have dropped: "queue_ok c fl (count_dropped k)"
    using ok by (subst queue_cong [of _ k]) (simp_all add: count_dropped_def)
  have dec: "queue_ok c fl (enqueued i (upd_dom i (\<lambda>d. d\<lparr>decoys := decoys d @ [e]\<rparr>)
      (upd_ep e (\<lambda>p. p\<lparr>queuedDecoy := True\<rparr>) k)))"
    if room: "length (lanes ?d 0) + length (decoys ?d) < queueCap ?d div 2"
      and new: "\<not> queuedDecoy (eh k e)" "\<not> queuedReal (eh k e)"
  proof -
    have "dom_fits k i (?d\<lparr>decoys := decoys ?d @ [e], inRing := True\<rparr>)"
      using now room new marks i by (auto simp: dom_fits_def queueCap_def)
    then have "queue_ok c fl (enqueued i (upd_dom i (\<lambda>_. ?d\<lparr>decoys := decoys ?d @ [e]\<rparr>)
        (upd_ep e (\<lambda>p. p\<lparr>queuedDecoy := True\<rparr>) k)))"
      using new marks by (intro enqueue_ok [OF ok i lt]) (auto simp: waiting_eq)
    then show ?thesis by (simp add: upd_dom_def)
  qed
  have real: "queue_ok c fl (enqueued i (upd_dom i (\<lambda>d. d\<lparr>lanes := (lanes d)(?t := lanes d ?t @ [e])\<rparr>)
      (upd_ep e (\<lambda>p. p\<lparr>queuedReal := True\<rparr>) k)))"
    if room: "if ?t > 0 then length (lanes ?d ?t) < queueCap ?d
              else length (lanes ?d 0) + length (decoys ?d) < queueCap ?d"
      and new: "\<not> queuedReal (eh k e)"
  proof -
    let ?d' = "?d\<lparr>lanes := (lanes ?d)(?t := lanes ?d ?t @ [e])\<rparr>"
    have "dom_fits k i (?d'\<lparr>inRing := True\<rparr>)"
      using now room new marks i reals_snoc [OF t, of ?d e]
      by (auto simp: dom_fits_def queueCap_def split: if_splits)
    then have "queue_ok c fl (enqueued i (upd_dom i (\<lambda>_. ?d') (upd_ep e (\<lambda>p. p\<lparr>queuedReal := True\<rparr>) k)))"
      using new marks reals_snoc [OF t, of ?d e] by (intro enqueue_ok [OF ok i lt]) (auto simp: waiting_eq)
    then show ?thesis by (simp add: upd_dom_def)
  qed
  show ?thesis using True dec real dropped ok
    by (auto simp: addLocked_def dl Let_def not_le)
qed

section \<open>Taking an endpoint out\<close>

lemma unqueued_sel [simp]:
  "domains (unqueued i k) = domains k" "dn (unqueued i k) = dn k" "eh (unqueued i k) = eh k"
  "dh (unqueued i k) = dh k" "regs (unqueued i k) = regs k" "forgets (unqueued i k) = forgets k"
  "eps (unqueued i k) = eps k" "shares (unqueued i k) = shares k" "en (unqueued i k) = en k"
  "timers (unqueued i k) = timers k" "store_ch (unqueued i k) = store_ch k" "ring p (unqueued i k) = ring p k"
  "queued (queue (unqueued i k)) = queued (queue k) - 1"
  "sharedQueued (queue (unqueued i k)) = sharedQueued (queue k) - (if dpush (dh k i) then 0 else 1)"
  "sharedBusy (queue (unqueued i k)) = sharedBusy (queue k)"
  "qrate (queue (unqueued i k)) = qrate (queue k)"
  by (simp_all add: unqueued_def Let_def)

lemma tiers_list: "[0..<knockTiers] = [0, 1, 2, 3]"
  by (simp add: knockTiers_def numeral_eq_Suc)

lemma forget_lane_sel [simp]:
  "domains (forget_lane i e k t) = domains k" "dn (forget_lane i e k t) = dn k"
  "regs (forget_lane i e k t) = regs k" "forgets (forget_lane i e k t) = forgets k"
  "eps (forget_lane i e k t) = eps k" "shares (forget_lane i e k t) = shares k"
  "en (forget_lane i e k t) = en k" "timers (forget_lane i e k t) = timers k"
  "store_ch (forget_lane i e k t) = store_ch k" "ring p (forget_lane i e k t) = ring p k"
  "eh (forget_lane i e k t) = eh k" "sharedBusy (queue (forget_lane i e k t)) = sharedBusy (queue k)"
  "qrate (queue (forget_lane i e k t)) = qrate (queue k)"
  "dh (forget_lane i e k t) j =
     (if j = i then (dh k i)\<lparr>lanes := (lanes (dh k i))(t := remove1 e (lanes (dh k i) t))\<rparr> else dh k j)"
  "queued (queue (forget_lane i e k t)) = queued (queue k) - of_bool (e \<in> set (lanes (dh k i) t))"
  "sharedQueued (queue (forget_lane i e k t)) = sharedQueued (queue k) -
     (if dpush (dh k i) then 0 else of_bool (e \<in> set (lanes (dh k i) t)))"
  by (simp_all add: forget_lane_def without_def Let_def)

lemma forgetLocked_sel:
  "domains (forgetLocked i e k) = domains k" "dn (forgetLocked i e k) = dn k"
  "regs (forgetLocked i e k) = regs k" "forgets (forgetLocked i e k) = forgets k"
  "eps (forgetLocked i e k) = eps k" "shares (forgetLocked i e k) = shares k"
  "en (forgetLocked i e k) = en k" "timers (forgetLocked i e k) = timers k"
  "store_ch (forgetLocked i e k) = store_ch k" "ring p (forgetLocked i e k) = ring p k"
  "eh (forgetLocked i e k) x =
     (if x = e then (eh k e)\<lparr>queuedReal := False, queuedDecoy := False\<rparr> else eh k x)"
  "sharedBusy (queue (forgetLocked i e k)) = sharedBusy (queue k)"
  by (simp_all add: forgetLocked_def tiers_list without_def Let_def)

lemma forgetLocked_dh:
  "dh (forgetLocked i e k) j =
     (if j = i then (dh k i)\<lparr>lanes := (lanes (dh k i))(0 := remove1 e (lanes (dh k i) 0),
          1 := remove1 e (lanes (dh k i) 1), 2 := remove1 e (lanes (dh k i) 2),
          3 := remove1 e (lanes (dh k i) 3)), decoys := remove1 e (decoys (dh k i))\<rparr>
      else dh k j)"
  by (simp add: forgetLocked_def tiers_list without_def Let_def)

definition gone_count :: "knockDomain \<Rightarrow> ep_id \<Rightarrow> int" where
  "gone_count d e = of_bool (e \<in> set (lanes d 0)) + of_bool (e \<in> set (lanes d 1)) +
     of_bool (e \<in> set (lanes d 2)) + of_bool (e \<in> set (lanes d 3)) + of_bool (e \<in> set (decoys d))"

lemma forgetLocked_counts:
  "queued (queue (forgetLocked i e k)) = queued (queue k) - gone_count (dh k i) e"
  "sharedQueued (queue (forgetLocked i e k)) =
     sharedQueued (queue k) - (if dpush (dh k i) then 0 else gone_count (dh k i) e)"
  by (simp_all add: forgetLocked_def tiers_list without_def Let_def gone_count_def)

lemma remove1_count: "int (length (remove1 e l)) = int (length l) - of_bool (e \<in> set l)"
  by (induction l) auto

lemma dom_fits_less:
  assumes "dom_fits k i d" and "distinct (reals d')" and "distinct (decoys d')"
    and "set (reals d') \<subseteq> set (reals d)" and "set (decoys d') \<subseteq> set (decoys d)"
    and "\<And>t. t < knockTiers \<Longrightarrow> length (lanes d' t) \<le> length (lanes d t)"
    and "length (decoys d') \<le> length (decoys d)"
    and "dpush d' = dpush d" and "0 < waiting d' \<Longrightarrow> inRing d' \<or> inRing d' = inRing d"
  shows "dom_fits k i d'"
  unfolding dom_fits_def
proof (intro conjI allI impI)
  have cap: "queueCap d' = queueCap d" using assms(8) by (rule queueCap_cong)
  show "srv k e i" if "e \<in> set (reals d') \<union> set (decoys d')" for e
    using that assms(1,4,5) unfolding dom_fits_def by blast
  have "length (lanes d' 0) \<le> length (lanes d 0)" by (rule assms(6)) (simp add: knockTiers_def)
  then show "length (lanes d' 0) + length (decoys d') \<le> queueCap d'"
    using assms(1,7) unfolding dom_fits_def cap by linarith
  show "length (lanes d' t) \<le> queueCap d'" if "t < knockTiers" "0 < t" for t
    using that assms(1) assms(6) [OF that(1)] unfolding dom_fits_def cap by fastforce
  show "inRing d'" if "0 < waiting d'"
  proof -
    have "reals d' \<noteq> [] \<or> decoys d' \<noteq> []" using that by (auto simp: waiting_eq)
    then have "0 < waiting d" using assms(4,5) by (auto simp: waiting_eq)
    then show ?thesis using assms(1) assms(9) [OF that] unfolding dom_fits_def by blast
  qed
qed (fact assms)+

lemma forgetLocked_ok:
  assumes ok: "queue_ok c fl k" and s: "srv k e i" and lt: "i < dn k"
  shows "queue_ok c fl (forgetLocked i e k)"
proof (rule queue_step [OF ok lt])
  let ?k = "forgetLocked i e k" and ?d = "dh k i"
  let ?d' = "dh ?k i"
  note fits = dom_fits_now [OF ok lt]
  have dist: "distinct (reals ?d)" "distinct (decoys ?d)" using fits by (auto simp: dom_fits_def)
  have lanes': "lanes ?d' t = remove1 e (lanes ?d t)" if "t < knockTiers" for t
    using tiers_cases [OF that] by (auto simp: forgetLocked_dh)
  have lane_dist: "distinct (lanes ?d t)" if "t < knockTiers" for t
    using tiers_cases [OF that] dist(1) by (auto simp: reals_def)
  have reals': "set (reals ?d') = set (reals ?d) - {e}"
  proof (rule set_eqI)
    fix x show "x \<in> set (reals ?d') \<longleftrightarrow> x \<in> set (reals ?d) - {e}"
      unfolding Diff_iff set_reals using lanes' lane_dist by auto
  qed
  have decoys': "decoys ?d' = remove1 e (decoys ?d)" by (simp add: forgetLocked_dh)
  have "distinct (reals ?d')" using dist(1) lanes' [of 0] lanes' [of 1] lanes' [of 2] lanes' [of 3]
    by (auto simp: reals_def knockTiers_def distinct_remove1 dest: notin_set_remove1)
  moreover have "distinct (decoys ?d')" "set (decoys ?d') \<subseteq> set (decoys ?d)"
    using dist(2) by (simp_all add: decoys' distinct_remove1 set_remove1_subset)
  moreover have "length (lanes ?d' t) \<le> length (lanes ?d t)" if "t < knockTiers" for t
    using lanes' [OF that] by (simp add: length_remove1)
  ultimately show "dom_fits k i ?d'"
    using reals' by (intro dom_fits_less [OF fits]) (auto simp: forgetLocked_dh length_remove1)
  show "queuedReal (eh ?k x) = (x \<in> set (reals ?d')) \<and> queuedDecoy (eh ?k x) = (x \<in> set (decoys ?d'))"
    if "srv k x i" for x
    using queue_marks [OF ok that lt] reals' decoys' dist by (auto simp: forgetLocked_sel)
  have w: "int (waiting ?d') = int (waiting ?d) - gone_count ?d e"
    using lanes' [of 0] lanes' [of 1] lanes' [of 2] lanes' [of 3] decoys'
    by (simp add: waiting_eq reals_def knockTiers_def gone_count_def remove1_count)
  show "queued (queue ?k) = queued (queue k) + int (waiting ?d') - int (waiting ?d)"
    using w by (simp add: forgetLocked_counts)
  show "sharedQueued (queue ?k) = sharedQueued (queue k) +
      (if dpush ?d then 0 else int (waiting ?d') - int (waiting ?d))"
    using w by (simp add: forgetLocked_counts)
  have rk: "ring_ok k" and fk: "flight_ok fl k" using ok by (simp_all add: queue_ok_def)
  show "ring_ok ?k" by (rule ring_same [OF rk]) (simp_all add: forgetLocked_sel forgetLocked_dh)
  show "flight_ok fl ?k" by (rule flight_same [OF fk]) (simp_all add: forgetLocked_sel forgetLocked_dh)
qed (use s in \<open>auto simp: forgetLocked_sel forgetLocked_dh\<close>)

lemma dom_fits_view:
  assumes "dview d' = dview d"
  shows "dom_fits k i d' = dom_fits k i d"
  unfolding dom_fits_def dviewD [OF assms] ..

section \<open>Taking the next knock\<close>

definition popped :: "bool \<Rightarrow> dom_id \<Rightarrow> dom_id list \<Rightarrow> knocker \<Rightarrow> knocker" where
  "popped p i r k = upd_dom i (\<lambda>d. d\<lparr>inRing := False\<rparr>) (set_ring p r k)"

lemma popped_sel [simp]:
  "domains (popped p i r k) = domains k" "dn (popped p i r k) = dn k" "eh (popped p i r k) = eh k"
  "dh (popped p i r k) j = (if j = i then (dh k i)\<lparr>inRing := False\<rparr> else dh k j)"
  "queued (queue (popped p i r k)) = queued (queue k)"
  "sharedQueued (queue (popped p i r k)) = sharedQueued (queue k)"
  "sharedBusy (queue (popped p i r k)) = sharedBusy (queue k)"
  "qrate (queue (popped p i r k)) = qrate (queue k)"
  "ring b (popped p i r k) = (if b = p then r else ring b k)"
  "eps (popped p i r k) = eps k" "regs (popped p i r k) = regs k" "shares (popped p i r k) = shares k"
  "forgets (popped p i r k) = forgets k" "en (popped p i r k) = en k"
  "timers (popped p i r k) = timers k" "store_ch (popped p i r k) = store_ch k"
  by (simp_all add: popped_def set_ring_def ring_def)

lemma popped_ring_ok:
  assumes "ring_ok k" and "ring p k = i # r"
  shows "ring_ok (popped p i r k)" and "i < dn k" and "dpush (dh k i) = p" and "inRing (dh k i)"
proof -
  have i: "i < dn k \<and> inRing (dh k i) \<and> dpush (dh k i) = p" and d: "distinct (i # r)"
    and r: "\<And>j. j \<in> set (i # r) \<longleftrightarrow> j < dn k \<and> inRing (dh k j) \<and> dpush (dh k j) = p"
    using assms unfolding ring_ok_def by (metis list.set_intros(1))+
  show "i < dn k" "dpush (dh k i) = p" "inRing (dh k i)" using i by auto
  show "ring_ok (popped p i r k)" unfolding ring_ok_def
  proof (intro allI conjI)
    fix b
    show "distinct (ring b (popped p i r k))" using assms(1) d by (auto simp: ring_ok_def)
    fix j show "j \<in> set (ring b (popped p i r k)) \<longleftrightarrow>
        j < dn (popped p i r k) \<and> inRing (dh (popped p i r k) j) \<and> dpush (dh (popped p i r k) j) = b"
    proof (cases "b = p")
      case True
      then show ?thesis using r [of j] d i by auto
    next
      case False
      then show ?thesis using assms(1) i by (auto simp: ring_ok_def)
    qed
  qed
qed

text \<open>A server popped from its ring and found empty is out of it.\<close>

lemma popped_empty_ok:
  assumes ok: "queue_ok c fl k" and r: "ring p k = i # r" and w: "waiting (dh k i) = 0"
  shows "queue_ok c fl (popped p i r k)"
proof -
  have rk: "ring_ok k" and fk: "flight_ok fl k" using ok by (simp_all add: queue_ok_def)
  note pop = popped_ring_ok [OF rk r]
  show ?thesis
  proof (rule queue_step [OF ok pop(2)])
    show "dom_fits k i (dh (popped p i r k) i)"
      using dom_fits_now [OF ok pop(2)] w by (auto simp: dom_fits_def queueCap_def)
    show "flight_ok fl (popped p i r k)" by (rule flight_same [OF fk]) simp_all
  qed (use pop queue_marks [OF ok _ pop(2)] in auto)
qed

text \<open>A state after the pop that differs in nothing the invariant reads.\<close>

definition popped_like :: "bool \<Rightarrow> dom_id \<Rightarrow> dom_id list \<Rightarrow> knocker \<Rightarrow> knocker \<Rightarrow> bool" where
  "popped_like p i r k k2 \<longleftrightarrow>
     domains k2 = domains k \<and> dn k2 = dn k \<and> eh k2 = eh k \<and>
     (\<forall>j. j \<noteq> i \<longrightarrow> dh k2 j = dh k j) \<and> dview (dh k2 i) = dview ((dh k i)\<lparr>inRing := False\<rparr>) \<and>
     qview (queue k2) = qview (queue (popped p i r k))"

lemma popped_likeD:
  assumes "popped_like p i r k k2"
  shows "domains k2 = domains k" "dn k2 = dn k" "eh k2 = eh k"
    "\<And>j. dname (dh k2 j) = dname (dh k j)" "\<And>j. dpush (dh k2 j) = dpush (dh k j)"
    "\<And>j. lanes (dh k2 j) = lanes (dh k j)" "\<And>j. decoys (dh k2 j) = decoys (dh k j)"
    "\<And>j. inRing (dh k2 j) = (if j = i then False else inRing (dh k j))"
    "\<And>j. inflight (dh k2 j) = inflight (dh k j)" "\<And>j. reals (dh k2 j) = reals (dh k j)"
    "\<And>j. waiting (dh k2 j) = waiting (dh k j)" "\<And>j. busyCap (dh k2 j) = busyCap (dh k j)"
    "\<And>b. ring b k2 = ring b (popped p i r k)" "queued (queue k2) = queued (queue k)"
    "sharedQueued (queue k2) = sharedQueued (queue k)" "sharedBusy (queue k2) = sharedBusy (queue k)"
    "\<And>j. j \<noteq> i \<Longrightarrow> dh k2 j = dh k j"
proof -
  have v: "dview (dh k2 j) = dview (dh (popped p i r k) j)" for j using assms by (simp add: popped_like_def)
  show "\<And>j. j \<noteq> i \<Longrightarrow> dh k2 j = dh k j" using assms by (simp add: popped_like_def)
  note dv = dviewD [OF v]
  show "\<And>j. dname (dh k2 j) = dname (dh k j)" "\<And>j. dpush (dh k2 j) = dpush (dh k j)"
    "\<And>j. lanes (dh k2 j) = lanes (dh k j)" "\<And>j. decoys (dh k2 j) = decoys (dh k j)"
    "\<And>j. inRing (dh k2 j) = (if j = i then False else inRing (dh k j))"
    "\<And>j. inflight (dh k2 j) = inflight (dh k j)" "\<And>j. reals (dh k2 j) = reals (dh k j)"
    "\<And>j. waiting (dh k2 j) = waiting (dh k j)" "\<And>j. busyCap (dh k2 j) = busyCap (dh k j)"
    by (simp_all add: dv busyCap_def)
  show "domains k2 = domains k" "dn k2 = dn k" "eh k2 = eh k" using assms by (simp_all add: popped_like_def)
  have qv: "qview (queue k2) = qview (queue (popped p i r k))" using assms by (simp add: popped_like_def)
  show "\<And>b. ring b k2 = ring b (popped p i r k)" "queued (queue k2) = queued (queue k)"
    "sharedQueued (queue k2) = sharedQueued (queue k)" "sharedBusy (queue k2) = sharedBusy (queue k)"
    using qv by (simp_all add: qview_def ring_def)
qed

text \<open>Put back at the end of its ring.\<close>

lemma requeue_ok:
  assumes ok: "queue_ok c fl k" and r: "ring p k = i # r" and k2: "popped_like p i r k k2"
  shows "queue_ok c fl (ringAppend i k2)"
proof -
  have rk: "ring_ok k" and fk: "flight_ok fl k" using ok by (simp_all add: queue_ok_def)
  note pop = popped_ring_ok [OF rk r] and like = popped_likeD [OF k2]
  have "ring_ok k2" by (rule ring_same [OF pop(1)]) (simp_all add: like)
  then have ring: "ring_ok (ringAppend i k2)" using pop(2) by (intro ringAppend_ok) (simp_all add: like)
  have dv: "dview (dh (ringAppend i k2) j) = dview (dh k j)" for j
    using pop(4) by (simp add: dview_def like)
  show ?thesis
  proof (rule queue_step [OF ok pop(2)])
    show "dom_fits k i (dh (ringAppend i k2) i)"
      using dom_fits_now [OF ok pop(2)] unfolding dom_fits_view [OF dv] .
    show "flight_ok fl (ringAppend i k2)"
      by (rule flight_same [OF fk]) (simp_all add: like)
    show "ring_ok (ringAppend i k2)" by (rule ring)
  qed (simp_all add: like queue_marks [OF ok _ pop(2)])
qed

lemma send_off_sel:
  "domains (send_off i now k) = domains k" "dn (send_off i now k) = dn k" "eh (send_off i now k) = eh k"
  "eps (send_off i now k) = eps k" "regs (send_off i now k) = regs k" "shares (send_off i now k) = shares k"
  "forgets (send_off i now k) = forgets k" "en (send_off i now k) = en k"
  "timers (send_off i now k) = timers k" "store_ch (send_off i now k) = store_ch k"
  "dh (send_off i now k) j =
     (if j = i then (dh k i)\<lparr>inRing := (inRing (dh k i) \<or> 0 < waiting (dh k i)),
        drate := snd (take1 (drate (dh k i)) now), inflight := inflight (dh k i) + 1\<rparr> else dh k j)"
  "queued (queue (send_off i now k)) = queued (queue k) - 1"
  "sharedQueued (queue (send_off i now k)) = sharedQueued (queue k) - (if dpush (dh k i) then 0 else 1)"
  "sharedBusy (queue (send_off i now k)) = sharedBusy (queue k) + (if dpush (dh k i) then 0 else 1)"
  "qrate (queue (send_off i now k)) = snd (take1 (qrate (queue k)) now)"
  by (simp_all add: send_off_def Let_def)

lemma send_off_ring_ok:
  assumes "ring_ok k" and "i < dn k"
  shows "ring_ok (send_off i now k)"
proof -
  let ?k = "upd_dom i (\<lambda>d. d\<lparr>inflight := inflight d + 1\<rparr>) (unqueued i
      (upd_q (\<lambda>x. x\<lparr>qrate := snd (take1 (qrate x) now)\<rparr>)
        (upd_dom i (\<lambda>d. d\<lparr>drate := snd (take1 (drate d) now)\<rparr>) k)))"
  have "ring_ok ?k" by (rule ring_same [OF assms(1)]) simp_all
  moreover from this have "ring_ok (upd_q (\<lambda>x. x\<lparr>sharedBusy := sharedBusy x + 1\<rparr>) ?k)"
    by (rule ring_same) simp_all
  ultimately show ?thesis using assms(2) by (auto simp: send_off_def Let_def intro!: ringAppend_ok)
qed

text \<open>Sent: \<open>e\<close> has left its lane or the decoys, and its post is in flight.\<close>

lemma sent_ok:
  assumes ok: "queue_ok c fl k" and r: "ring p k = i # r" and k2: "popped_like p i r k k2"
    and room: "inflight (dh k i) < busyCap (dh k i)"
      "\<not> dpush (dh k i) \<Longrightarrow> sharedBusy (queue k) < knockSharedWorkers"
    and d: "dname d' = dname (dh k i)" "dpush d' = dpush (dh k i)" "inflight d' = inflight (dh k i)"
      "\<not> inRing d'" "waiting (dh k i) = waiting d' + 1"
    and dist: "distinct (reals d')" "distinct (decoys d')"
    and sub: "set (reals d') \<subseteq> set (reals (dh k i))" "set (decoys d') \<subseteq> set (decoys (dh k i))"
    and lens: "\<And>t. t < knockTiers \<Longrightarrow> length (lanes d' t) \<le> length (lanes (dh k i) t)"
      "length (decoys d') \<le> length (decoys (dh k i))"
    and e: "srv k e i" "\<And>x. ep_domain (g x) = ep_domain x"
      "queuedReal (g (eh k e)) = (e \<in> set (reals d'))" "queuedDecoy (g (eh k e)) = (e \<in> set (decoys d'))"
    and rest: "\<And>x. x \<noteq> e \<Longrightarrow> x \<in> set (reals d') \<longleftrightarrow> x \<in> set (reals (dh k i))"
      "\<And>x. x \<noteq> e \<Longrightarrow> x \<in> set (decoys d') \<longleftrightarrow> x \<in> set (decoys (dh k i))"
  shows "queue_ok c (e # fl) (send_off i now (upd_ep e g (upd_dom i (\<lambda>_. d') k2)))"
proof -
  have rk: "ring_ok k" and fk: "flight_ok fl k" using ok by (simp_all add: queue_ok_def)
  note pop = popped_ring_ok [OF rk r] and like = popped_likeD [OF k2]
  let ?k2 = "upd_ep e g (upd_dom i (\<lambda>_. d') k2)"
  let ?k = "send_off i now ?k2"
  have "ring_ok ?k2" by (rule ring_same [OF pop(1)]) (use d in \<open>simp_all add: like\<close>)
  then have ring: "ring_ok ?k" using pop(2) by (intro send_off_ring_ok) (simp_all add: like)
  have srv: "srv ?k x j = srv k x j" for x j by (simp add: srv_def send_off_sel like e(2))
  have "busyCap (dh ?k j) = busyCap (dh k j)" for j by (simp add: busyCap_def send_off_sel like d)
  moreover have "inflight (dh ?k j) = inflight (dh k j) + (if j = i then 1 else 0)" for j
    by (simp add: send_off_sel like d)
  moreover have "srv k e j \<longleftrightarrow> j = i" for j using e(1) by (auto simp: srv_def)
  ultimately have flight: "flight_ok (e # fl) ?k"
    using fk room pop(2) unfolding flight_ok_def srv by (auto simp: send_off_sel like d)
  show ?thesis
  proof (rule queue_step [OF ok pop(2)])
    show "dom_fits k i (dh ?k i)"
      using d(5) pop(4) dist sub lens by (intro dom_fits_less [OF dom_fits_now [OF ok pop(2)]])
        (simp_all add: send_off_sel like d)
    show "queuedReal (eh ?k x) = queuedReal (eh k x) \<and> queuedDecoy (eh ?k x) = queuedDecoy (eh k x)"
      if "\<not> srv k x i" for x using that e(1) by (auto simp: send_off_sel like)
    show "queuedReal (eh ?k x) = (x \<in> set (reals (dh ?k i))) \<and>
        queuedDecoy (eh ?k x) = (x \<in> set (decoys (dh ?k i)))" if "srv k x i" for x
      using queue_marks [OF ok that pop(2)] e(3,4) rest by (cases "x = e") (simp_all add: send_off_sel like)
    show "ring_ok ?k" by (rule ring)
    show "flight_ok (e # fl) ?k" by (rule flight)
  qed (simp_all add: send_off_sel like d e(2))
qed

lemma lane_fold_best:
  assumes "foldl (lane_turn d) (cr, tot, best) ts = (cr', tot', best')"
  shows "(\<forall>t. best' = Some t \<longrightarrow> best = Some t \<or> t \<in> set ts \<and> lanes d t \<noteq> []) \<and>
         (best' = None \<longleftrightarrow> best = None \<and> (\<forall>t \<in> set ts. lanes d t = []))"
  using assms
proof (induction ts arbitrary: cr tot best)
  case (Cons t ts)
  obtain cr1 tot1 best1 where st: "lane_turn d (cr, tot, best) t = (cr1, tot1, best1)"
    by (cases "lane_turn d (cr, tot, best) t")
  have "best1 = best \<and> lanes d t = [] \<or> lanes d t \<noteq> [] \<and> (best1 = Some t \<or> best1 = best \<and> best \<noteq> None)"
    using st by (auto simp: lane_turn_def Let_def split: if_splits option.splits)
  moreover have "foldl (lane_turn d) (cr1, tot1, best1) ts = (cr', tot', best')" using Cons.prems st by simp
  note Cons.IH [OF this]
  ultimately show ?case by auto
qed simp

lemma nextLane_spec:
  assumes "nextLane d = (best, d')"
  shows "\<exists>cr. d' = d\<lparr>credit := cr\<rparr>"
    and "best = Some t \<Longrightarrow> t < knockTiers \<and> lanes d t \<noteq> []"
    and "best = None \<Longrightarrow> reals d = []"
proof -
  obtain cr tot b where f: "foldl (lane_turn d) (credit d, 0, None) [0..<knockTiers] = (cr, tot, b)"
    by (cases "foldl (lane_turn d) (credit d, 0, None) [0..<knockTiers]")
  then have "best = b" and d': "d' = d\<lparr>credit := (case b of Some b \<Rightarrow> cr(b := cr b - tot) | None \<Rightarrow> cr)\<rparr>"
    using assms by (auto simp: nextLane_def)
  then show "\<exists>cr. d' = d\<lparr>credit := cr\<rparr>" by blast
  note best = lane_fold_best [OF f]
  show "best = Some t \<Longrightarrow> t < knockTiers \<and> lanes d t \<noteq> []" using best \<open>best = b\<close> by auto
  show "best = None \<Longrightarrow> reals d = []" using best \<open>best = b\<close> by (auto simp: reals_def knockTiers_def)
qed

lemma reals_tl:
  assumes "t < knockTiers" and "lanes d t = e # l" and "distinct (reals d)"
  shows "set (reals (d\<lparr>lanes := (lanes d)(t := l)\<rparr>)) = set (reals d) - {e}"
    and "distinct (reals (d\<lparr>lanes := (lanes d)(t := l)\<rparr>))"
    and "length (reals d) = Suc (length (reals (d\<lparr>lanes := (lanes d)(t := l)\<rparr>)))"
    and "e \<in> set (reals d)"
  using tiers_cases [OF assms(1)] assms(2,3) by (auto simp: reals_def)

text \<open>One turn of the ring: what it leaves is consistent, and what it hands out was waiting.\<close>

definition marked :: "knocker \<Rightarrow> ep_id set" where
  "marked k = {e. queuedReal (eh k e) \<or> queuedDecoy (eh k e)}"

lemma marked_eh: "eh k' = eh k \<Longrightarrow> marked k' = marked k"
  by (simp add: marked_def)

definition handed :: "knock_cfg \<Rightarrow> ep_id list \<Rightarrow> ep_id set \<Rightarrow> (ep_id \<times> bool) option \<times> knocker \<Rightarrow> bool" where
  "handed c fl M x = (case x of
     (None, k) \<Rightarrow> queue_ok c fl k \<and> marked k = M
   | (Some (e, decoy), k) \<Rightarrow> queue_ok c (e # fl) k \<and> e \<in> M \<and> marked k \<subseteq> M)"

lemma popped_likeI:
  "popped_like p i r k (popped p i r k)"
  "popped_like p i r k (upd_dom i (\<lambda>d. d\<lparr>drate := b d\<rparr>) (popped p i r k))"
  "popped_like p i r k (upd_dom i (\<lambda>_. (dh k i)\<lparr>credit := cr, inRing := False, drate := b'\<rparr>)
     (upd_dom i (\<lambda>d. d\<lparr>drate := b d\<rparr>) (popped p i r k)))"
  by (auto simp: popped_like_def dview_def)

lemma upd_dom_const: "upd_dom i f (upd_dom i (\<lambda>_. d) k) = upd_dom i (\<lambda>_. f d) k"
  by (simp add: upd_dom_def)

text \<open>A real knock of the lane whose turn it is, and a decoy, taken from a popped server.\<close>

lemma real_sent:
  assumes ok: "queue_ok c fl k" and r: "ring p k = i # r" and k2: "popped_like p i r k k2"
    and room: "inflight (dh k i) < busyCap (dh k i)"
      "\<not> dpush (dh k i) \<Longrightarrow> sharedBusy (queue k) < knockSharedWorkers"
    and lane: "nextLane (dh k2 i) = (Some t, d)"
  shows "queue_ok c (hd (lanes d t) # fl)
    (send_off i now (upd_ep (hd (lanes d t)) (\<lambda>x. x\<lparr>queuedReal := False\<rparr>)
      (upd_dom i (\<lambda>_. d\<lparr>lanes := (lanes d)(t := tl (lanes d t))\<rparr>) k2))) \<and> hd (lanes d t) \<in> marked k \<and>
    marked (upd_ep (hd (lanes d t)) (\<lambda>x. x\<lparr>queuedReal := False\<rparr>) k2) \<subseteq> marked k"
proof -
  note like = popped_likeD [OF k2]
  have lt: "i < dn k" using ok r popped_ring_ok(2) by (auto simp: queue_ok_def)
  have fits: "distinct (reals (dh k i))" "distinct (decoys (dh k i))"
    "\<forall>e. e \<in> set (reals (dh k i)) \<union> set (decoys (dh k i)) \<longrightarrow> srv k e i"
    using dom_fits_now [OF ok lt] unfolding dom_fits_def by blast+
  obtain cr where d: "d = (dh k2 i)\<lparr>credit := cr\<rparr>" using nextLane_spec(1) [OF lane] by blast
  have t: "t < knockTiers" "lanes (dh k i) t \<noteq> []" using nextLane_spec(2) [OF lane] by (simp_all add: like)
  then obtain e l where el: "lanes (dh k i) t = e # l" by (cases "lanes (dh k i) t") auto
  have rd: "reals d = reals (dh k i)" "lanes d = lanes (dh k i)" by (simp_all add: d like)
  note tl = reals_tl [of t d e l, unfolded rd, OF t(1) el fits(1)]
  have s: "srv k e i" using fits(3) tl(4) by blast
  then have "e \<in> marked k" using queue_marks [OF ok _ lt] tl(4) by (simp add: marked_def)
  moreover have "length (lanes (d\<lparr>lanes := (lanes (dh k i))(t := l)\<rparr>) s) \<le> length (lanes (dh k i) s)" for s
    using el by simp
  then have "queue_ok c (e # fl) (send_off i now (upd_ep e (\<lambda>x. x\<lparr>queuedReal := False\<rparr>)
      (upd_dom i (\<lambda>_. d\<lparr>lanes := (lanes (dh k i))(t := l)\<rparr>) k2)))"
    using s tl fits queue_marks [OF ok _ lt, of e]
    by (intro sent_ok [OF ok r k2 room]) (auto simp: d like waiting_eq)
  moreover have "marked (upd_ep e (\<lambda>x. x\<lparr>queuedReal := False\<rparr>) k2) \<subseteq> marked k" by (auto simp: marked_def like)
  ultimately show ?thesis by (simp add: rd el)
qed

lemma decoy_sent:
  assumes ok: "queue_ok c fl k" and r: "ring p k = i # r" and k2: "popped_like p i r k k2"
    and room: "inflight (dh k i) < busyCap (dh k i)"
      "\<not> dpush (dh k i) \<Longrightarrow> sharedBusy (queue k) < knockSharedWorkers"
    and lane: "nextLane (dh k2 i) = (None, d)" and w: "waiting (dh k i) \<noteq> 0"
  shows "queue_ok c (hd (decoys d) # fl)
    (send_off i now (upd_ep (hd (decoys d)) (\<lambda>x. x\<lparr>queuedDecoy := False\<rparr>)
      (upd_dom i (\<lambda>_. d\<lparr>decoys := tl (decoys d)\<rparr>) k2))) \<and> hd (decoys d) \<in> marked k \<and>
    marked (upd_ep (hd (decoys d)) (\<lambda>x. x\<lparr>queuedDecoy := False\<rparr>) k2) \<subseteq> marked k"
proof -
  note like = popped_likeD [OF k2]
  have lt: "i < dn k" using ok r popped_ring_ok(2) by (auto simp: queue_ok_def)
  have fits: "distinct (reals (dh k i))" "distinct (decoys (dh k i))"
    "\<forall>e. e \<in> set (reals (dh k i)) \<union> set (decoys (dh k i)) \<longrightarrow> srv k e i"
    using dom_fits_now [OF ok lt] unfolding dom_fits_def by blast+
  obtain cr where d: "d = (dh k2 i)\<lparr>credit := cr\<rparr>" using nextLane_spec(1) [OF lane] by blast
  have "reals (dh k i) = []" using nextLane_spec(3) [OF lane] by (simp add: like)
  then obtain e l where el: "decoys (dh k i) = e # l" using w by (cases "decoys (dh k i)") (auto simp: waiting_eq)
  have s: "srv k e i" using fits(3) el by auto
  then have "e \<in> marked k" using queue_marks [OF ok _ lt] el by (simp add: marked_def)
  moreover have "queue_ok c (e # fl) (send_off i now (upd_ep e (\<lambda>x. x\<lparr>queuedDecoy := False\<rparr>)
      (upd_dom i (\<lambda>_. d\<lparr>decoys := l\<rparr>) k2)))"
    using s fits el queue_marks [OF ok _ lt, of e]
    by (intro sent_ok [OF ok r k2 room]) (auto simp: d like waiting_eq)
  moreover have "marked (upd_ep e (\<lambda>x. x\<lparr>queuedDecoy := False\<rparr>) k2) \<subseteq> marked k" by (auto simp: marked_def like)
  ultimately show ?thesis by (simp add: d like el)
qed

lemma fromRing_ok: "queue_ok c fl k \<Longrightarrow> handed c fl (marked k) (fromRing n p now k)"
proof (induction n arbitrary: k)
  case 0
  then show ?case by (simp add: handed_def)
next
  case (Suc n)
  note ok = Suc.prems
  have IH: "handed c fl (marked k) (fromRing n p now k')" if "queue_ok c fl k'" "eh k' = eh k" for k'
    using Suc.IH [OF that(1)] marked_eh [OF that(2)] by simp
  show ?case
  proof (cases "ring p k")
    case Nil
    then show ?thesis using ok by (simp add: handed_def)
  next
    case (Cons i r)
    note r = Cons
    let ?k1 = "popped p i r k"
    let ?k2 = "upd_dom i (\<lambda>d. d\<lparr>drate := snd (takeN (drate d) now 0)\<rparr>) ?k1"
    have like: "popped_like p i r k ?k2" by (rule popped_likeI)
    have back1: "handed c fl (marked k) (fromRing n p now (ringAppend i ?k1))"
      by (intro IH requeue_ok [OF ok r] popped_likeI) simp
    have back2: "handed c fl (marked k) (fromRing n p now (ringAppend i ?k2))"
      by (intro IH requeue_ok [OF ok r] popped_likeI) simp
    have back3: "handed c fl (marked k) (fromRing n p now (ringAppend i (upd_dom i (\<lambda>_. d) ?k2)))"
      if lane: "nextLane (dh ?k2 i) = (None, d)" for d
    proof (intro IH requeue_ok [OF ok r])
      obtain cr where "d = (dh ?k2 i)\<lparr>credit := cr\<rparr>" using nextLane_spec(1) [OF lane] by blast
      then show "popped_like p i r k (upd_dom i (\<lambda>_. d) ?k2)" by (auto simp: popped_like_def dview_def)
    qed simp
    have empty: "handed c fl (marked k) (fromRing n p now ?k1)" if "waiting (dh k i) = 0"
      using that by (intro IH popped_empty_ok [OF ok r]) simp_all
    show ?thesis
    proof (cases "waiting (dh k i) = 0 \<or> inflight (dh k i) \<ge> busyCap (dh k i)
        \<or> \<not> dpush (dh k i) \<and> sharedBusy (queue k) \<ge> knockSharedWorkers
        \<or> tokens (drate (dh ?k2 i)) < 1")
      case True
      then show ?thesis using r empty back1 back2
        by (auto simp: popped_def [symmetric] Let_def busyCap_def)
    next
      case False
      then have room: "inflight (dh k i) < busyCap (dh k i)"
        "\<not> dpush (dh k i) \<Longrightarrow> sharedBusy (queue k) < knockSharedWorkers" "waiting (dh k i) \<noteq> 0" by auto
      have eq: "fromRing (Suc n) p now k = (case nextLane (dh ?k2 i) of
          (Some t, d) \<Rightarrow> (Some (hd (lanes d t), False),
             send_off i now (upd_ep (hd (lanes d t)) (\<lambda>x. x\<lparr>queuedReal := False\<rparr>)
               (upd_dom i (\<lambda>_. d\<lparr>lanes := (lanes d)(t := tl (lanes d t))\<rparr>) ?k2)))
        | (None, d) \<Rightarrow> if tokens (qrate (queue k)) \<le> bmax (qrate (queue k)) / 2
             then fromRing n p now (ringAppend i (upd_dom i (\<lambda>_. d) ?k2))
             else (Some (hd (decoys d), True),
               send_off i now (upd_ep (hd (decoys d)) (\<lambda>x. x\<lparr>queuedDecoy := False\<rparr>)
                 (upd_dom i (\<lambda>_. d\<lparr>decoys := tl (decoys d)\<rparr>) ?k2))))"
        using r False by (cases "dpush (dh k i)")
          (simp_all add: popped_def [symmetric] Let_def upd_dom_const busyCap_def
            split: prod.splits option.splits)
      show ?thesis
      proof (cases "nextLane (dh ?k2 i)")
        case (Pair best d)
        have M: "marked (send_off i now (upd_ep e g (upd_dom i f ?k2))) = marked (upd_ep e g ?k2)" for e g f
          by (simp add: marked_def send_off_sel)
        show ?thesis
        proof (cases best)
          case None
          then have lane: "nextLane (dh ?k2 i) = (None, d)" using Pair by simp
          have "handed c fl (marked k) (Some (hd (decoys d), True),
              send_off i now (upd_ep (hd (decoys d)) (\<lambda>x. x\<lparr>queuedDecoy := False\<rparr>)
                (upd_dom i (\<lambda>_. d\<lparr>decoys := tl (decoys d)\<rparr>) ?k2)))"
            unfolding handed_def using decoy_sent [OF ok r like room(1) room(2) lane room(3), where now = now]
            by (simp only: M prod.case option.case not_False_eq_True simp_thms)
          then show ?thesis unfolding eq lane using back3 [OF lane] by simp
        next
          case (Some t)
          then have lane: "nextLane (dh ?k2 i) = (Some t, d)" using Pair by simp
          show ?thesis unfolding eq lane handed_def
            using real_sent [OF ok r like room(1) room(2) lane, where now = now]
            by (simp only: M prod.case option.case not_False_eq_True simp_thms)
        qed
      qed
    qed
  qed
qed

lemma nextLocked_ok:
  assumes "queue_ok c fl k"
  shows "handed c fl (marked k) (nextLocked now k)"
proof -
  obtain w k1 where b: "budgetWait now k = (w, k1)" by (cases "budgetWait now k")
  have 1: "queue_ok c fl k1"
    using assms b by (subst queue_cong [of _ k]) (auto simp: budgetWait_def Let_def qview_def)
  let ?k2 = "upd_q (\<lambda>x. x\<lparr>turn := \<not> turn x\<rparr>) k1"
  let ?p = "\<not> turn (queue ?k2)"
  have 2: "queue_ok c fl ?k2" using 1 by (subst queue_cong [of _ k1]) (simp_all add: qview_def)
  have eh1: "eh k1 = eh k" using b by (auto simp: budgetWait_def Let_def)
  then have M: "marked ?k2 = marked k" by (simp add: marked_def)
  note first = fromRing_ok [OF 2, of "length (ring ?p ?k2)" ?p now, unfolded M]
  show ?thesis
  proof (cases "fromRing (length (ring ?p ?k2)) ?p now ?k2")
    case (Pair x k3)
    show ?thesis
    proof (cases x)
      case None
      then have 3: "queue_ok c fl k3" "marked k3 = marked k"
        using first unfolding Pair handed_def by simp_all
      have "handed c fl (marked k) (fromRing (length (ring (\<not> ?p) k3)) (\<not> ?p) now k3)"
        using fromRing_ok [OF 3(1)] unfolding 3(2) .
      then show ?thesis using None Pair b 1 marked_eh [OF eh1] by (simp add: nextLocked_def Let_def handed_def)
    next
      case (Some y)
      then show ?thesis using first Pair b 1 marked_eh [OF eh1] by (simp add: nextLocked_def Let_def handed_def)
    qed
  qed
qed

section \<open>A post is over\<close>

lemma delete_domain_ok:
  assumes ok: "queue_ok c fl k" and n: "domains k n = Some i"
    and idle: "waiting (dh k i) = 0" "inflight (dh k i) = 0"
  shows "queue_ok c fl (k\<lparr>domains := (domains k)(n := None)\<rparr>)"
proof -
  let ?k = "k\<lparr>domains := (domains k)(n := None)\<rparr>"
  have heap: "heap_ok c k" and marks: "marks_ok k" and flight: "flight_ok fl k"
    and doms: "\<forall>j < dn k. dom_ok k j" using ok by (simp_all add: queue_ok_def)
  have i: "i < dn k" using heap n by (simp add: heap_ok_def)
  have empty: "reals (dh k i) = []" "decoys (dh k i) = []" using idle(1) by (simp_all add: waiting_eq)
  have only: "m = n" if "domains k m = Some i" for m using heap n that by (auto simp: heap_ok_def)
  have srv: "srv ?k x j \<longleftrightarrow> srv k x j \<and> j \<noteq> i" for x j
  proof (cases "ep_domain (eh k x) = n")
    case True
    then show ?thesis using n by (auto simp: srv_def)
  next
    case False
    then show ?thesis using only [of "ep_domain (eh k x)"] by (auto simp: srv_def)
  qed
  have "filter (\<lambda>e. srv k e i) fl = []" using flight idle(2) i by (auto simp: flight_ok_def)
  then have none: "\<not> srv k e i" if "e \<in> set fl" for e using that by (auto simp: filter_empty_conv)
  then have same: "filter (\<lambda>e. srv ?k e j) fl = filter (\<lambda>e. srv k e j) fl" for j
    using srv by (auto intro: filter_cong)
  have "flight_ok fl ?k" using flight none unfolding flight_ok_def same by (fastforce simp: srv)
  moreover have "dom_ok ?k j" if "j < dn k" for j
  proof (cases "j = i")
    case True
    have "dom_ok k j" using doms that by blast
    then show ?thesis using True empty by (auto simp: dom_ok_def Let_def reals_def)
  next
    case False
    have "dom_ok k j" using doms that by blast
    then show ?thesis using False by (simp add: dom_ok_def Let_def srv)
  qed
  moreover have "marks_ok ?k" using marks empty by (fastforce simp: marks_ok_def srv)
  moreover have "heap_ok c ?k" using heap by (simp add: heap_ok_def)
  moreover have "ring_ok k" "sums_ok k" using ok by (simp_all add: queue_ok_def)
  moreover have "ring_ok ?k = ring_ok k" by (simp add: ring_ok_def ring_def)
  moreover have "sums_ok ?k = sums_ok k" by (simp add: sums_ok_def cong: if_cong)
  ultimately show ?thesis by (simp add: queue_ok_def)
qed

lemma filter_remove1_count:
  "e \<in> set fl \<Longrightarrow> int (length (filter P (remove1 e fl))) = int (length (filter P fl)) - of_bool (P e)"
  by (induction fl) auto

lemma doneLocked_ok:
  assumes ok: "queue_ok c fl k" and e: "e \<in> set fl"
  shows "queue_ok c (remove1 e fl) (doneLocked e k)"
proof -
  have flight: "flight_ok fl k" and ring: "ring_ok k" using ok by (simp_all add: queue_ok_def)
  then obtain i where s: "srv k e i" using e by (auto simp: flight_ok_def)
  then have di: "domains k (ep_domain (eh k e)) = Some i" by (simp add: srv_def)
  then have i: "i < dn k" using ok by (simp add: queue_ok_def heap_ok_def)
  let ?k1 = "upd_dom i (\<lambda>d. d\<lparr>inflight := inflight d - 1\<rparr>) k"
  define k2 where "k2 = (if \<not> dpush (dh k i) then upd_q (\<lambda>x. x\<lparr>sharedBusy := sharedBusy x - 1\<rparr>) ?k1 else ?k1)"
  have sel: "domains k2 = domains k" "dn k2 = dn k" "eh k2 = eh k" "\<And>j. ring j k2 = ring j k"
    "\<And>j. dh k2 j = (if j = i then (dh k i)\<lparr>inflight := inflight (dh k i) - 1\<rparr> else dh k j)"
    "queued (queue k2) = queued (queue k)" "sharedQueued (queue k2) = sharedQueued (queue k)"
    "sharedBusy (queue k2) = sharedBusy (queue k) - (if dpush (dh k i) then 0 else 1)"
    by (simp_all add: k2_def)
  have "queue_ok c (remove1 e fl) k2"
  proof (rule queue_step [OF ok i])
    show "dom_fits k i (dh k2 i)"
      by (rule dom_fits_less [OF dom_fits_now [OF ok i]])
        (use dom_fits_now [OF ok i] in \<open>auto simp: sel dom_fits_def\<close>)
    show "ring_ok k2" by (rule ring_same [OF ring]) (simp_all add: sel)
    have srv: "srv k2 x j = srv k x j" for x j by (simp add: srv_def sel)
    have "srv k e j \<longleftrightarrow> j = i" for j using s by (auto simp: srv_def)
    then have "inflight (dh k2 j) = int (length (filter (\<lambda>e. srv k e j) (remove1 e fl)))" if "j < dn k" for j
      using flight that e by (simp add: flight_ok_def sel filter_remove1_count)
    moreover have "inflight (dh k2 j) \<le> busyCap (dh k2 j)" if "j < dn k" for j
      using flight that by (force simp: flight_ok_def sel busyCap_def)
    moreover have "\<forall>x \<in> set (remove1 e fl). \<exists>j. srv k x j"
      using flight set_remove1_subset [of e fl] by (auto simp: flight_ok_def)
    ultimately show "flight_ok (remove1 e fl) k2"
      using flight unfolding flight_ok_def srv by (simp add: sel)
  qed (use queue_marks [OF ok _ i] in \<open>auto simp: sel\<close>)
  moreover have "doneLocked e k = (let d = dh k2 i in
      if d_eps d \<le> 0 \<and> waiting d = 0 \<and> inflight d = 0
      then k2\<lparr>domains := (domains k2)(ep_domain (eh k2 e) := None)\<rparr> else k2)"
    using di by (simp add: doneLocked_def Let_def k2_def)
  ultimately show ?thesis using di delete_domain_ok [of c "remove1 e fl" k2 "ep_domain (eh k e)" i]
    by (auto simp: Let_def sel(1,3))
qed

end
