(* ===== verification/Knock_Registry.thy ===== *)
theory Knock_Registry
  imports Knock_Queue_Inv
begin

text \<open>
  The registrations of the relay's knocker (\<open>relay-live/knock.go\<close>): taking one and forgetting one,
  each with the places where the lock is let go, the caps of the shares, the bell and its floor, the
  decoys' timers, endpoints that are gone, the sweep; and loading the table (\<open>knock_store.go\<close>).

  What the code draws from its random source comes in the record \<open>rnd\<close>, one per call. A function that
  calls back into the limits (\<open>newReg\<close>) threads their state, of type \<open>'l\<close>.
\<close>

section \<open>Random draws\<close>

record rnd =
  r_first :: int
  r_trail :: int
  r_run_wait :: int
  r_pause :: rat
  r_pause_wait :: int
  r_run :: "nat \<Rightarrow> rat"
  r_exp :: rat
  r_recheck :: int

text \<open>\<open>Int64N(n)\<close> is at least 0 and below \<open>n\<close>; an exponential draw is not negative.\<close>

definition rnd_ok :: "rnd \<Rightarrow> bool" where
  "rnd_ok R \<longleftrightarrow> 0 \<le> r_first R \<and> r_first R < 9 * minute \<and> 0 \<le> r_trail R \<and> r_trail R < knockTrail \<and>
     0 \<le> r_run_wait R \<and> r_run_wait R < knockTrail \<and> 0 \<le> r_pause_wait R \<and> r_pause_wait R < 8 * minute \<and>
     0 \<le> r_exp R \<and> 0 \<le> r_recheck R \<and> r_recheck R < knockNewFailGap div 2"

definition knockDecoyShortMore :: rat where "knockDecoyShortMore = 4 / 10"
definition knockDecoyLongMore :: rat where "knockDecoyLongMore = 65 / 100"
definition knockDecoyLongRuns :: rat where "knockDecoyLongRuns = 5 / 10"
definition knockDecoyPause :: rat where "knockDecoyPause = 15 / 100"
definition knockDecoyMaxRun :: nat where "knockDecoyMaxRun = 30"

function decoy_more :: "rat \<Rightarrow> (nat \<Rightarrow> rat) \<Rightarrow> nat \<Rightarrow> nat \<Rightarrow> nat" where
  "decoy_more chance u i n =
     (if n < knockDecoyMaxRun \<and> u i < chance then decoy_more chance u (i + 1) (n + 1) else n)"
  by auto
termination by (relation "measure (\<lambda>(_, _, _, n). knockDecoyMaxRun - n)") auto

declare decoy_more.simps [simp del]

definition decoyRun :: "(nat \<Rightarrow> rat) \<Rightarrow> nat" where
  "decoyRun u = (if u 0 < knockDecoyLongRuns then decoy_more knockDecoyLongMore u 1 3
                 else decoy_more knockDecoyShortMore u 1 1)"

definition decoyRunMean :: rat where
  "decoyRunMean =
     (let short = 1 + knockDecoyShortMore / (1 - knockDecoyShortMore);
          long = 3 + knockDecoyLongMore / (1 - knockDecoyLongMore)
      in (1 - knockDecoyLongRuns) * short + knockDecoyLongRuns * long)"

section \<open>Timers and the bell\<close>

definition after :: "nanos \<Rightarrow> nanos \<Rightarrow> timer \<Rightarrow> knocker \<Rightarrow> knocker" where
  "after now wait f k = k\<lparr>timers := timers k @ [(now + wait, f)]\<rparr>"

definition decoyAfterLocked :: "nanos \<Rightarrow> ep_id \<Rightarrow> nanos \<Rightarrow> knocker \<Rightarrow> knocker" where
  "decoyAfterLocked now e wait k =
     (let k = upd_ep e (\<lambda>p. p\<lparr>decoyGen := decoyGen p + 1, decoyAt := now + wait\<rparr>) k
      in after now wait (DecoyDue e (decoyGen (eh k e))) k)"

definition decoyGap :: "knock_cfg \<Rightarrow> rat \<Rightarrow> nanos" where
  "decoyGap c x = \<lfloor>x * of_int (decoyMean c)\<rfloor>"

definition decoyLocked :: "knock_cfg \<Rightarrow> nanos \<Rightarrow> rnd \<Rightarrow> ep_id \<Rightarrow> knocker \<Rightarrow> knocker" where
  "decoyLocked c now R e k = decoyAfterLocked now e (decoyGap c (r_exp R)) k"

text \<open>When a new endpoint that fails is tried again.\<close>

definition recheck_from :: "knock_cfg \<Rightarrow> knockEP \<Rightarrow> nanos" where
  "recheck_from c ep = lastFail ep + (knockNewFailGap + kfloor c)"

definition recheck_at :: "knock_cfg \<Rightarrow> nanos \<Rightarrow> rnd \<Rightarrow> knockEP \<Rightarrow> nanos" where
  "recheck_at c now R ep =
     (let at0 = recheck_from c ep;
          at1 = (if fails ep \<ge> knockNewFailAtLeast - 1
                   \<and> failingSince ep + (knockNewFailSpan + kfloor c) > at0
                 then failingSince ep + (knockNewFailSpan + kfloor c) else at0);
          at2 = (if now + kfloor c > at1 then now + kfloor c else at1)
      in at2 + r_recheck R)"

definition recheckLocked :: "knock_cfg \<Rightarrow> nanos \<Rightarrow> rnd \<Rightarrow> ep_id \<Rightarrow> knocker \<Rightarrow> knocker" where
  "recheckLocked c now R e k =
     (let ep = eh k e
      in if delivered ep \<or> fails ep = 0 \<or> now - failingSince ep \<ge> knockNewFailFor then k
         else let due = recheck_at c now R ep
              in if decoyAt ep < recheck_from c ep \<or> decoyAt ep > due
                 then decoyAfterLocked now e (due - now) k else k)"

text \<open>\<open>ringLocked\<close>: true when a knock went into the queue now.\<close>

definition ringLocked :: "knock_cfg \<Rightarrow> nanos \<Rightarrow> rnd \<Rightarrow> ep_id \<Rightarrow> bool \<Rightarrow> knocker \<Rightarrow> bool \<times> knocker" where
  "ringLocked c now R e decoy k =
     (if trailing (eh k e) then (False, k)
      else let wait = ep_last (eh k e) + kfloor c - now
           in if wait > 0 then
                (if decoy then (False, k)
                 else (False, after now (wait + r_trail R) (Trail e) (upd_ep e (\<lambda>p. p\<lparr>trailing := True\<rparr>) k)))
              else (True, addLocked c now e decoy (upd_ep e (\<lambda>p. p\<lparr>ep_last := now\<rparr>) k)))"

definition trail :: "knock_cfg \<Rightarrow> nanos \<Rightarrow> ep_id \<Rightarrow> knocker \<Rightarrow> knocker" where
  "trail c now e k =
     (let k = upd_ep e (\<lambda>p. p\<lparr>trailing := False\<rparr>) k
      in if \<not> live k e then k
         else addLocked c now e False (upd_ep e (\<lambda>p. p\<lparr>ep_last := now\<rparr>) k))"

definition decoyRunLocked :: "knock_cfg \<Rightarrow> nanos \<Rightarrow> rnd \<Rightarrow> ep_id \<Rightarrow> int \<Rightarrow> int \<Rightarrow> knocker \<Rightarrow> knocker" where
  "decoyRunLocked c now R e gen left k =
     (if left \<le> 0 then k
      else let wait = (if r_pause R < knockDecoyPause then kfloor c + knockTrail + r_pause_wait R
                       else kfloor c + r_run_wait R)
           in after now wait (DecoyRun e gen left) k)"

text \<open>The closure of \<open>decoyRunLocked\<close>.\<close>

definition decoyRunFire :: "knock_cfg \<Rightarrow> nanos \<Rightarrow> rnd \<Rightarrow> ep_id \<Rightarrow> int \<Rightarrow> int \<Rightarrow> knocker \<Rightarrow> knocker" where
  "decoyRunFire c now R e gen left k =
     (if \<not> live k e \<or> runGen (eh k e) \<noteq> gen then k
      else let (rang, k) = ringLocked c now R e True k
           in if rang then decoyRunLocked c now R e gen (left - 1) k else k)"

definition decoyDue :: "knock_cfg \<Rightarrow> nanos \<Rightarrow> rnd \<Rightarrow> ep_id \<Rightarrow> int \<Rightarrow> knocker \<Rightarrow> knocker" where
  "decoyDue c now R e gen k =
     (if \<not> live k e \<or> decoyGen (eh k e) \<noteq> gen then k
      else let k = upd_ep e (\<lambda>p. p\<lparr>runGen := runGen p + 1\<rparr>) k;
               (rang, k) = ringLocked c now R e True k;
               k = (if rang then decoyRunLocked c now R e (runGen (eh k e)) (int (decoyRun (r_run R)) - 1) k
                    else k)
           in recheckLocked c now R e (decoyLocked c now R e k))"

text \<open>A timer fires.\<close>

definition fire :: "knock_cfg \<Rightarrow> nanos \<Rightarrow> rnd \<Rightarrow> timer \<Rightarrow> knocker \<Rightarrow> knocker" where
  "fire c now R t k = (case t of
     DecoyDue e gen \<Rightarrow> decoyDue c now R e gen k
   | DecoyRun e gen left \<Rightarrow> decoyRunFire c now R e gen left k
   | Trail e \<Rightarrow> trail c now e k)"

definition wrapFor :: "knock_cfg \<Rightarrow> nanos \<Rightarrow> rnd \<Rightarrow> string \<Rightarrow> knocker \<Rightarrow> knocker" where
  "wrapFor c now R addr k = (case regs k (knockKey (lib c) addr) of
     None \<Rightarrow> k
   | Some reg \<Rightarrow> if expires reg \<le> to_unix now then k else snd (ringLocked c now R (rep reg) False k))"

definition stored :: "knock_cfg \<Rightarrow> nanos \<Rightarrow> rnd \<Rightarrow> nevent \<Rightarrow> knocker \<Rightarrow> knocker" where
  "stored c now R ev k =
     (if evKind ev \<noteq> wrapKind then k
      else foldl (\<lambda>k t. if length t \<ge> 2 \<and> t ! 0 = ''p'' then wrapFor c now R (t ! 1) k else k) k (evTags ev))"

section \<open>Keeping and dropping\<close>

definition settledLocked :: "knock_cfg \<Rightarrow> nanos \<Rightarrow> ep_id \<Rightarrow> knocker \<Rightarrow> knocker" where
  "settledLocked c now e k =
     (let dom = ep_domain (eh k e); k = shareOf c now dom k
      in if e \<notin> sh_pending (the_share c dom k) then k
         else let k = upd_share (share_name c dom) (\<lambda>s. s\<lparr>sh_pending := sh_pending s - {e}\<rparr>) k;
                  k = (case domains k dom of
                         None \<Rightarrow> k
                       | Some i \<Rightarrow> upd_dom i (\<lambda>d. d\<lparr>d_pending := d_pending d - 1,
                           d_unchecked := d_unchecked d - (if ep_unchecked (eh k e) then 1 else 0)\<rparr>) k)
              in upd_ep e (\<lambda>p. p\<lparr>ep_unchecked := False\<rparr>) k)"

definition dropEPLocked :: "knock_cfg \<Rightarrow> nanos \<Rightarrow> ep_id \<Rightarrow> knocker \<Rightarrow> knocker" where
  "dropEPLocked c now e k =
     (if \<not> live k e then k
      else let dom = ep_domain (eh k e);
               k = k\<lparr>eps := (eps k)(ep_url (eh k e) := None)\<rparr>;
               k = upd_ep e (\<lambda>p. p\<lparr>decoyGen := decoyGen p + 1, runGen := runGen p + 1\<rparr>) k;
               k = settledLocked c now e k;
               k = upd_share (share_name c dom) (\<lambda>s. s\<lparr>sh_eps := sh_eps s - 1\<rparr>) (shareOf c now dom k)
           in case domains k dom of
                None \<Rightarrow> k
              | Some i \<Rightarrow>
                  let k = forgetLocked i e (upd_dom i (\<lambda>d. d\<lparr>d_eps := d_eps d - 1\<rparr>) k); d = dh k i
                  in if d_eps d \<le> 0 \<and> waiting d = 0 \<and> inflight d = 0
                     then k\<lparr>domains := (domains k)(dom := None)\<rparr> else k)"

definition dropLocked :: "knock_cfg \<Rightarrow> nanos \<Rightarrow> key \<Rightarrow> knocker \<Rightarrow> knocker" where
  "dropLocked c now key k = (case regs k key of
     None \<Rightarrow> k
   | Some reg \<Rightarrow>
       let e = rep reg; dom = ep_domain (eh k e);
           k = k\<lparr>regs := (regs k)(key := None)\<rparr>;
           k = upd_ep e (\<lambda>p. p\<lparr>ep_keys := ep_keys p - {key}\<rparr>) k;
           k = (case domains k dom of
                  None \<Rightarrow> k | Some i \<Rightarrow> upd_dom i (\<lambda>d. d\<lparr>d_regs := d_regs d - 1\<rparr>) k);
           k = upd_share (share_name c dom) (\<lambda>s. s\<lparr>sh_regs := sh_regs s - 1\<rparr>) (shareOf c now dom k)
       in if ep_keys (eh k e) = {} then dropEPLocked c now e k else k)"

text \<open>The new endpoint of \<open>setLocked\<close>: its number is the next free one.\<close>

definition takeEP :: "knock_cfg \<Rightarrow> nanos \<Rightarrow> rnd \<Rightarrow> string \<Rightarrow> knocker \<Rightarrow> ep_id \<times> knocker" where
  "takeEP c now R endpoint k =
     (let e = en k; dom = domain_of (lib c) endpoint;
          k = k\<lparr>eps := (eps k)(endpoint \<mapsto> e), eh := (eh k)(e := new_ep endpoint dom now), en := en k + 1\<rparr>;
          (i, k) = domainLocked c now dom k;
          k = upd_dom i (\<lambda>d. d\<lparr>d_eps := d_eps d + 1\<rparr>) k;
          k = upd_share (share_name c dom)
                (\<lambda>s. s\<lparr>sh_eps := sh_eps s + 1, sh_pending := insert e (sh_pending s)\<rparr>) (shareOf c now dom k);
          k = upd_dom i (\<lambda>d. d\<lparr>d_pending := d_pending d + 1\<rparr>) k
      in (e, decoyAfterLocked now e (minute + r_first R) k))"

text \<open>The rest of \<open>setLocked\<close>, once a registration elsewhere is dropped.\<close>

definition bind_reg ::
  "knock_cfg \<Rightarrow> nanos \<Rightarrow> rnd \<Rightarrow> key \<Rightarrow> string \<Rightarrow> unix \<Rightarrow> unix \<Rightarrow> unix \<Rightarrow> knocker \<Rightarrow> knocker" where
  "bind_reg c now R key endpoint m ex first k =
     (let (e, k) = (case eps k endpoint of Some e \<Rightarrow> (e, k) | None \<Rightarrow> takeEP c now R endpoint k);
          dom = ep_domain (eh k e);
          (i, k) = domainLocked c now dom k;
          k = upd_ep e (\<lambda>p. p\<lparr>ep_keys := insert key (ep_keys p)\<rparr>) k;
          k = upd_dom i (\<lambda>d. d\<lparr>d_regs := d_regs d + 1\<rparr>) k;
          k = upd_share (share_name c dom) (\<lambda>s. s\<lparr>sh_regs := sh_regs s + 1\<rparr>) (shareOf c now dom k)
      in k\<lparr>regs := (regs k)(key \<mapsto> \<lparr>rep = e, made = m, expires = ex, rfirst = first\<rparr>)\<rparr>)"

definition setLocked ::
  "knock_cfg \<Rightarrow> nanos \<Rightarrow> rnd \<Rightarrow> key \<Rightarrow> string \<Rightarrow> unix \<Rightarrow> unix \<Rightarrow> knocker \<Rightarrow> knocker" where
  "setLocked c now R key endpoint m ex k =
     (case regs k key of
        Some old \<Rightarrow>
          if ep_url (eh k (rep old)) = endpoint
          then k\<lparr>regs := (regs k)(key \<mapsto> old\<lparr>made := m, expires := ex\<rparr>)\<rparr>
          else bind_reg c now R key endpoint m ex (rfirst old) (dropLocked c now key k)
      | None \<Rightarrow> bind_reg c now R key endpoint m ex (to_unix now) k)"

text \<open>\<open>gone\<close>, with the endpoint's keys in the order they are listed.\<close>

definition gone :: "knock_cfg \<Rightarrow> nanos \<Rightarrow> key list \<Rightarrow> string \<Rightarrow> knocker \<Rightarrow> knocker" where
  "gone c now keys endpoint k = (case eps k endpoint of
     None \<Rightarrow> k
   | Some e \<Rightarrow>
       let k = foldl (\<lambda>k key. store_put key [] 0 0 0 False (dropLocked c now key k)) k keys;
           k = dropEPLocked c now e k
       in k\<lparr>stats := (stats k)\<lparr>st_gone := st_gone (stats k) + 1\<rparr>\<rparr>)"

section \<open>The sweep\<close>

text \<open>The first part of \<open>tick\<close>: endpoints a day old are no longer new. The pairs are the shares' pending
  endpoints in the order they are walked.\<close>

definition tick_settle :: "knock_cfg \<Rightarrow> nanos \<Rightarrow> (string \<times> ep_id) list \<Rightarrow> knocker \<Rightarrow> knocker" where
  "tick_settle c now order k =
     foldl (\<lambda>k (n, e). case shares k n of
        Some sh \<Rightarrow> if e \<in> sh_pending sh \<and> now - born (eh k e) \<ge> knockTrustAfter
                   then settledLocked c now e k else k
      | None \<Rightarrow> k) k order"

text \<open>One chunk, under the lock: the keys of the registrations and of the forgets as they are walked,
  and how many were let go so far.\<close>

definition sweep_reg :: "knock_cfg \<Rightarrow> nanos \<Rightarrow> int \<times> knocker \<Rightarrow> key \<Rightarrow> int \<times> knocker" where
  "sweep_reg c now = (\<lambda>(n, k) key.
     if n \<ge> knockSweepChunk then (n, k)
     else case regs k key of
       Some reg \<Rightarrow> if expires reg \<le> to_unix now
                   then (n + 1, store_putSweep key (dropLocked c now key k)) else (n, k)
     | None \<Rightarrow> (n, k))"

definition sweep_forget :: "nanos \<Rightarrow> int \<times> knocker \<Rightarrow> key \<Rightarrow> int \<times> knocker" where
  "sweep_forget now = (\<lambda>(n, k) key.
     if n \<ge> knockSweepChunk then (n, k)
     else case forgets k key of
       Some m \<Rightarrow> if m + knockSkew div second \<le> to_unix now
                 then (n + 1, store_putSweep key (k\<lparr>forgets := (forgets k)(key := None)\<rparr>)) else (n, k)
     | None \<Rightarrow> (n, k))"

definition tick_chunk :: "knock_cfg \<Rightarrow> nanos \<Rightarrow> key list \<Rightarrow> key list \<Rightarrow> knocker \<Rightarrow> int \<times> knocker" where
  "tick_chunk c now rkeys fkeys k =
     foldl (sweep_forget now) (foldl (sweep_reg c now) (0, k) rkeys) fkeys"

text \<open>The loop: another chunk while the last one was full. Each chunk has its time and its orders.\<close>

fun tick_loop :: "knock_cfg \<Rightarrow> (nanos \<times> key list \<times> key list) list \<Rightarrow> knocker \<Rightarrow> knocker" where
  "tick_loop c [] k = k"
| "tick_loop c ((now, rkeys, fkeys) # cs) k =
     (let (n, k) = tick_chunk c now rkeys fkeys k
      in if n < knockSweepChunk then k else tick_loop c cs k)"

section \<open>Taking and forgetting\<close>

definition keptLocked :: "key \<Rightarrow> knocker \<Rightarrow> (unix \<times> bool) option" where
  "keptLocked key k =
     (let r = (case regs k key of Some r \<Rightarrow> Some (made r) | None \<Rightarrow> None)
      in case forgets k key of
           Some f \<Rightarrow> (case r of
                       None \<Rightarrow> Some (f, True)
                     | Some m \<Rightarrow> if f \<ge> m then Some (f, True) else Some (m, False))
         | None \<Rightarrow> (case r of None \<Rightarrow> None | Some m \<Rightarrow> Some (m, False)))"

definition isKey :: "string \<Rightarrow> bool" where
  "isKey s \<longleftrightarrow> length s = 64 \<and> hex_decode s \<noteq> None"

text \<open>The caps of a share: the last twentieth is for addresses already registered.\<close>

definition share_full :: "bool \<Rightarrow> int \<Rightarrow> int \<Rightarrow> bool" where
  "share_full registered n mx = (if registered then n \<ge> mx else n \<ge> mx - mx div 20)"

definition msg_full_eps :: string where
  "msg_full_eps = ''error: this push server has all the endpoints it may''"
definition msg_new_eps :: string where
  "msg_new_eps = ''error: too many new endpoints on this push server, try later''"
definition msg_full_ep :: string where
  "msg_full_ep = ''error: too many addresses on one endpoint''"
definition msg_full_regs :: string where
  "msg_full_regs = ''error: this push server has all the addresses it may''"
definition msg_not_newer :: string where
  "msg_not_newer = ''duplicate: not newer than what is kept''"

definition check_room :: "knock_cfg \<Rightarrow> key \<Rightarrow> string \<Rightarrow> string \<Rightarrow> knocker \<Rightarrow> answer" where
  "check_room c key endpoint domain k =
     (let registered = regs k key \<noteq> None; epo = eps k endpoint;
          name = share_name c domain; sh = the_share c domain k;
          d = map_option (dh k) (domains k domain);
          over = (\<lambda>f mx. name = [] \<and> (case d of Some d \<Rightarrow> f d \<ge> mx | None \<Rightarrow> False));
          regs_full = (if share_full registered (sh_regs sh) (regCap sh) \<or> over d_regs (serverRegs c)
                       then Refused msg_full_regs else Taken)
      in case epo of
           None \<Rightarrow>
             if share_full registered (sh_eps sh) (epCap sh) \<or> over d_eps (serverEPs c)
             then Refused msg_full_eps
             else if name \<noteq> [] \<and> int (card (sh_pending sh)) \<ge> pendingCap sh
                     \<or> over d_pending (serverEPs c div 4)
             then Refused msg_new_eps
             else regs_full
         | Some e \<Rightarrow> if card (ep_keys (eh k e)) \<ge> maxRegsPerEP then Refused msg_full_ep else regs_full)"

definition checkLocked :: "knock_cfg \<Rightarrow> nanos \<Rightarrow> nevent \<Rightarrow> knocker \<Rightarrow> answer \<times> knocker" where
  "checkLocked c now ev k =
     (if evTags ev \<noteq> [] then (Refused ''invalid: a knock registration has no tags'', k)
      else if \<not> isKey (pubKey ev) then (Refused ''invalid: bad address'', k)
      else if of_unix (createdAt ev) < now - knockSkew \<or> of_unix (createdAt ev) > now + knockSkew
        then (Refused ''invalid: created_at is too far from now'', k)
      else let forget = evContent ev = []
        in if \<not> forget \<and> \<not> endpointOK (lib c) (onions c) (ports c) (evContent ev)
           then (Refused ''invalid: this endpoint cannot be knocked'', k)
           else let key = knockKey (lib c) (pubKey ev); m = createdAt ev
             in if (case keptLocked key k of
                      Some (kept, wasForget) \<Rightarrow> m < kept \<or> m = kept \<and> \<not> (forget \<and> \<not> wasForget)
                    | None \<Rightarrow> False)
                then (Refused msg_not_newer, k)
                else if forget then (Taken, k)
                else if (case regs k key of Some r \<Rightarrow> eps k (evContent ev) = Some (rep r) | None \<Rightarrow> False)
                then (Taken, k)
                else let domain = domain_of (lib c) (evContent ev); k = shareOf c now domain k
                     in (check_room c key (evContent ev) domain k, k))"

datatype take_step = TakeAnswer answer | TakeLookup string bool

text \<open>What \<open>take\<close> keeps, once nothing refuses it any more.\<close>

definition take_keep :: "knock_cfg \<Rightarrow> nanos \<Rightarrow> rnd \<Rightarrow> nevent \<Rightarrow> bool \<Rightarrow> knocker \<Rightarrow> knocker" where
  "take_keep c now R ev unchecked k =
     (let key = knockKey (lib c) (pubKey ev); m = createdAt ev;
          k = k\<lparr>forgets := (forgets k)(key := None)\<rparr>;
          k = setLocked c now R key (evContent ev) m (to_unix (of_unix m + knockTTL)) k;
          r = the (regs k key); e = rep r;
          domain = knockDomainOf (lib c) (host_of (lib c) (evContent ev));
          k = (if unchecked \<and> e \<in> sh_pending (the_share c domain k) \<and> \<not> ep_unchecked (eh k e)
               then let (i, k) = domainLocked c now (ep_domain (eh k e)) k
                    in upd_dom i (\<lambda>d. d\<lparr>d_unchecked := d_unchecked d + 1\<rparr>)
                         (upd_ep e (\<lambda>p. p\<lparr>ep_unchecked := True\<rparr>) k)
               else k)
      in store_put key (evContent ev) m (expires r) (to_unix (born (eh k e))) (delivered (eh k e)) k)"

text \<open>\<open>take\<close> up to its end, or to where it lets the lock go for the name's lookup. \<open>newReg\<close> takes a new registration
  out of the connection's budget.\<close>

definition take_begin ::
  "knock_cfg \<Rightarrow> nanos \<Rightarrow> rnd \<Rightarrow> ('l \<Rightarrow> bool \<times> 'l) \<Rightarrow> nevent \<Rightarrow> knocker \<Rightarrow> 'l \<Rightarrow> take_step \<times> knocker \<times> 'l" where
  "take_begin c now R newReg ev k l =
     (case checkLocked c now ev k of
        (Refused msg, k) \<Rightarrow> (TakeAnswer (Refused msg), k, l)
      | (Taken, k) \<Rightarrow>
          let reg = regs k (knockKey (lib c) (pubKey ev)); epo = eps k (evContent ev);
              host = host_of (lib c) (evContent ev); domain = knockDomainOf (lib c) host;
              k = shareOf c now domain k;
              moves = (case reg of None \<Rightarrow> True | Some r \<Rightarrow> epo \<noteq> Some (rep r));
              (ok, l) = (if moves then newReg l else (True, l))
          in if \<not> ok
             then (TakeAnswer (Refused ''rate-limited: too many new registrations at once''), k, l)
             else let grows = reg = None \<or> epo = None;
                      (got, b) = (if grows then take1 (fresh (the_share c domain k)) now
                                  else (True, fresh (the_share c domain k)));
                      k = (if grows then upd_share (share_name c domain) (\<lambda>s. s\<lparr>fresh := b\<rparr>) k else k)
                  in if \<not> got
                     then (TakeAnswer (Refused
                       ''error: too many new registrations on this push server, try later''), k, l)
                     else if domain \<notin> pushHosts c \<and> epo = None \<and> \<not> has_suffix host ''.onion''
                     then (TakeLookup host grows, k, l)
                     else (TakeAnswer Taken, take_keep c now R ev False k, l))"

text \<open>\<open>take\<close> from where the lock is held again: the name's answer, everything checked again, and what is
  taken from the share's hour given back on a refusal.\<close>

definition take_resume ::
  "knock_cfg \<Rightarrow> nanos \<Rightarrow> rnd \<Rightarrow> nevent \<Rightarrow> bool \<Rightarrow> string \<times> bool \<Rightarrow> knocker \<Rightarrow> answer \<times> knocker" where
  "take_resume c now R ev tookFresh name_answer k =
     (let domain = knockDomainOf (lib c) (host_of (lib c) (evContent ev));
          (ans, k) = (if fst name_answer = [] then checkLocked c now ev k
                      else (Refused (fst name_answer), k));
          ans = (if ans = Taken \<and> \<not> snd name_answer
                    \<and> (case domains k domain of Some i \<Rightarrow> d_unchecked (dh k i) \<ge> knockUncheckedEPs | None \<Rightarrow> False)
                 then Refused msg_new_eps else ans)
      in case ans of
           Refused msg \<Rightarrow>
             (Refused msg, if tookFresh then upd_share (share_name c domain) (\<lambda>s. s\<lparr>fresh := give_back (fresh s)\<rparr>) k
                           else k)
         | Taken \<Rightarrow> (Taken, take_keep c now R ev (\<not> snd name_answer) k))"

text \<open>\<open>takeForget\<close> up to the write: \<open>None\<close> when there is something to write.\<close>

definition forget_begin :: "knock_cfg \<Rightarrow> nanos \<Rightarrow> nevent \<Rightarrow> knocker \<Rightarrow> answer option \<times> knocker" where
  "forget_begin c now ev k =
     (case checkLocked c now ev k of
        (Refused msg, k) \<Rightarrow> (Some (Refused msg), k)
      | (Taken, k) \<Rightarrow> (if regs k (knockKey (lib c) (pubKey ev)) = None then Some Taken else None, k))"

text \<open>And after it: \<open>written\<close> is the store's answer, empty once the forget is on disk.\<close>

definition forget_finish :: "knock_cfg \<Rightarrow> nanos \<Rightarrow> nevent \<Rightarrow> string \<Rightarrow> knocker \<Rightarrow> answer \<times> knocker" where
  "forget_finish c now ev written k =
     (if written \<noteq> [] then (Refused written, k)
      else let key = knockKey (lib c) (pubKey ev); m = createdAt ev
        in if (case keptLocked key k of Some (kept, _) \<Rightarrow> kept > m | None \<Rightarrow> False)
           then (Refused msg_not_newer, k)
           else let k = (case regs k key of
                           Some reg \<Rightarrow>
                             if to_unix now - rfirst reg < 3600
                             then let dom = ep_domain (eh k (rep reg))
                                  in upd_share (share_name c dom) (\<lambda>s. s\<lparr>fresh := give_back (fresh s)\<rparr>)
                                       (shareOf c now dom k)
                             else k
                         | None \<Rightarrow> k);
                    k = dropLocked c now key k
                in (Taken, k\<lparr>forgets := (forgets k)(key \<mapsto> m)\<rparr>))"


text \<open>\<open>take\<close> for one caller with nothing in between: \<open>look\<close> is \<open>nameCheck\<close>'s answer for a host and \<open>write\<close> the
  store's for the forget.\<close>

definition knock_take ::
  "knock_cfg \<Rightarrow> nanos \<Rightarrow> rnd \<Rightarrow> ('l \<Rightarrow> bool \<times> 'l) \<Rightarrow> (string \<Rightarrow> string \<times> bool) \<Rightarrow> string \<Rightarrow> nevent
     \<Rightarrow> knocker \<Rightarrow> 'l \<Rightarrow> answer \<times> knocker \<times> 'l" where
  "knock_take c now R newReg look write ev k l =
     (if evContent ev = [] then
        (case forget_begin c now ev k of
           (Some ans, k) \<Rightarrow> (ans, k, l)
         | (None, k) \<Rightarrow> (let (ans, k) = forget_finish c now ev write k in (ans, k, l)))
      else case take_begin c now R newReg ev k l of
             (TakeAnswer ans, k, l) \<Rightarrow> (ans, k, l)
           | (TakeLookup host tookFresh, k, l) \<Rightarrow>
               (let (ans, k) = take_resume c now R ev tookFresh (look host) k in (ans, k, l)))"

section \<open>A restart\<close>

text \<open>A row of the table, its key as the bytes read.\<close>

record knock_row =
  row_addr :: string
  row_ep :: string
  row_made :: unix
  row_expires :: unix
  row_born :: unix
  row_proven :: bool

definition load_row :: "knock_cfg \<Rightarrow> nanos \<Rightarrow> (nat \<Rightarrow> rnd) \<Rightarrow> knocker \<Rightarrow> nat \<times> knock_row \<Rightarrow> knocker" where
  "load_row c now Rs k = (\<lambda>(n, row).
     if length (row_addr row) \<noteq> 32 then k
     else if row_ep row = [] then k\<lparr>forgets := (forgets k)(row_addr row \<mapsto> row_made row)\<rparr>
     else if \<not> endpointOK (lib c) (onions c) (ports c) (row_ep row) then k
     else let key = row_addr row;
              k = setLocked c now (Rs n) key (row_ep row) (row_made row) (row_expires row) k;
              k = k\<lparr>regs := (regs k)(key \<mapsto> (the (regs k key))\<lparr>rfirst := 0\<rparr>)\<rparr>;
              e = the (eps k (row_ep row));
              b = of_unix (if row_born row \<le> 0 then row_made row else row_born row);
              k = (if b < born (eh k e) then upd_ep e (\<lambda>p. p\<lparr>born := b\<rparr>) k else k);
              k = (if row_proven row \<and> \<not> delivered (eh k e)
                   then settledLocked c now e (upd_ep e (\<lambda>p. p\<lparr>delivered := True\<rparr>) k) else k)
          in decoyLocked c now (Rs n) e k)"

text \<open>\<open>load\<close> from the rows left once those expired are deleted.\<close>

definition knock_load :: "knock_cfg \<Rightarrow> nanos \<Rightarrow> (nat \<Rightarrow> rnd) \<Rightarrow> knock_row list \<Rightarrow> knocker \<Rightarrow> knocker" where
  "knock_load c now Rs rows k =
     foldl (load_row c now Rs) k (List.enumerate 0 (filter (\<lambda>r. row_expires r > to_unix now) rows))"

definition no_stats :: knockStats where
  "no_stats = \<lparr>st_real = 0, st_decoys = 0, st_failed = 0, st_dropped = 0, st_gone = 0\<rparr>"

definition newKnocker :: "knock_cfg \<Rightarrow> nanos \<Rightarrow> knocker" where
  "newKnocker c now =
     \<lparr>regs = Map.empty, forgets = Map.empty, eps = Map.empty, domains = Map.empty, shares = Map.empty,
      eh = (\<lambda>_. new_ep [] [] time_zero), en = 0, dh = (\<lambda>_. new_domain c now []), dn = 0,
      queue = \<lparr>qpush = [], qshared = [], turn = False, sharedQueued = 0, sharedBusy = 0, queued = 0,
        qrate = newBucket now (of_int (knockPerSec c)) (of_int (knockPerSec c) * 10), ipBusy = (\<lambda>_. 0)\<rparr>,
      timers = [], store_ch = [], store_dropped = 0, stats = no_stats\<rparr>"

end
