(* ===== verification/Knock_Registry_Inv.thy ===== *)
theory Knock_Registry_Inv
  imports Knock_Registry
begin

text \<open>
  The invariant of the knocker's registrations: every registration names a live endpoint, every
  endpoint knows exactly its addresses, and each counter of a push server or a share is the number of
  things it stands for. All the operations of \<open>Knock_Registry\<close> keep it, together with the queue's.
\<close>

section \<open>Counts\<close>

definition cnt :: "('v \<Rightarrow> bool) \<Rightarrow> 'v option \<Rightarrow> int" where
  "cnt P x = (case x of Some v \<Rightarrow> of_bool (P v) | None \<Rightarrow> 0)"

lemma cnt_simps [simp]: "cnt P None = 0" "cnt P (Some v) = of_bool (P v)"
  by (simp_all add: cnt_def)

text \<open>A map changes at one key, and the predicate only for what is there.\<close>

lemma count_map_step:
  assumes "finite (dom m)" and "\<And>k. k \<noteq> k0 \<Longrightarrow> m' k = m k"
    and "\<And>k v. k \<noteq> k0 \<Longrightarrow> m k = Some v \<Longrightarrow> Q v = P v"
  shows "count_map Q m' = count_map P m - cnt P (m k0) + cnt Q (m' k0)"
proof -
  let ?r = "m(k0 := None)"
  have r: "finite (dom ?r)" "?r k0 = None" using assms(1) by simp_all
  have m': "m' = ?r(k0 := m' k0)" using assms(2) by (intro ext) simp
  have "count_map Q m' = count_map Q ?r + cnt Q (m' k0)"
  proof (cases "m' k0")
    case None
    then have "m' = ?r" using m' by simp
    then show ?thesis using None by simp
  next
    case (Some v)
    then have "m' = ?r(k0 \<mapsto> v)" using m' by simp
    then show ?thesis using count_map_insert [OF r, of Q v] Some by (simp only: cnt_simps of_bool_def)
  qed
  also have "count_map Q ?r = count_map P ?r"
    by (rule count_map_cong) (use assms(3) in \<open>auto split: if_splits\<close>)
  also have "count_map P ?r = count_map P m - cnt P (m k0)"
  proof (cases "m k0")
    case None
    then have "?r = m" by auto
    then show ?thesis using None by simp
  next
    case (Some v)
    then show ?thesis using count_map_delete [OF assms(1) Some, of P] by simp
  qed
  finally show ?thesis .
qed

definition pend :: "knock_cfg \<Rightarrow> knocker \<Rightarrow> ep_id \<Rightarrow> bool" where
  "pend c k e \<longleftrightarrow> (case shares k (share_name c (ep_domain (eh k e))) of
     Some sh \<Rightarrow> e \<in> sh_pending sh | None \<Rightarrow> False)"

definition n_eps :: "knocker \<Rightarrow> string \<Rightarrow> int" where
  "n_eps k n = count_map (\<lambda>e. ep_domain (eh k e) = n) (eps k)"
definition n_regs :: "knocker \<Rightarrow> string \<Rightarrow> int" where
  "n_regs k n = count_map (\<lambda>r. ep_domain (eh k (rep r)) = n) (regs k)"
definition n_pending :: "knock_cfg \<Rightarrow> knocker \<Rightarrow> string \<Rightarrow> int" where
  "n_pending c k n = count_map (\<lambda>e. ep_domain (eh k e) = n \<and> pend c k e) (eps k)"
definition n_unchecked :: "knock_cfg \<Rightarrow> knocker \<Rightarrow> string \<Rightarrow> int" where
  "n_unchecked c k n = count_map (\<lambda>e. ep_domain (eh k e) = n \<and> pend c k e \<and> ep_unchecked (eh k e)) (eps k)"
definition s_eps :: "knock_cfg \<Rightarrow> knocker \<Rightarrow> string \<Rightarrow> int" where
  "s_eps c k s = count_map (\<lambda>e. share_name c (ep_domain (eh k e)) = s) (eps k)"
definition s_regs :: "knock_cfg \<Rightarrow> knocker \<Rightarrow> string \<Rightarrow> int" where
  "s_regs c k s = count_map (\<lambda>r. share_name c (ep_domain (eh k (rep r))) = s) (regs k)"

section \<open>The invariant\<close>

text \<open>\<open>X\<close> are endpoints that may have no address for the moment.\<close>

definition links_ok :: "ep_id set \<Rightarrow> knocker \<Rightarrow> bool" where
  "links_ok X k \<longleftrightarrow>
     finite (dom (regs k)) \<and> finite (dom (eps k)) \<and>
     (\<forall>u e. eps k u = Some e \<longrightarrow> e < en k \<and> ep_url (eh k e) = u \<and>
        ep_keys (eh k e) = {key. \<exists>r. regs k key = Some r \<and> rep r = e} \<and> (e \<notin> X \<longrightarrow> ep_keys (eh k e) \<noteq> {})) \<and>
     (\<forall>key r. regs k key = Some r \<longrightarrow> live k (rep r))"

definition servers_ok :: "knock_cfg \<Rightarrow> knocker \<Rightarrow> bool" where
  "servers_ok c k \<longleftrightarrow>
     (\<forall>n i. domains k n = Some i \<longrightarrow> d_eps (dh k i) = n_eps k n \<and> d_regs (dh k i) = n_regs k n \<and>
        d_pending (dh k i) = n_pending c k n \<and> d_unchecked (dh k i) = n_unchecked c k n) \<and>
     (\<forall>u e. eps k u = Some e \<longrightarrow> domains k (ep_domain (eh k e)) \<noteq> None)"

definition share_ok :: "knock_cfg \<Rightarrow> knocker \<Rightarrow> string \<Rightarrow> knockShare \<Rightarrow> bool" where
  "share_ok c k s sh \<longleftrightarrow>
     sh_eps sh = s_eps c k s \<and> sh_regs sh = s_regs c k s \<and>
     epCap sh = (if s \<noteq> [] then pushHostEPs c else sharedEPs c) \<and>
     regCap sh = (if s \<noteq> [] then pushHostRegs c else sharedRegs c) \<and>
     (\<forall>e \<in> sh_pending sh. live k e \<and> share_name c (ep_domain (eh k e)) = s)"

definition shares_ok :: "knock_cfg \<Rightarrow> knocker \<Rightarrow> bool" where
  "shares_ok c k \<longleftrightarrow>
     (\<forall>s sh. shares k s = Some sh \<longrightarrow> share_ok c k s sh) \<and>
     (\<forall>u e. eps k u = Some e \<longrightarrow> shares k (share_name c (ep_domain (eh k e))) \<noteq> None)"

definition reg_ok :: "ep_id set \<Rightarrow> knock_cfg \<Rightarrow> knocker \<Rightarrow> bool" where
  "reg_ok X c k \<longleftrightarrow> heap_ok c k \<and> links_ok X k \<and> servers_ok c k \<and> shares_ok c k"

text \<open>The counts as numbers that can be updated: what a server or share that is missing would hold.\<close>

lemma count_map_none: "(\<And>k v. m k = Some v \<Longrightarrow> \<not> P v) \<Longrightarrow> count_map P m = 0"
proof -
  assume "\<And>k v. m k = Some v \<Longrightarrow> \<not> P v"
  then have "{k. \<exists>v. m k = Some v \<and> P v} = {}" by auto
  then show ?thesis by (simp only: count_map_def card.empty of_nat_0)
qed

lemma missing_server_counts:
  assumes "links_ok X k" and "servers_ok c k" and "domains k n = None"
  shows "n_eps k n = 0" "n_regs k n = 0" "n_pending c k n = 0" "n_unchecked c k n = 0"
proof -
  have none: "ep_domain (eh k e) \<noteq> n" if "eps k u = Some e" for u e
    using assms(2,3) that unfolding servers_ok_def by metis
  then show "n_eps k n = 0" "n_pending c k n = 0" "n_unchecked c k n = 0"
    unfolding n_eps_def n_pending_def n_unchecked_def by (auto intro!: count_map_none)
  have "ep_domain (eh k (rep r)) \<noteq> n" if "regs k key = Some r" for key r
    using assms(1) that none unfolding links_ok_def live_def by metis
  then show "n_regs k n = 0" unfolding n_regs_def by (auto intro!: count_map_none)
qed

lemma missing_share_counts:
  assumes "links_ok X k" and "shares_ok c k" and "shares k s = None"
  shows "s_eps c k s = 0" "s_regs c k s = 0"
proof -
  have none: "share_name c (ep_domain (eh k e)) \<noteq> s" if "eps k u = Some e" for u e
    using assms(2,3) that unfolding shares_ok_def by metis
  then show "s_eps c k s = 0" unfolding s_eps_def by (auto intro!: count_map_none)
  have "share_name c (ep_domain (eh k (rep r))) \<noteq> s" if "regs k key = Some r" for key r
    using assms(1) that none unfolding links_ok_def live_def by metis
  then show "s_regs c k s = 0" unfolding s_regs_def by (auto intro!: count_map_none)
qed

section \<open>One endpoint changes\<close>

definition rview :: "knockEP \<Rightarrow> string \<times> string \<times> key set \<times> bool" where
  "rview p = (ep_url p, ep_domain p, ep_keys p, ep_unchecked p)"

text \<open>
  An operation that touches one endpoint \<open>e0\<close> with url \<open>u0\<close>, at most one registration \<open>key0\<close>, which is or
  was that endpoint's, and whether the endpoint is pending.
\<close>

definition local_change :: "knock_cfg \<Rightarrow> ep_id \<Rightarrow> string \<Rightarrow> key \<Rightarrow> knocker \<Rightarrow> knocker \<Rightarrow> bool" where
  "local_change c e0 u0 key0 k k' \<longleftrightarrow>
     (\<forall>key. key \<noteq> key0 \<longrightarrow> regs k' key = regs k key) \<and>
     (\<forall>r. regs k key0 = Some r \<longrightarrow> rep r = e0) \<and> (\<forall>r. regs k' key0 = Some r \<longrightarrow> rep r = e0) \<and>
     (\<forall>u. u \<noteq> u0 \<longrightarrow> eps k' u = eps k u) \<and>
     (\<forall>u. eps k u = Some e0 \<longrightarrow> u = u0) \<and> (\<forall>e. eps k u0 = Some e \<longrightarrow> e = e0) \<and>
     (\<forall>e. eps k' u0 = Some e \<longrightarrow> e = e0) \<and>
     (\<forall>e. e \<noteq> e0 \<longrightarrow> rview (eh k' e) = rview (eh k e)) \<and>
     (live k e0 \<longrightarrow> ep_domain (eh k e0) = ep_domain (eh k' e0)) \<and>
     (\<forall>e. e \<noteq> e0 \<longrightarrow> pend c k' e = pend c k e)"

lemma rviewD: "rview p' = rview p \<Longrightarrow>
    ep_url p' = ep_url p \<and> ep_domain p' = ep_domain p \<and> ep_keys p' = ep_keys p \<and> ep_unchecked p' = ep_unchecked p"
  by (simp add: rview_def)

lemma local_changeD:
  assumes "local_change c e0 u0 key0 k k'"
  shows "key \<noteq> key0 \<Longrightarrow> regs k' key = regs k key" "u \<noteq> u0 \<Longrightarrow> eps k' u = eps k u"
    "eps k u = Some e0 \<Longrightarrow> u = u0" "e \<noteq> e0 \<Longrightarrow> rview (eh k' e) = rview (eh k e)"
    "eps k u0 = None \<or> eps k u0 = Some e0" "eps k' u0 = None \<or> eps k' u0 = Some e0"
    "regs k key0 = Some r \<Longrightarrow> rep r = e0" "regs k' key0 = Some r \<Longrightarrow> rep r = e0"
    "live k e0 \<Longrightarrow> ep_domain (eh k e0) = ep_domain (eh k' e0)" "e \<noteq> e0 \<Longrightarrow> pend c k' e = pend c k e"
proof -
  note lcD = assms [unfolded local_change_def]
  show "key \<noteq> key0 \<Longrightarrow> regs k' key = regs k key" "u \<noteq> u0 \<Longrightarrow> eps k' u = eps k u"
    "eps k u = Some e0 \<Longrightarrow> u = u0" "e \<noteq> e0 \<Longrightarrow> rview (eh k' e) = rview (eh k e)"
    "regs k key0 = Some r \<Longrightarrow> rep r = e0" "regs k' key0 = Some r \<Longrightarrow> rep r = e0"
    "live k e0 \<Longrightarrow> ep_domain (eh k e0) = ep_domain (eh k' e0)" "e \<noteq> e0 \<Longrightarrow> pend c k' e = pend c k e"
    using lcD by blast+
  show "eps k u0 = None \<or> eps k u0 = Some e0" "eps k' u0 = None \<or> eps k' u0 = Some e0"
    using lcD by (metis not_None_eq)+
qed

text \<open>How the counts move.\<close>

lemma counts_step:
  assumes lc: "local_change c e0 u0 key0 k k'" and links: "links_ok X k"
  defines "d \<equiv> ep_domain (eh k' e0)"
  shows "n_eps k' n = n_eps k n - (if eps k u0 = Some e0 \<and> d = n then 1 else 0)
           + (if eps k' u0 = Some e0 \<and> d = n then 1 else 0)"
    and "n_regs k' n = n_regs k n - (if regs k key0 \<noteq> None \<and> d = n then 1 else 0)
           + (if regs k' key0 \<noteq> None \<and> d = n then 1 else 0)"
    and "n_pending c k' n = n_pending c k n - (if eps k u0 = Some e0 \<and> d = n \<and> pend c k e0 then 1 else 0)
           + (if eps k' u0 = Some e0 \<and> d = n \<and> pend c k' e0 then 1 else 0)"
    and "n_unchecked c k' n = n_unchecked c k n
           - (if eps k u0 = Some e0 \<and> d = n \<and> pend c k e0 \<and> ep_unchecked (eh k e0) then 1 else 0)
           + (if eps k' u0 = Some e0 \<and> d = n \<and> pend c k' e0 \<and> ep_unchecked (eh k' e0) then 1 else 0)"
    and "s_eps c k' s = s_eps c k s - (if eps k u0 = Some e0 \<and> share_name c d = s then 1 else 0)
           + (if eps k' u0 = Some e0 \<and> share_name c d = s then 1 else 0)"
    and "s_regs c k' s = s_regs c k s - (if regs k key0 \<noteq> None \<and> share_name c d = s then 1 else 0)
           + (if regs k' key0 \<noteq> None \<and> share_name c d = s then 1 else 0)"
proof -
  have fin: "finite (dom (regs k))" "finite (dom (eps k))" using links by (simp_all add: links_ok_def)
  note lcD = lc [unfolded local_change_def]
  have u: "eps k' u = eps k u" if "u \<noteq> u0" for u using lcD that by blast
  have g: "regs k' key = regs k key" if "key \<noteq> key0" for key using lcD that by blast
  have other: "e \<noteq> e0" if "u \<noteq> u0" "eps k u = Some e" for u e using lcD that by blast
  have "rview (eh k' e) = rview (eh k e)" "pend c k' e = pend c k e" if "e \<noteq> e0" for e
    using lcD that by blast+
  then have view: "ep_domain (eh k' e) = ep_domain (eh k e)" "ep_unchecked (eh k' e) = ep_unchecked (eh k e)"
    "pend c k' e = pend c k e" if "e \<noteq> e0" for e
    using that rviewD by blast+
  have urls: "eps k u0 = None \<or> eps k u0 = Some e0" "eps k' u0 = None \<or> eps k' u0 = Some e0"
    using lcD by (metis not_None_eq)+
  have same: "ep_domain (eh k e0) = d" if "eps k u0 = Some e0"
  proof -
    have "live k e0" using links that unfolding links_ok_def live_def by metis
    then show ?thesis using lcD unfolding d_def by blast
  qed
  have reg: "ep_domain (eh k' (rep r)) = ep_domain (eh k (rep r))" if "regs k key = Some r" for key r
  proof (cases "rep r = e0")
    case True
    have "live k (rep r)" using links that unfolding links_ok_def by blast
    then show ?thesis using True lcD by metis
  qed (rule view)
  have r0: "regs k key0 = Some r \<Longrightarrow> ep_domain (eh k (rep r)) = d" "regs k' key0 = Some r \<Longrightarrow> rep r = e0" for r
    using lcD reg [of key0 r] unfolding d_def by metis+
  have ep_count: "count_map Q (eps k') = count_map P (eps k) - (if eps k u0 = Some e0 \<and> P e0 then 1 else 0)
      + (if eps k' u0 = Some e0 \<and> Q e0 then 1 else 0)" if "\<And>e. e \<noteq> e0 \<Longrightarrow> Q e = P e" for P Q
  proof -
    have "count_map Q (eps k') = count_map P (eps k) - cnt P (eps k u0) + cnt Q (eps k' u0)"
      using that other by (intro count_map_step [OF fin(2) u]) blast+
    then show ?thesis using urls by auto
  qed
  have reg_count: "count_map (\<lambda>r. F (ep_domain (eh k' (rep r)))) (regs k') =
      count_map (\<lambda>r. F (ep_domain (eh k (rep r)))) (regs k) - (if regs k key0 \<noteq> None \<and> F d then 1 else 0)
      + (if regs k' key0 \<noteq> None \<and> F d then 1 else 0)" for F
  proof -
    have "count_map (\<lambda>r. F (ep_domain (eh k' (rep r)))) (regs k') =
        count_map (\<lambda>r. F (ep_domain (eh k (rep r)))) (regs k)
        - cnt (\<lambda>r. F (ep_domain (eh k (rep r)))) (regs k key0)
        + cnt (\<lambda>r. F (ep_domain (eh k' (rep r)))) (regs k' key0)"
      by (rule count_map_step [OF fin(1) g]) (simp_all add: reg)
    then show ?thesis using r0 by (cases "regs k key0"; cases "regs k' key0") (simp_all add: d_def)
  qed
  show "n_eps k' n = n_eps k n - (if eps k u0 = Some e0 \<and> d = n then 1 else 0)
      + (if eps k' u0 = Some e0 \<and> d = n then 1 else 0)"
    using ep_count [of "\<lambda>e. ep_domain (eh k' e) = n" "\<lambda>e. ep_domain (eh k e) = n"] same view
    by (cases "eps k u0 = Some e0") (simp_all add: n_eps_def d_def)
  show "n_pending c k' n = n_pending c k n - (if eps k u0 = Some e0 \<and> d = n \<and> pend c k e0 then 1 else 0)
      + (if eps k' u0 = Some e0 \<and> d = n \<and> pend c k' e0 then 1 else 0)"
    using ep_count [of "\<lambda>e. ep_domain (eh k' e) = n \<and> pend c k' e" "\<lambda>e. ep_domain (eh k e) = n \<and> pend c k e"]
      same view by (cases "eps k u0 = Some e0") (simp_all add: n_pending_def d_def)
  show "n_unchecked c k' n = n_unchecked c k n
      - (if eps k u0 = Some e0 \<and> d = n \<and> pend c k e0 \<and> ep_unchecked (eh k e0) then 1 else 0)
      + (if eps k' u0 = Some e0 \<and> d = n \<and> pend c k' e0 \<and> ep_unchecked (eh k' e0) then 1 else 0)"
    using ep_count [of "\<lambda>e. ep_domain (eh k' e) = n \<and> pend c k' e \<and> ep_unchecked (eh k' e)"
        "\<lambda>e. ep_domain (eh k e) = n \<and> pend c k e \<and> ep_unchecked (eh k e)"]
      same view by (cases "eps k u0 = Some e0") (simp_all add: n_unchecked_def d_def)
  show "s_eps c k' s = s_eps c k s - (if eps k u0 = Some e0 \<and> share_name c d = s then 1 else 0)
      + (if eps k' u0 = Some e0 \<and> share_name c d = s then 1 else 0)"
    using ep_count [of "\<lambda>e. share_name c (ep_domain (eh k' e)) = s" "\<lambda>e. share_name c (ep_domain (eh k e)) = s"]
      same view by (cases "eps k u0 = Some e0") (simp_all add: s_eps_def d_def)
  show "n_regs k' n = n_regs k n - (if regs k key0 \<noteq> None \<and> d = n then 1 else 0)
      + (if regs k' key0 \<noteq> None \<and> d = n then 1 else 0)"
    unfolding n_regs_def by (rule reg_count)
  show "s_regs c k' s = s_regs c k s - (if regs k key0 \<noteq> None \<and> share_name c d = s then 1 else 0)
      + (if regs k' key0 \<noteq> None \<and> share_name c d = s then 1 else 0)"
    unfolding s_regs_def by (rule reg_count)
qed

definition rcounts :: "knockDomain \<Rightarrow> int \<times> int \<times> int \<times> int" where
  "rcounts d = (d_eps d, d_regs d, d_pending d, d_unchecked d)"

lemma local_change_live:
  assumes lc: "local_change c e0 u0 key0 k k'" and links: "links_ok X k" and e: "e \<noteq> e0" "live k e"
  shows "live k' e"
proof -
  note lcD = local_changeD [OF lc]
  have "ep_url (eh k' e) = ep_url (eh k e)" using rviewD [OF lcD(4) [OF e(1)]] by simp
  moreover have "ep_url (eh k e) \<noteq> u0" using e lcD(5) unfolding live_def by auto
  ultimately show ?thesis using lcD(2) e(2) unfolding live_def by metis
qed

lemma reg_step:
  assumes ok: "reg_ok X c k" and lc: "local_change c e0 u0 key0 k k'" and heap: "heap_ok c k'"
    and en: "en k \<le> en k'" "eps k' u0 = Some e0 \<Longrightarrow> e0 < en k' \<and> ep_url (eh k' e0) = u0"
    and keys: "eps k' u0 = Some e0 \<Longrightarrow> ep_keys (eh k' e0) = {key. \<exists>r. regs k' key = Some r \<and> rep r = e0}"
    and none: "eps k' u0 = None \<Longrightarrow> \<forall>key r. regs k' key = Some r \<longrightarrow> rep r \<noteq> e0"
    and Y: "\<And>e. e \<notin> Y \<Longrightarrow> e \<noteq> e0 \<Longrightarrow> e \<notin> X" "e0 \<notin> Y \<Longrightarrow> eps k' u0 = Some e0 \<Longrightarrow> ep_keys (eh k' e0) \<noteq> {}"
    and d: "d = ep_domain (eh k' e0)"
    and doms: "\<And>n. n \<noteq> d \<Longrightarrow> domains k' n = domains k n"
      "\<And>n i. n \<noteq> d \<Longrightarrow> domains k n = Some i \<Longrightarrow> rcounts (dh k' i) = rcounts (dh k i)"
    and dom0: "\<And>i. domains k' d = Some i \<Longrightarrow>
        rcounts (dh k' i) = (n_eps k' d, n_regs k' d, n_pending c k' d, n_unchecked c k' d)"
      "domains k' d = None \<Longrightarrow> n_eps k' d = 0"
    and shs: "\<And>s. s \<noteq> share_name c d \<Longrightarrow> shares k' s = shares k s"
      "\<exists>sh. shares k' (share_name c d) = Some sh \<and> share_ok c k' (share_name c d) sh"
  shows "reg_ok Y c k'"
proof -
  have links: "links_ok X k" and srv: "servers_ok c k" and shr: "shares_ok c k"
    using ok by (simp_all add: reg_ok_def)
  note lcD = local_changeD [OF lc] and counts = counts_step [OF lc links, folded d]
  have fin: "finite (dom (regs k'))" "finite (dom (eps k'))"
  proof -
    have "dom (regs k') \<subseteq> insert key0 (dom (regs k))"
    proof
      fix x assume "x \<in> dom (regs k')"
      then show "x \<in> insert key0 (dom (regs k))" using lcD(1) by (cases "x = key0") (simp_all add: domIff)
    qed
    moreover have "dom (eps k') \<subseteq> insert u0 (dom (eps k))"
    proof
      fix x assume "x \<in> dom (eps k')"
      then show "x \<in> insert u0 (dom (eps k))" using lcD(2) by (cases "x = u0") (simp_all add: domIff)
    qed
    ultimately show "finite (dom (regs k'))" "finite (dom (eps k'))"
      using links finite_subset [of _ "insert key0 (dom (regs k))"] finite_subset [of _ "insert u0 (dom (eps k))"]
      by (simp_all add: links_ok_def)
  qed
  have ep: "e \<noteq> e0 \<and> eps k u = Some e \<or> e = e0 \<and> u = u0" if "eps k' u = Some e" for u e
  proof (cases "u = u0")
    case True
    then show ?thesis using that lcD(6) by auto
  next
    case False
    then show ?thesis using that lcD(2) [OF False] lcD(3) [of u] by auto
  qed
  have view: "ep_url (eh k' e) = ep_url (eh k e)" "ep_domain (eh k' e) = ep_domain (eh k e)"
    "ep_keys (eh k' e) = ep_keys (eh k e)" if "e \<noteq> e0" for e
    using rviewD [OF lcD(4) [OF that]] by simp_all
  have keys': "{key. \<exists>r. regs k' key = Some r \<and> rep r = e} = {key. \<exists>r. regs k key = Some r \<and> rep r = e}"
    if "e \<noteq> e0" for e
  proof -
    have "(\<exists>r. regs k' key = Some r \<and> rep r = e) \<longleftrightarrow> (\<exists>r. regs k key = Some r \<and> rep r = e)" for key
      using that lcD(1) [of key] lcD(7,8) by (cases "key = key0") auto
    then show ?thesis by simp
  qed
  have "links_ok Y k'" unfolding links_ok_def
  proof (intro conjI allI impI)
    fix u e assume e: "eps k' u = Some e"
    have old: "e < en k \<and> ep_url (eh k e) = u \<and> ep_keys (eh k e) = {key. \<exists>r. regs k key = Some r \<and> rep r = e} \<and>
        (e \<notin> X \<longrightarrow> ep_keys (eh k e) \<noteq> {})" if "e \<noteq> e0"
      using links that ep [OF e] unfolding links_ok_def by blast
    show "e < en k'" using old en ep [OF e] e by (cases "e = e0") auto
    show "ep_url (eh k' e) = u" using old en ep [OF e] e view by (cases "e = e0") auto
    show "ep_keys (eh k' e) = {key. \<exists>r. regs k' key = Some r \<and> rep r = e}"
      using old keys keys' ep [OF e] e view by (cases "e = e0") simp_all
    show "ep_keys (eh k' e) \<noteq> {}" if "e \<notin> Y"
    proof (cases "e = e0")
      case True
      then show ?thesis using Y(2) that ep [OF e] e by auto
    next
      case False
      then show ?thesis using old Y(1) that view(3) [OF False] by metis
    qed
  next
    fix key r assume r: "regs k' key = Some r"
    show "live k' (rep r)"
    proof (cases "rep r = e0")
      case True
      then have "eps k' u0 = Some e0" using none r lcD(6) by (cases "eps k' u0") auto
      then show ?thesis using True en by (simp add: live_def)
    next
      case False
      then have "regs k key = Some r" using r lcD(1) [of key] lcD(8) [of r] by (cases "key = key0") auto
      then have "live k (rep r)" using links by (simp add: links_ok_def)
      then show ?thesis using local_change_live [OF lc links False] by simp
    qed
  qed (fact fin)+
  moreover have "servers_ok c k'" unfolding servers_ok_def
  proof (intro conjI allI impI)
    fix n i assume n: "domains k' n = Some i"
    have "rcounts (dh k' i) = (n_eps k' n, n_regs k' n, n_pending c k' n, n_unchecked c k' n)"
    proof (cases "n = d")
      case True
      then show ?thesis using dom0(1) n by simp
    next
      case False
      then have "domains k n = Some i" "rcounts (dh k' i) = rcounts (dh k i)" using doms n by simp_all
      then show ?thesis using srv False counts by (simp add: servers_ok_def rcounts_def)
    qed
    then show "d_eps (dh k' i) = n_eps k' n" "d_regs (dh k' i) = n_regs k' n"
      "d_pending (dh k' i) = n_pending c k' n" "d_unchecked (dh k' i) = n_unchecked c k' n"
      by (simp_all add: rcounts_def)
  next
    fix u e assume e: "eps k' u = Some e"
    show "domains k' (ep_domain (eh k' e)) \<noteq> None"
    proof (cases "ep_domain (eh k' e) = d")
      case True
      then have "0 < n_eps k' d" unfolding n_eps_def by (intro count_map_pos [OF fin(2) e]) simp
      then show ?thesis using dom0(2) True by auto
    next
      case False
      then have "e \<noteq> e0" using d by auto
      then have "domains k (ep_domain (eh k e)) \<noteq> None" using ep [OF e] srv unfolding servers_ok_def by blast
      then show ?thesis using doms(1) False view \<open>e \<noteq> e0\<close> by simp
    qed
  qed
  moreover have "shares_ok c k'" unfolding shares_ok_def
  proof (intro conjI allI impI)
    fix s sh assume s: "shares k' s = Some sh"
    show "share_ok c k' s sh"
    proof (cases "s = share_name c d")
      case True
      then show ?thesis using shs(2) s by auto
    next
      case False
      then have o: "share_ok c k s sh" using shr shs(1) s by (simp add: shares_ok_def)
      have "live k' e \<and> share_name c (ep_domain (eh k' e)) = s" if e: "e \<in> sh_pending sh" for e
      proof -
        have l: "live k e" "share_name c (ep_domain (eh k e)) = s" using o e by (auto simp: share_ok_def)
        then have "e \<noteq> e0" using lcD(9) False d by auto
        then show ?thesis using l local_change_live [OF lc links] view by simp
      qed
      then show ?thesis using o False counts by (simp add: share_ok_def)
    qed
  next
    fix u e assume e: "eps k' u = Some e"
    show "shares k' (share_name c (ep_domain (eh k' e))) \<noteq> None"
    proof (cases "share_name c (ep_domain (eh k' e)) = share_name c d")
      case False
      then have "e \<noteq> e0" using d by auto
      then have "shares k (share_name c (ep_domain (eh k e))) \<noteq> None"
        using ep [OF e] shr unfolding shares_ok_def by blast
      then show ?thesis using shs(1) False view \<open>e \<noteq> e0\<close> by simp
    qed (use shs(2) in auto)
  qed
  ultimately show ?thesis using heap by (simp add: reg_ok_def)
qed

section \<open>What the invariant does not read\<close>

lemma reg_cong:
  assumes "regs k' = regs k" and "eps k' = eps k" and "domains k' = domains k" and "shares k' = shares k"
    and "en k' = en k" and "dn k' = dn k" and "\<And>e. rview (eh k' e) = rview (eh k e)"
    and "\<And>i. rcounts (dh k' i) = rcounts (dh k i)"
    and "\<And>i. dname (dh k' i) = dname (dh k i)" and "\<And>i. dpush (dh k' i) = dpush (dh k i)"
  shows "reg_ok X c k' = reg_ok X c k"
proof -
  have ep: "ep_url (eh k' e) = ep_url (eh k e)" "ep_domain (eh k' e) = ep_domain (eh k e)"
    "ep_keys (eh k' e) = ep_keys (eh k e)" "ep_unchecked (eh k' e) = ep_unchecked (eh k e)" for e
    using rviewD [OF assms(7)] by blast+
  have dm: "d_eps (dh k' i) = d_eps (dh k i)" "d_regs (dh k' i) = d_regs (dh k i)"
    "d_pending (dh k' i) = d_pending (dh k i)" "d_unchecked (dh k' i) = d_unchecked (dh k i)" for i
    using assms(8) [of i] by (simp_all add: rcounts_def)
  have pd: "pend c k' = pend c k" by (intro ext) (simp add: pend_def assms ep)
  have lv: "live k' = live k" by (intro ext) (simp add: live_def assms ep)
  show ?thesis
    unfolding reg_ok_def heap_ok_def links_ok_def servers_ok_def shares_ok_def share_ok_def n_eps_def
      n_regs_def n_pending_def n_unchecked_def s_eps_def s_regs_def
    by (simp add: assms(1-6,9,10) ep dm pd lv)
qed

lemma shareOf_sel [simp]:
  "regs (shareOf c now d k) = regs k" "forgets (shareOf c now d k) = forgets k"
  "eps (shareOf c now d k) = eps k" "domains (shareOf c now d k) = domains k"
  "eh (shareOf c now d k) = eh k" "en (shareOf c now d k) = en k" "dh (shareOf c now d k) = dh k"
  "dn (shareOf c now d k) = dn k" "queue (shareOf c now d k) = queue k"
  "timers (shareOf c now d k) = timers k" "store_ch (shareOf c now d k) = store_ch k"
  "live (shareOf c now d k) = live k"
  by (auto simp: shareOf_def Let_def live_def)

lemma shareOf_there: "shares k (share_name c d) = Some sh \<Longrightarrow> shareOf c now d k = k"
  by (simp add: shareOf_def)

lemma shareOf_shares:
  "shares (shareOf c now d k) s =
     (if s = share_name c d \<and> shares k s = None then Some (new_share c now s) else shares k s)"
  by (cases "s = share_name c d") (auto simp: shareOf_def Let_def)

lemma the_share_shareOf:
  "shares (shareOf c now d k) (share_name c d) = Some (the_share c d (shareOf c now d k))"
  by (simp add: the_share_def shareOf_shares)

lemma upd_share_sel [simp]:
  "regs (upd_share n f k) = regs k" "forgets (upd_share n f k) = forgets k" "eps (upd_share n f k) = eps k"
  "domains (upd_share n f k) = domains k" "dh (upd_share n f k) = dh k" "eh (upd_share n f k) = eh k"
  "en (upd_share n f k) = en k" "dn (upd_share n f k) = dn k" "queue (upd_share n f k) = queue k"
  "timers (upd_share n f k) = timers k" "store_ch (upd_share n f k) = store_ch k"
  "shares (upd_share n f k) s = (if s = n then map_option f (shares k n) else shares k s)"
  by (auto simp: upd_share_def split: option.splits)

lemma live_frame [simp]:
  "live (upd_dom i f k) = live k" "live (upd_share n g k) = live k" "live (upd_q h k) = live k"
  by (auto simp: live_def)

text \<open>A share made on first use holds nothing.\<close>

lemma shareOf_ok:
  assumes "reg_ok X c k"
  shows "reg_ok X c (shareOf c now d k)"
proof (cases "shares k (share_name c d)")
  case (Some sh)
  then show ?thesis using assms by (simp add: shareOf_there)
next
  case None
  let ?k = "shareOf c now d k"
  have links: "links_ok X k" and srv: "servers_ok c k" and shr: "shares_ok c k" and heap: "heap_ok c k"
    using assms by (simp_all add: reg_ok_def)
  have pd: "pend c ?k e = pend c k e" for e
    using None by (auto simp: pend_def shareOf_shares new_share_def Let_def)
  have same: "n_eps ?k = n_eps k" "n_regs ?k = n_regs k" "n_pending c ?k = n_pending c k"
    "n_unchecked c ?k = n_unchecked c k" "s_eps c ?k = s_eps c k" "s_regs c ?k = s_regs c k"
    by (intro ext; simp add: n_eps_def n_regs_def n_pending_def n_unchecked_def s_eps_def s_regs_def pd)+
  have "share_ok c ?k s sh" if s: "shares ?k s = Some sh" for s sh
  proof (cases "shares k s")
    case None
    then have "sh = new_share c now s" using s by (auto simp: shareOf_shares split: if_splits)
    then show ?thesis using missing_share_counts [OF links shr None]
      by (simp add: share_ok_def same new_share_def)
  next
    case (Some sh')
    then have "share_ok c k s sh" using s shr by (auto simp: shareOf_shares shares_ok_def)
    then show ?thesis by (simp add: share_ok_def same)
  qed
  moreover have "links_ok X ?k = links_ok X k" "servers_ok c ?k = servers_ok c k" "heap_ok c ?k = heap_ok c k"
    by (simp_all add: links_ok_def servers_ok_def heap_ok_def same)
  moreover have "shares ?k (share_name c (ep_domain (eh ?k e))) \<noteq> None" if "eps ?k u = Some e" for u e
    using that shr unfolding shares_ok_def by (fastforce simp: shareOf_shares)
  ultimately show ?thesis using links srv heap by (simp add: reg_ok_def shares_ok_def)
qed

section \<open>Settling\<close>

lemma settled_frame [simp]:
  "regs (settledLocked c now e k) = regs k" "forgets (settledLocked c now e k) = forgets k"
  "eps (settledLocked c now e k) = eps k" "domains (settledLocked c now e k) = domains k"
  "en (settledLocked c now e k) = en k" "dn (settledLocked c now e k) = dn k"
  "queue (settledLocked c now e k) = queue k" "timers (settledLocked c now e k) = timers k"
  "store_ch (settledLocked c now e k) = store_ch k"
  by (auto simp: settledLocked_def Let_def split: option.splits)

lemma settled_eh:
  "\<exists>b. eh (settledLocked c now e k) = (eh k)(e := (eh k e)\<lparr>ep_unchecked := b\<rparr>)"
proof -
  have same: "(eh k)(e := (eh k e)\<lparr>ep_unchecked := ep_unchecked (eh k e)\<rparr>) = eh k" by simp
  have "eh (settledLocked c now e k) = eh k \<or>
      eh (settledLocked c now e k) = (eh k)(e := (eh k e)\<lparr>ep_unchecked := False\<rparr>)"
    by (auto simp: settledLocked_def Let_def upd_ep_def split: option.splits)
  then show ?thesis using same by metis
qed

lemma settled_eh_other:
  "x \<noteq> e \<Longrightarrow> eh (settledLocked c now e k) x = eh k x"
  "ep_url (eh (settledLocked c now e k) x) = ep_url (eh k x)"
  "ep_domain (eh (settledLocked c now e k) x) = ep_domain (eh k x)"
  "ep_keys (eh (settledLocked c now e k) x) = ep_keys (eh k x)"
  "queuedReal (eh (settledLocked c now e k) x) = queuedReal (eh k x)"
  "queuedDecoy (eh (settledLocked c now e k) x) = queuedDecoy (eh k x)"
  "born (eh (settledLocked c now e k) x) = born (eh k x)"
  "delivered (eh (settledLocked c now e k) x) = delivered (eh k x)"
  "ep_last (eh (settledLocked c now e k) x) = ep_last (eh k x)"
  "trailing (eh (settledLocked c now e k) x) = trailing (eh k x)"
  using settled_eh [of c now e k] by (auto split: if_splits)

lemma settled_live [simp]: "live (settledLocked c now e k) = live k"
  by (intro ext) (simp add: live_def settled_eh_other)

lemma settled_dview: "dview (dh (settledLocked c now e k) j) = dview (dh k j)"
  by (auto simp: settledLocked_def Let_def dview_def split: option.splits)

lemma settled_shares:
  assumes "shares k (share_name c (ep_domain (eh k e))) = Some sh"
  shows "shares (settledLocked c now e k) =
     (shares k)(share_name c (ep_domain (eh k e)) \<mapsto> sh\<lparr>sh_pending := sh_pending sh - {e}\<rparr>)"
proof (cases "e \<in> sh_pending sh")
  case True
  then show ?thesis using assms
    by (auto simp: settledLocked_def Let_def shareOf_there the_share_def intro!: ext split: option.splits)
next
  case False
  then have "sh\<lparr>sh_pending := sh_pending sh - {e}\<rparr> = sh" by simp
  then show ?thesis using assms False
    by (auto simp: settledLocked_def Let_def shareOf_there the_share_def intro!: ext)
qed

lemma settled_counts:
  assumes "shares k (share_name c (ep_domain (eh k e))) = Some sh" and "domains k (ep_domain (eh k e)) = Some i"
  shows "dh (settledLocked c now e k) j = (if j = i then (dh k i)\<lparr>
      d_pending := d_pending (dh k i) - of_bool (e \<in> sh_pending sh),
      d_unchecked := d_unchecked (dh k i) - of_bool (e \<in> sh_pending sh \<and> ep_unchecked (eh k e))\<rparr> else dh k j)"
  using assms by (auto simp: settledLocked_def Let_def shareOf_there the_share_def)

lemma settled_unchecked:
  assumes "shares k (share_name c (ep_domain (eh k e))) = Some sh" and "e \<in> sh_pending sh"
  shows "eh (settledLocked c now e k) e = (eh k e)\<lparr>ep_unchecked := False\<rparr>"
  using assms by (auto simp: settledLocked_def Let_def shareOf_there the_share_def split: option.splits)

lemma fresh_key: "finite (dom m) \<Longrightarrow> \<exists>key :: string. m key = None"
  using ex_new_if_finite [OF infinite_UNIV_listI, of "dom m"] by (auto simp: domIff)

lemma reg_live:
  assumes "reg_ok X c k" and "live k e"
  obtains i sh where "domains k (ep_domain (eh k e)) = Some i" "i < dn k"
    "shares k (share_name c (ep_domain (eh k e))) = Some sh" "share_ok c k (share_name c (ep_domain (eh k e))) sh"
proof -
  have e: "eps k (ep_url (eh k e)) = Some e" using assms(2) by (simp add: live_def)
  obtain i where i: "domains k (ep_domain (eh k e)) = Some i"
    using assms(1) e unfolding reg_ok_def servers_ok_def by blast
  moreover obtain sh where "shares k (share_name c (ep_domain (eh k e))) = Some sh"
    using assms(1) e unfolding reg_ok_def shares_ok_def by blast
  ultimately show thesis using that assms(1) by (auto simp: reg_ok_def shares_ok_def heap_ok_def)
qed

lemma pend_share:
  "shares k (share_name c (ep_domain (eh k e))) = Some sh \<Longrightarrow> pend c k e = (e \<in> sh_pending sh)"
  by (simp add: pend_def)

lemma linksD:
  assumes "links_ok X k" and "eps k u = Some e"
  shows "e < en k" "ep_url (eh k e) = u" "ep_keys (eh k e) = {key. \<exists>r. regs k key = Some r \<and> rep r = e}"
    "e \<notin> X \<Longrightarrow> ep_keys (eh k e) \<noteq> {}"
  using assms unfolding links_ok_def by blast+

lemma local_changeI:
  assumes "links_ok X k" and "live k e0" and u0: "u0 = ep_url (eh k e0)"
    and "\<And>key. key \<noteq> key0 \<Longrightarrow> regs k' key = regs k key"
    and "\<And>r. regs k key0 = Some r \<Longrightarrow> rep r = e0" and "\<And>r. regs k' key0 = Some r \<Longrightarrow> rep r = e0"
    and "\<And>u. u \<noteq> u0 \<Longrightarrow> eps k' u = eps k u" and "\<And>e. eps k' u0 = Some e \<Longrightarrow> e = e0"
    and "\<And>e. e \<noteq> e0 \<Longrightarrow> rview (eh k' e) = rview (eh k e)"
    and "ep_domain (eh k' e0) = ep_domain (eh k e0)"
    and "\<And>e. e \<noteq> e0 \<Longrightarrow> pend c k' e = pend c k e"
  shows "local_change c e0 u0 key0 k k'"
proof -
  have "u = u0" if "eps k u = Some e0" for u using linksD(2) [OF assms(1) that] u0 by simp
  moreover have "e = e0" if "eps k u0 = Some e" for e using assms(2) that u0 by (simp add: live_def)
  ultimately show ?thesis unfolding local_change_def using assms(4-9,11) assms(10) [symmetric] by blast
qed

lemma settledLocked_ok:
  assumes ok: "reg_ok X c k"
  shows "reg_ok X c (settledLocked c now e k)"
proof (cases "pend c k e")
  case False
  let ?d = "ep_domain (eh k e)"
  have "e \<notin> sh_pending (the_share c ?d (shareOf c now ?d k))"
    using False by (auto simp: pend_def the_share_def shareOf_shares new_share_def Let_def split: option.splits)
  then have "settledLocked c now e k = shareOf c now ?d k" by (simp add: settledLocked_def Let_def)
  then show ?thesis using shareOf_ok [OF ok] by simp
next
  case True
  let ?k = "settledLocked c now e k" and ?d = "ep_domain (eh k e)"
  obtain sh where sh: "shares k (share_name c ?d) = Some sh" "e \<in> sh_pending sh"
    using True by (auto simp: pend_def split: option.splits)
  have shok: "share_ok c k (share_name c ?d) sh" using ok sh(1) by (simp add: reg_ok_def shares_ok_def)
  then have lv: "live k e" using sh(2) by (simp add: share_ok_def)
  obtain i where i: "domains k ?d = Some i" using reg_live [OF ok lv] by metis
  have links: "links_ok X k" and heap: "heap_ok c k" and srv: "servers_ok c k"
    using ok by (simp_all add: reg_ok_def)
  have e: "eps k (ep_url (eh k e)) = Some e" using lv by (simp add: live_def)
  obtain key0 where key0: "regs k key0 = None" using links fresh_key [of "regs k"] unfolding links_ok_def by blast
  note view = settled_eh_other [where k = k and e = e and c = c and now = now]
  have pd: "pend c ?k x = (x \<noteq> e \<and> pend c k x)" for x
    unfolding pend_def settled_shares [OF sh(1)] by (auto simp: view sh split: option.splits)
  have lc: "local_change c e (ep_url (eh k e)) key0 k ?k"
    by (rule local_changeI [OF links lv refl]) (use key0 e in \<open>simp_all add: view rview_def pd\<close>)
  note counts = counts_step [OF lc links]
  have base: "rcounts (dh k i) = (n_eps k ?d, n_regs k ?d, n_pending c k ?d, n_unchecked c k ?d)"
    using srv i by (simp add: servers_ok_def rcounts_def)
  have inj: "n = ?d" if "domains k n = Some i" for n using heap i that by (auto simp: heap_ok_def)
  show ?thesis
  proof (rule reg_step [OF ok lc, where d = ?d])
    show "heap_ok c ?k" using heap dviewD(1,2) [OF settled_dview] by (simp add: heap_ok_def)
    show "rcounts (dh ?k j) = (n_eps ?k ?d, n_regs ?k ?d, n_pending c ?k ?d, n_unchecked c ?k ?d)"
      if "domains ?k ?d = Some j" for j
      using that i base sh e key0 True pd [of e] unfolding counts
      by (auto simp: settled_counts [OF sh(1) i] rcounts_def view)
    show "\<exists>sh'. shares ?k (share_name c ?d) = Some sh' \<and> share_ok c ?k (share_name c ?d) sh'"
      using shok e key0 unfolding settled_shares [OF sh(1)] share_ok_def counts by (auto simp: view)
    show "rcounts (dh ?k j) = rcounts (dh k j)" if "n \<noteq> ?d" "domains k n = Some j" for n j
      using that inj by (auto simp: settled_counts [OF sh(1) i])
    show "ep_keys (eh ?k e) = {key. \<exists>r. regs ?k key = Some r \<and> rep r = e}"
      using linksD(3) [OF links e] by (simp add: view)
    show "e \<notin> X \<Longrightarrow> ep_keys (eh ?k e) \<noteq> {}" using linksD(4) [OF links e] unfolding view .
    show "e < en ?k \<and> ep_url (eh ?k e) = ep_url (eh k e)" using linksD(1) [OF links e] by (simp add: view)
  qed (simp_all add: view e i settled_shares [OF sh(1)])
qed

section \<open>Dropping\<close>

text \<open>The whole invariant of the knocker; nothing waits for an endpoint that is gone.\<close>

definition queued_live :: "knocker \<Rightarrow> bool" where
  "queued_live k \<longleftrightarrow> (\<forall>e. queuedReal (eh k e) \<or> queuedDecoy (eh k e) \<longrightarrow> live k e)"

definition knock_inv :: "ep_id set \<Rightarrow> knock_cfg \<Rightarrow> ep_id list \<Rightarrow> knocker \<Rightarrow> bool" where
  "knock_inv X c fl k \<longleftrightarrow> reg_ok X c k \<and> queue_ok c fl k \<and> queued_live k \<and> (\<forall>e \<in> set fl. e < en k)"

lemma queued_live_keep:
  assumes "queued_live k" and "\<And>x. eview (eh k' x) = eview (eh k x)" and "\<And>x. live k x \<Longrightarrow> live k' x"
  shows "queued_live k'"
proof -
  have "queuedReal (eh k' x) = queuedReal (eh k x)" "queuedDecoy (eh k' x) = queuedDecoy (eh k x)" for x
    using assms(2) [of x] by (simp_all add: eview_def)
  then show ?thesis using assms(1,3) unfolding queued_live_def by blast
qed

text \<open>\<open>dropEPLocked\<close> up to the queue.\<close>

definition drop_start :: "knock_cfg \<Rightarrow> nanos \<Rightarrow> ep_id \<Rightarrow> knocker \<Rightarrow> knocker" where
  "drop_start c now e k =
     (let dom = ep_domain (eh k e);
          k = k\<lparr>eps := (eps k)(ep_url (eh k e) := None)\<rparr>;
          k = upd_ep e (\<lambda>p. p\<lparr>decoyGen := decoyGen p + 1, runGen := runGen p + 1\<rparr>) k;
          k = settledLocked c now e k
      in upd_share (share_name c dom) (\<lambda>s. s\<lparr>sh_eps := sh_eps s - 1\<rparr>) (shareOf c now dom k))"

lemma drop_start_sel:
  assumes "shares k (share_name c (ep_domain (eh k e))) = Some sh"
    and "domains k (ep_domain (eh k e)) = Some i"
  shows "regs (drop_start c now e k) = regs k" "forgets (drop_start c now e k) = forgets k"
    "eps (drop_start c now e k) = (eps k)(ep_url (eh k e) := None)"
    "domains (drop_start c now e k) = domains k" "en (drop_start c now e k) = en k"
    "dn (drop_start c now e k) = dn k" "queue (drop_start c now e k) = queue k"
    "timers (drop_start c now e k) = timers k" "store_ch (drop_start c now e k) = store_ch k"
    "shares (drop_start c now e k) = (shares k)(share_name c (ep_domain (eh k e)) \<mapsto>
       sh\<lparr>sh_eps := sh_eps sh - 1, sh_pending := sh_pending sh - {e}\<rparr>)"
    "dh (drop_start c now e k) j = (if j = i then (dh k i)\<lparr>
      d_pending := d_pending (dh k i) - of_bool (e \<in> sh_pending sh),
      d_unchecked := d_unchecked (dh k i) - of_bool (e \<in> sh_pending sh \<and> ep_unchecked (eh k e))\<rparr> else dh k j)"
    "x \<noteq> e \<Longrightarrow> eh (drop_start c now e k) x = eh k x"
    "ep_url (eh (drop_start c now e k) x) = ep_url (eh k x)"
    "ep_domain (eh (drop_start c now e k) x) = ep_domain (eh k x)"
    "ep_keys (eh (drop_start c now e k) x) = ep_keys (eh k x)"
    "queuedReal (eh (drop_start c now e k) x) = queuedReal (eh k x)"
    "queuedDecoy (eh (drop_start c now e k) x) = queuedDecoy (eh k x)"
    "trailing (eh (drop_start c now e k) x) = trailing (eh k x)"
    "ep_last (eh (drop_start c now e k) x) = ep_last (eh k x)"
    "born (eh (drop_start c now e k) x) = born (eh k x)"
proof -
  let ?k1 = "upd_ep e (\<lambda>p. p\<lparr>decoyGen := decoyGen p + 1, runGen := runGen p + 1\<rparr>)
    (k\<lparr>eps := (eps k)(ep_url (eh k e) := None)\<rparr>)"
  let ?k2 = "settledLocked c now e ?k1" and ?s = "share_name c (ep_domain (eh k e))"
  have dom: "ep_domain (eh ?k1 e) = ep_domain (eh k e)" by simp
  have sh1: "shares ?k1 (share_name c (ep_domain (eh ?k1 e))) = Some sh"
    and i1: "domains ?k1 (ep_domain (eh ?k1 e)) = Some i" using assms by simp_all
  have sh2: "shares ?k2 = (shares k)(?s \<mapsto> sh\<lparr>sh_pending := sh_pending sh - {e}\<rparr>)"
    using settled_shares [OF sh1] by simp
  then have "shareOf c now (ep_domain (eh k e)) ?k2 = ?k2" by (intro shareOf_there) simp
  then have eq: "drop_start c now e k = upd_share ?s (\<lambda>s. s\<lparr>sh_eps := sh_eps s - 1\<rparr>) ?k2"
    by (simp add: drop_start_def Let_def)
  show "shares (drop_start c now e k) = (shares k)(?s \<mapsto>
       sh\<lparr>sh_eps := sh_eps sh - 1, sh_pending := sh_pending sh - {e}\<rparr>)"
    unfolding eq by (intro ext) (simp add: sh2)
  show "dh (drop_start c now e k) j = (if j = i then (dh k i)\<lparr>
      d_pending := d_pending (dh k i) - of_bool (e \<in> sh_pending sh),
      d_unchecked := d_unchecked (dh k i) - of_bool (e \<in> sh_pending sh \<and> ep_unchecked (eh k e))\<rparr> else dh k j)"
    unfolding eq using settled_counts [OF sh1 i1] by simp
  show "x \<noteq> e \<Longrightarrow> eh (drop_start c now e k) x = eh k x"
    "ep_url (eh (drop_start c now e k) x) = ep_url (eh k x)"
    "ep_domain (eh (drop_start c now e k) x) = ep_domain (eh k x)"
    "ep_keys (eh (drop_start c now e k) x) = ep_keys (eh k x)"
    "queuedReal (eh (drop_start c now e k) x) = queuedReal (eh k x)"
    "queuedDecoy (eh (drop_start c now e k) x) = queuedDecoy (eh k x)"
    "trailing (eh (drop_start c now e k) x) = trailing (eh k x)"
    "ep_last (eh (drop_start c now e k) x) = ep_last (eh k x)"
    "born (eh (drop_start c now e k) x) = born (eh k x)"
    unfolding eq by (simp_all add: settled_eh_other)
qed (simp_all add: drop_start_def Let_def)

lemma dropEPLocked_eq:
  fixes now :: nanos
  assumes "live k e" and "shares k (share_name c (ep_domain (eh k e))) = Some sh"
    and "domains k (ep_domain (eh k e)) = Some i"
  defines "k4 \<equiv> forgetLocked i e (upd_dom i (\<lambda>d. d\<lparr>d_eps := d_eps d - 1\<rparr>) (drop_start c now e k))"
  shows "dropEPLocked c now e k =
    (if d_eps (dh k4 i) \<le> 0 \<and> waiting (dh k4 i) = 0 \<and> inflight (dh k4 i) = 0
     then k4\<lparr>domains := (domains k4)(ep_domain (eh k e) := None)\<rparr> else k4)"
proof -
  have "dropEPLocked c now e k = (case domains (drop_start c now e k) (ep_domain (eh k e)) of
      None \<Rightarrow> drop_start c now e k
    | Some i \<Rightarrow> let k4 = forgetLocked i e (upd_dom i (\<lambda>d. d\<lparr>d_eps := d_eps d - 1\<rparr>) (drop_start c now e k));
        d = dh k4 i in if d_eps d \<le> 0 \<and> waiting d = 0 \<and> inflight d = 0
        then k4\<lparr>domains := (domains k4)(ep_domain (eh k e) := None)\<rparr> else k4)"
    using assms(1) unfolding dropEPLocked_def drop_start_def Let_def by simp
  then show ?thesis
    using drop_start_sel(4) [OF assms(2,3), of now] assms(3) by (simp add: k4_def Let_def)
qed

lemma dropEP_sel:
  fixes now :: nanos
  assumes l: "live k e" and sh: "shares k (share_name c (ep_domain (eh k e))) = Some sh"
    and i: "domains k (ep_domain (eh k e)) = Some i"
  defines "k' \<equiv> dropEPLocked c now e k"
  shows "regs k' = regs k" "forgets k' = forgets k" "eps k' = (eps k)(ep_url (eh k e) := None)"
    "en k' = en k" "dn k' = dn k" "timers k' = timers k" "store_ch k' = store_ch k"
    "shares k' = (shares k)(share_name c (ep_domain (eh k e)) \<mapsto>
       sh\<lparr>sh_eps := sh_eps sh - 1, sh_pending := sh_pending sh - {e}\<rparr>)"
    "rcounts (dh k' j) = (if j = i then (d_eps (dh k i) - 1, d_regs (dh k i),
       d_pending (dh k i) - of_bool (e \<in> sh_pending sh),
       d_unchecked (dh k i) - of_bool (e \<in> sh_pending sh \<and> ep_unchecked (eh k e))) else rcounts (dh k j))"
    "dname (dh k' j) = dname (dh k j)" "dpush (dh k' j) = dpush (dh k j)"
    "x \<noteq> e \<Longrightarrow> eh k' x = eh k x" "ep_domain (eh k' x) = ep_domain (eh k x)"
    "ep_url (eh k' x) = ep_url (eh k x)" "ep_keys (eh k' x) = ep_keys (eh k x)"
    "\<not> queuedReal (eh k' e)" "\<not> queuedDecoy (eh k' e)"
    "domains k' = domains k \<or> d_eps (dh k' i) \<le> 0 \<and> domains k' = (domains k)(ep_domain (eh k e) := None)"
  using drop_start_sel [OF sh i, where now = now]
  unfolding k'_def dropEPLocked_eq [OF l sh i]
  by (simp_all add: Let_def forgetLocked_sel forgetLocked_dh rcounts_def)

lemma dropEP_reg_ok:
  fixes now :: nanos
  assumes ok: "reg_ok (insert e X) c k" and lv: "live k e" and empty: "ep_keys (eh k e) = {}"
  shows "reg_ok X c (dropEPLocked c now e k)"
proof -
  let ?k = "dropEPLocked c now e k" and ?d = "ep_domain (eh k e)" and ?u = "ep_url (eh k e)"
  obtain i sh where i: "domains k ?d = Some i" "i < dn k" and sh: "shares k (share_name c ?d) = Some sh"
    and shok: "share_ok c k (share_name c ?d) sh" by (rule reg_live [OF ok lv])
  have links: "links_ok (insert e X) k" and heap: "heap_ok c k" and srv: "servers_ok c k"
    using ok by (simp_all add: reg_ok_def)
  have e: "eps k ?u = Some e" using lv by (simp add: live_def)
  obtain key0 where key0: "regs k key0 = None" using links fresh_key [of "regs k"] unfolding links_ok_def by blast
  note view = dropEP_sel [OF lv sh i(1), where now = now]
  have pd: "pend c ?k x = (x \<noteq> e \<and> pend c k x)" for x
    unfolding pend_def view(8,13) by (auto simp: sh split: option.splits)
  have lc: "local_change c e ?u key0 k ?k"
    by (rule local_changeI [OF links lv refl]) (use key0 e in \<open>simp_all add: view pd\<close>)
  note counts = counts_step [OF lc links]
  have base: "rcounts (dh k i) = (n_eps k ?d, n_regs k ?d, n_pending c k ?d, n_unchecked c k ?d)"
    using srv i by (simp add: servers_ok_def rcounts_def)
  have inj: "n = ?d" if "domains k n = Some i" for n using heap i that by (auto simp: heap_ok_def)
  have at_d: "rcounts (dh ?k i) = (n_eps ?k ?d, n_regs ?k ?d, n_pending c ?k ?d, n_unchecked c ?k ?d)"
    using base e key0 unfolding counts view(9) by (simp add: view(1,3,13) pend_share [OF sh] rcounts_def)
  have nonneg: "0 \<le> n_eps ?k ?d" by (simp add: n_eps_def count_map_def)
  have keys: "rep r \<noteq> e" if "regs k key = Some r" for key r
    using linksD(3) [OF links e] empty that by blast
  show ?thesis
  proof (rule reg_step [OF ok lc, where d = ?d])
    show "heap_ok c ?k" using heap view(18) by (auto simp: heap_ok_def view(5,10,11) split: if_splits)
    show "domains ?k n = domains k n" if "n \<noteq> ?d" for n using that view(18) by auto
    show "rcounts (dh ?k j) = (n_eps ?k ?d, n_regs ?k ?d, n_pending c ?k ?d, n_unchecked c ?k ?d)"
      if "domains ?k ?d = Some j" for j
      using that i(1) at_d view(18) by auto
    show "n_eps ?k ?d = 0" if "domains ?k ?d = None"
      using that i(1) view(18) at_d nonneg by (auto simp: rcounts_def)
    show "\<exists>sh'. shares ?k (share_name c ?d) = Some sh' \<and> share_ok c ?k (share_name c ?d) sh'"
    proof -
      have "live ?k x" if "x \<noteq> e" "live k x" for x using local_change_live [OF lc links that] .
      then show ?thesis using shok e key0 unfolding view(8) share_ok_def counts by (auto simp: view(1,3,13))
    qed
    show "rcounts (dh ?k j) = rcounts (dh k j)" if "n \<noteq> ?d" "domains k n = Some j" for n j
      using that inj by (auto simp: view(9))
  qed (use keys in \<open>auto simp: view(1-8,13-15)\<close>)
qed

lemma dropEP_queue_ok:
  fixes now :: nanos
  assumes ok: "reg_ok X c k" and q: "queue_ok c fl k" and lv: "live k e"
  shows "queue_ok c fl (dropEPLocked c now e k)"
proof -
  let ?d = "ep_domain (eh k e)"
  obtain i sh where i: "domains k ?d = Some i" "i < dn k" and sh: "shares k (share_name c ?d) = Some sh"
    by (rule reg_live [OF ok lv])
  let ?k3 = "upd_dom i (\<lambda>d. d\<lparr>d_eps := d_eps d - 1\<rparr>) (drop_start c now e k)"
  note view = drop_start_sel [OF sh i(1), where now = now]
  have "queue_ok c fl ?k3 = queue_ok c fl k"
    by (rule queue_cong) (simp_all add: view dview_def eview_def)
  then have "queue_ok c fl ?k3" using q by simp
  then have k4: "queue_ok c fl (forgetLocked i e ?k3)"
    by (rule forgetLocked_ok) (use i in \<open>simp_all add: srv_def view\<close>)
  then show ?thesis
    unfolding dropEPLocked_eq [OF lv sh i(1)]
    using delete_domain_ok [OF k4, of ?d i] i(1) by (auto simp: forgetLocked_sel view Let_def)
qed

lemma dropEP_queued_live:
  fixes now :: nanos
  assumes ok: "reg_ok X c k" and q: "queued_live k" and lv: "live k e"
  shows "queued_live (dropEPLocked c now e k)"
proof -
  let ?d = "ep_domain (eh k e)"
  obtain i sh where i: "domains k ?d = Some i" and sh: "shares k (share_name c ?d) = Some sh"
    by (rule reg_live [OF ok lv])
  note view = dropEP_sel [OF lv sh i, where now = now]
  have url: "ep_url (eh k x) \<noteq> ep_url (eh k e)" if "live k x" "x \<noteq> e" for x
    using that lv by (auto simp: live_def)
  show ?thesis unfolding queued_live_def
  proof (intro allI impI)
    fix x assume x: "queuedReal (eh (dropEPLocked c now e k) x) \<or> queuedDecoy (eh (dropEPLocked c now e k) x)"
    then have ne: "x \<noteq> e" using view(16,17) by auto
    then have "live k x" using q x unfolding queued_live_def view(12) [OF ne] by blast
    then show "live (dropEPLocked c now e k) x" using url [OF _ ne] by (simp add: live_def view(3,14))
  qed
qed

lemma dropEP_en [simp]:
  fixes now :: nanos
  shows "en (dropEPLocked c now e k) = en k"
  by (simp add: dropEPLocked_def Let_def forgetLocked_sel split: option.split)

lemma links_less:
  assumes links: "links_ok (insert e X) k" and e: "live k e \<Longrightarrow> ep_keys (eh k e) \<noteq> {}"
  shows "links_ok X k"
proof -
  have fin: "finite (dom (regs k))" "finite (dom (eps k))"
    and lv: "\<forall>key r. regs k key = Some r \<longrightarrow> live k (rep r)"
    using links unfolding links_ok_def by blast+
  have "x < en k \<and> ep_url (eh k x) = u \<and> ep_keys (eh k x) = {key. \<exists>r. regs k key = Some r \<and> rep r = x} \<and>
      (x \<notin> X \<longrightarrow> ep_keys (eh k x) \<noteq> {})" if x: "eps k u = Some x" for u x
  proof (cases "x = e")
    case True
    have "live k e" using linksD(2) [OF links x] x True by (simp add: live_def)
    then show ?thesis using linksD(1-3) [OF links x] e True by blast
  next
    case False
    then show ?thesis using linksD [OF links x] by blast
  qed
  then show ?thesis unfolding links_ok_def using fin lv by blast
qed

lemma knock_inv_less:
  assumes "knock_inv (insert e X) c fl k" and "live k e \<Longrightarrow> ep_keys (eh k e) \<noteq> {}"
  shows "knock_inv X c fl k"
  using assms links_less [OF _ assms(2)] unfolding knock_inv_def reg_ok_def by blast

lemma dropEPLocked_inv:
  fixes now :: nanos
  assumes "knock_inv (insert e X) c fl k" and "live k e \<Longrightarrow> ep_keys (eh k e) = {}"
  shows "knock_inv X c fl (dropEPLocked c now e k)"
proof (cases "live k e")
  case True
  have ok: "reg_ok (insert e X) c k" "queue_ok c fl k" "queued_live k" "\<forall>e \<in> set fl. e < en k"
    using assms(1) by (simp_all add: knock_inv_def)
  show ?thesis unfolding knock_inv_def dropEP_en
    using dropEP_reg_ok [OF ok(1) True assms(2) [OF True]] dropEP_queue_ok [OF ok(1,2) True]
      dropEP_queued_live [OF ok(1,3) True] ok(4) by blast
next
  case False
  then have "knock_inv X c fl k" using knock_inv_less [OF assms(1)] by blast
  then show ?thesis using False by (simp add: dropEPLocked_def)
qed

lemma dropLocked_eq:
  assumes r: "regs k key = Some reg" and i: "domains k (ep_domain (eh k (rep reg))) = Some i"
    and sh: "shares k (share_name c (ep_domain (eh k (rep reg)))) = Some sh"
  defines "e \<equiv> rep reg"
  defines "k2 \<equiv> upd_share (share_name c (ep_domain (eh k e))) (\<lambda>s. s\<lparr>sh_regs := sh_regs s - 1\<rparr>)
    (upd_dom i (\<lambda>d. d\<lparr>d_regs := d_regs d - 1\<rparr>)
      (upd_ep e (\<lambda>p. p\<lparr>ep_keys := ep_keys p - {key}\<rparr>) (k\<lparr>regs := (regs k)(key := None)\<rparr>)))"
  shows "dropLocked c now key k = (if ep_keys (eh k e) - {key} = {} then dropEPLocked c now e k2 else k2)"
proof -
  let ?k1 = "upd_dom i (\<lambda>d. d\<lparr>d_regs := d_regs d - 1\<rparr>)
      (upd_ep e (\<lambda>p. p\<lparr>ep_keys := ep_keys p - {key}\<rparr>) (k\<lparr>regs := (regs k)(key := None)\<rparr>))"
  have "shareOf c now (ep_domain (eh k e)) ?k1 = ?k1"
    by (rule shareOf_there) (use sh in \<open>simp add: e_def\<close>)
  then show ?thesis using r i by (simp add: dropLocked_def k2_def e_def Let_def cong: if_cong)
qed

lemma dropLocked_inv:
  assumes inv: "knock_inv X c fl k"
  shows "knock_inv X c fl (dropLocked c now key k)"
proof (cases "regs k key")
  case None
  then show ?thesis using inv by (simp add: dropLocked_def)
next
  case (Some reg)
  let ?e = "rep reg"
  let ?d = "ep_domain (eh k ?e)" and ?u = "ep_url (eh k ?e)"
  have ok: "reg_ok X c k" and q: "queue_ok c fl k" and ql: "queued_live k" using inv by (simp_all add: knock_inv_def)
  have links: "links_ok X k" and heap: "heap_ok c k" and srv: "servers_ok c k" using ok by (simp_all add: reg_ok_def)
  have lv: "live k ?e" using links Some unfolding links_ok_def by blast
  obtain i sh where i: "domains k ?d = Some i" and sh: "shares k (share_name c ?d) = Some sh"
    and shok: "share_ok c k (share_name c ?d) sh" by (rule reg_live [OF ok lv])
  let ?k = "upd_share (share_name c ?d) (\<lambda>s. s\<lparr>sh_regs := sh_regs s - 1\<rparr>)
    (upd_dom i (\<lambda>d. d\<lparr>d_regs := d_regs d - 1\<rparr>)
      (upd_ep ?e (\<lambda>p. p\<lparr>ep_keys := ep_keys p - {key}\<rparr>) (k\<lparr>regs := (regs k)(key := None)\<rparr>)))"
  have e: "eps k ?u = Some ?e" using lv by (simp add: live_def)
  have pd: "pend c ?k x = pend c k x" for x by (simp add: pend_def sh)
  have lc: "local_change c ?e ?u key k ?k"
    by (rule local_changeI [OF links lv refl]) (use Some e in \<open>simp_all add: pd\<close>)
  note counts = counts_step [OF lc links]
  have base: "rcounts (dh k i) = (n_eps k ?d, n_regs k ?d, n_pending c k ?d, n_unchecked c k ?d)"
    using srv i by (simp add: servers_ok_def rcounts_def)
  have inj: "n = ?d" if "domains k n = Some i" for n using heap i that by (auto simp: heap_ok_def)
  have lv': "live ?k x = live k x" for x by (simp add: live_def)
  have "reg_ok (insert ?e X) c ?k"
  proof (rule reg_step [OF ok lc, where d = ?d])
    show "heap_ok c ?k" using heap by (simp add: heap_ok_def)
    show "rcounts (dh ?k j) = (n_eps ?k ?d, n_regs ?k ?d, n_pending c ?k ?d, n_unchecked c ?k ?d)"
      if "domains ?k ?d = Some j" for j
      using that i base e Some unfolding counts pd by (simp add: rcounts_def)
    show "\<exists>sh'. shares ?k (share_name c ?d) = Some sh' \<and> share_ok c ?k (share_name c ?d) sh'"
      using shok e Some sh unfolding share_ok_def counts lv' by simp
    show "rcounts (dh ?k j) = rcounts (dh k j)" if "n \<noteq> ?d" "domains k n = Some j" for n j
      using that inj by auto
    show "ep_keys (eh ?k ?e) = {x. \<exists>r. regs ?k x = Some r \<and> rep r = ?e}"
      using linksD(3) [OF links e] by auto
  qed (use linksD(1) [OF links e] e i in simp_all)
  moreover have "queue_ok c fl ?k = queue_ok c fl k"
    by (rule queue_cong) (simp_all add: dview_def eview_def)
  moreover have "queued_live ?k"
    by (rule queued_live_keep [OF ql]) (auto simp: eview_def live_def)
  ultimately have k2: "knock_inv (insert ?e X) c fl ?k" using q inv by (simp add: knock_inv_def)
  show ?thesis
  proof (cases "ep_keys (eh k ?e) - {key} = {}")
    case True
    then show ?thesis using dropEPLocked_inv [OF k2] by (simp add: dropLocked_eq [OF Some i sh])
  next
    case False
    then have "knock_inv X c fl ?k" by (intro knock_inv_less [OF k2]) simp
    then show ?thesis unfolding dropLocked_eq [OF Some i sh] if_not_P [OF False] .
  qed
qed

section \<open>A server made on first use\<close>

lemma domainLocked_there: "domains k n = Some i \<Longrightarrow> domainLocked c now n k = (i, k)"
  by (simp add: domainLocked_def)

lemma domainLocked_sel [simp]:
  "regs (snd (domainLocked c now n k)) = regs k" "forgets (snd (domainLocked c now n k)) = forgets k"
  "eps (snd (domainLocked c now n k)) = eps k" "eh (snd (domainLocked c now n k)) = eh k"
  "en (snd (domainLocked c now n k)) = en k" "shares (snd (domainLocked c now n k)) = shares k"
  "queue (snd (domainLocked c now n k)) = queue k" "timers (snd (domainLocked c now n k)) = timers k"
  "store_ch (snd (domainLocked c now n k)) = store_ch k" "live (snd (domainLocked c now n k)) = live k"
  by (auto simp: domainLocked_def live_def split: option.split)

lemma domainLocked_domains:
  "domains (snd (domainLocked c now n k)) = (domains k)(n \<mapsto> fst (domainLocked c now n k))"
  by (auto simp: domainLocked_def split: option.split)

lemma new_server_queue_ok:
  assumes ok: "queue_ok c fl k" and none: "domains k n = None"
  shows "queue_ok c fl (snd (domainLocked c now n k))"
proof -
  let ?k = "snd (domainLocked c now n k)" and ?i = "dn k"
  have k: "domains ?k = (domains k)(n \<mapsto> ?i)" "dh ?k = (dh k)(?i := new_domain c now n)" "dn ?k = Suc ?i"
    "eh ?k = eh k" "queue ?k = queue k" using none by (simp_all add: domainLocked_def)
  have heap: "heap_ok c k" and doms: "\<forall>j < dn k. dom_ok k j" and rings: "ring_ok k" and sums: "sums_ok k"
    and flight: "flight_ok fl k" and marks: "marks_ok k" using ok by (simp_all add: queue_ok_def)
  have lt: "j < ?i" if "srv k e j" for e j using heap that by (auto simp: heap_ok_def srv_def)
  have srv: "srv ?k e j \<longleftrightarrow> (if ep_domain (eh k e) = n then j = ?i else srv k e j)" for e j
    by (auto simp: srv_def k)
  have off: "ep_domain (eh k e) \<noteq> n" if "srv k e j" for e j using that none by (auto simp: srv_def)
  have fresh: "dpush (new_domain c now n) = (n \<in> pushHosts c)" "lanes (new_domain c now n) t = []"
    "decoys (new_domain c now n) = []" "\<not> inRing (new_domain c now n)" "inflight (new_domain c now n) = 0"
    "waiting (new_domain c now n) = 0" "dname (new_domain c now n) = n" "reals (new_domain c now n) = []" for t
    by (simp_all add: new_domain_def waiting_eq reals_def)
  have "heap_ok c ?k" using heap by (fastforce simp: heap_ok_def k fresh)
  moreover have "dom_ok ?k j" if "j < dn ?k" for j
  proof (cases "j = ?i")
    case True
    then show ?thesis by (simp add: dom_ok_def Let_def k fresh)
  next
    case False
    then have "dom_ok k j" using that doms by (simp add: k)
    then show ?thesis using False off unfolding dom_ok_def Let_def srv by (auto simp: k)
  qed
  moreover have "ring_ok ?k"
  proof -
    have "ring p ?k = ring p k" for p by (simp add: ring_def k)
    then show ?thesis using rings by (auto simp: ring_ok_def k fresh less_Suc_eq)
  qed
  moreover have "sums_ok ?k" using sums unfolding sums_ok_def k by (simp add: fresh cong: if_cong)
  moreover have "flight_ok fl ?k"
  proof -
    have fl: "\<exists>i. srv k e i" if "e \<in> set fl" for e using flight that by (simp add: flight_ok_def)
    have "\<not> srv ?k e ?i" if "e \<in> set fl" for e using fl [OF that] off lt unfolding srv by (metis less_irrefl)
    then have none: "filter (\<lambda>e. srv ?k e ?i) fl = []" by (simp add: filter_empty_conv)
    have same: "filter (\<lambda>e. srv ?k e j) fl = filter (\<lambda>e. srv k e j) fl" for j
      using fl off unfolding srv by (intro filter_cong) auto
    have cap: "0 \<le> busyCap (new_domain c now n)" by (simp add: busyCap_def knockPerPushServer_def knockPerServer_def)
    have busy: "\<forall>j < dn k. inflight (dh k j) \<le> busyCap (dh k j)" using flight unfolding flight_ok_def by blast
    show ?thesis unfolding flight_ok_def
    proof (intro conjI ballI allI impI)
      show "\<exists>i. srv ?k e i" if "e \<in> set fl" for e using fl [OF that] by (auto simp: srv)
      show "inflight (dh ?k j) = int (length (filter (\<lambda>e. srv ?k e j) fl))" if "j < dn ?k" for j
        using that none same flight by (cases "j = ?i") (simp_all add: k fresh flight_ok_def)
      show "inflight (dh ?k j) \<le> busyCap (dh ?k j)" if "j < dn ?k" for j
        using that cap busy by (cases "j = ?i") (simp_all add: k fresh)
    qed (use flight in \<open>simp add: flight_ok_def k\<close>)
  qed
  moreover have "marks_ok ?k" unfolding marks_ok_def
  proof (intro conjI allI impI)
    have keep: "srv ?k e i \<and> dh ?k i = dh k i" if "srv k e i" for e i
      using that lt [OF that] off [OF that] by (simp add: srv k)
    show "\<exists>i. srv ?k e i \<and> e \<in> set (reals (dh ?k i))" if "queuedReal (eh ?k e)" for e
      using marks that keep unfolding marks_ok_def k(4) by metis
    show "\<exists>i. srv ?k e i \<and> e \<in> set (decoys (dh ?k i))" if "queuedDecoy (eh ?k e)" for e
      using marks that keep unfolding marks_ok_def k(4) by metis
  qed
  ultimately show ?thesis by (simp add: queue_ok_def)
qed

lemma new_server_reg_ok:
  assumes ok: "reg_ok X c k" and none: "domains k n = None"
  shows "reg_ok X c (snd (domainLocked c now n k))"
proof -
  let ?k = "snd (domainLocked c now n k)" and ?i = "dn k"
  have k: "dh ?k = (dh k)(?i := new_domain c now n)" "dn ?k = Suc ?i" "domains ?k = (domains k)(n \<mapsto> ?i)"
    using none by (simp_all add: domainLocked_def)
  have links: "links_ok X k" and srv: "servers_ok c k" and shr: "shares_ok c k" and heap: "heap_ok c k"
    using ok by (simp_all add: reg_ok_def)
  have pd: "pend c ?k e = pend c k e" for e by (simp add: pend_def)
  have same: "n_eps ?k = n_eps k" "n_regs ?k = n_regs k" "n_pending c ?k = n_pending c k"
    "n_unchecked c ?k = n_unchecked c k" "s_eps c ?k = s_eps c k" "s_regs c ?k = s_regs c k"
    by (intro ext; simp add: n_eps_def n_regs_def n_pending_def n_unchecked_def s_eps_def s_regs_def pd)+
  have "heap_ok c ?k" using heap by (fastforce simp: heap_ok_def k new_domain_def)
  moreover have "links_ok X ?k" using links unfolding links_ok_def domainLocked_sel .
  moreover have "shares_ok c ?k" using shr unfolding shares_ok_def share_ok_def same domainLocked_sel .
  moreover have "servers_ok c ?k" unfolding servers_ok_def same
  proof (intro conjI allI impI)
    fix m j assume m: "domains ?k m = Some j"
    show "d_eps (dh ?k j) = n_eps k m" "d_regs (dh ?k j) = n_regs k m"
      "d_pending (dh ?k j) = n_pending c k m" "d_unchecked (dh ?k j) = n_unchecked c k m"
    proof -
      have "d_eps (dh ?k j) = n_eps k m \<and> d_regs (dh ?k j) = n_regs k m \<and>
          d_pending (dh ?k j) = n_pending c k m \<and> d_unchecked (dh ?k j) = n_unchecked c k m"
      proof (cases "m = n")
        case True
        then show ?thesis using m missing_server_counts [OF links srv none] by (simp add: k new_domain_def)
      next
        case False
        then have "domains k m = Some j" using m by (simp add: k)
        then show ?thesis using heap srv by (simp add: k heap_ok_def servers_ok_def) (metis less_irrefl)
      qed
      then show "d_eps (dh ?k j) = n_eps k m" "d_regs (dh ?k j) = n_regs k m"
        "d_pending (dh ?k j) = n_pending c k m" "d_unchecked (dh ?k j) = n_unchecked c k m" by blast+
    qed
  next
    fix u e assume "eps ?k u = Some e"
    then have "domains k (ep_domain (eh k e)) \<noteq> None" using srv unfolding servers_ok_def by simp
    then show "domains ?k (ep_domain (eh ?k e)) \<noteq> None" by (simp add: k)
  qed
  ultimately show ?thesis by (simp add: reg_ok_def)
qed

lemma domainLocked_inv:
  assumes inv: "knock_inv X c fl k"
  shows "knock_inv X c fl (snd (domainLocked c now n k))"
proof (cases "domains k n")
  case None
  then show ?thesis using inv new_server_queue_ok [OF _ None, of c fl] new_server_reg_ok [OF _ None, of X c]
    by (simp add: knock_inv_def queued_live_def)
next
  case (Some i)
  then show ?thesis using inv by (simp add: domainLocked_there)
qed

end
