(* ===== verification/Knock_Registry_Steps.thy ===== *)
theory Knock_Registry_Steps
  imports Knock_Registry_Inv
begin

text \<open>
  Every operation of the knocker keeps the invariant of \<open>Knock_Registry_Inv\<close>: taking a registration in its
  parts, forgetting one, the timers, the sweep, endpoints that are gone, the queue and the load.
\<close>

section \<open>What no part of the invariant reads\<close>

lemma knock_inv_cong:
  assumes "regs k' = regs k" and "eps k' = eps k" and "domains k' = domains k" and "shares k' = shares k"
    and "en k' = en k" and "dn k' = dn k" and "queue k' = queue k"
    and "\<And>e. rview (eh k' e) = rview (eh k e)" and "\<And>e. eview (eh k' e) = eview (eh k e)"
    and "\<And>i. rcounts (dh k' i) = rcounts (dh k i)" and "\<And>i. dview (dh k' i) = dview (dh k i)"
  shows "knock_inv X c fl k' = knock_inv X c fl k"
proof -
  have lv: "live k' e = live k e" for e using rviewD [OF assms(8)] by (simp add: live_def assms(2))
  have "queued_live k' = queued_live k"
    using assms(9) lv unfolding queued_live_def eview_def by (metis prod.inject)
  moreover have "reg_ok X c k' = reg_ok X c k"
    using assms(8,10) dviewD(1,2) [OF assms(11)] by (intro reg_cong) (simp_all add: assms(1-6))
  moreover have "queue_ok c fl k' = queue_ok c fl k"
    using assms(9,11) by (intro queue_cong) (simp_all add: assms(3,6,7))
  ultimately show ?thesis by (simp add: knock_inv_def assms(5))
qed

text \<open>Stamps, timers, channel and counts of an endpoint.\<close>

lemma upd_ep_inv:
  assumes "\<And>p. rview (f p) = rview p" and "\<And>p. eview (f p) = eview p"
  shows "knock_inv X c fl (upd_ep e f k) = knock_inv X c fl k"
  by (rule knock_inv_cong) (simp_all add: assms)

lemma after_inv [simp]: "knock_inv X c fl (after now w t k) = knock_inv X c fl k"
  by (rule knock_inv_cong) (simp_all add: after_def)

lemma stats_inv [simp]: "knock_inv X c fl (k\<lparr>stats := s\<rparr>) = knock_inv X c fl k"
  by (rule knock_inv_cong) simp_all

lemma forgets_inv [simp]: "knock_inv X c fl (k\<lparr>forgets := s\<rparr>) = knock_inv X c fl k"
  by (rule knock_inv_cong) simp_all

lemma store_inv [simp]:
  "knock_inv X c fl (store_put key ep m ex b del k) = knock_inv X c fl k"
  "knock_inv X c fl (store_putSweep key k) = knock_inv X c fl k"
  by (rule knock_inv_cong; simp add: store_put_def store_putSweep_def)+

lemma decoyAfter_inv [simp]: "knock_inv X c fl (decoyAfterLocked now e w k) = knock_inv X c fl k"
  by (simp add: decoyAfterLocked_def Let_def upd_ep_inv rview_def eview_def)

lemma decoyLocked_inv [simp]: "knock_inv X c fl (decoyLocked d now R e k) = knock_inv X c fl k"
  by (simp add: decoyLocked_def)

lemma recheck_inv [simp]: "knock_inv X c fl (recheckLocked d now R e k) = knock_inv X c fl k"
  by (simp add: recheckLocked_def Let_def)

lemma decoyRunLocked_inv [simp]: "knock_inv X c fl (decoyRunLocked d now R e gen left k) = knock_inv X c fl k"
  by (simp add: decoyRunLocked_def Let_def)

lemma shareOf_inv:
  assumes "knock_inv X c fl k"
  shows "knock_inv X c fl (shareOf c now d k)"
proof -
  have "queue_ok c fl (shareOf c now d k) = queue_ok c fl k" by (rule queue_cong) simp_all
  moreover have "queued_live (shareOf c now d k) = queued_live k" by (simp add: queued_live_def)
  ultimately show ?thesis using assms shareOf_ok [of X c k now d] by (simp add: knock_inv_def)
qed

lemma fresh_inv [simp]:
  "knock_inv X c fl (upd_share n (\<lambda>s. s\<lparr>fresh := f s\<rparr>) k) = knock_inv X c fl k"
proof -
  let ?k = "upd_share n (\<lambda>s. s\<lparr>fresh := f s\<rparr>) k"
  have pd: "pend c ?k e = pend c k e" for e by (auto simp: pend_def split: option.split)
  have same: "n_eps ?k = n_eps k" "n_regs ?k = n_regs k" "n_pending c ?k = n_pending c k"
    "n_unchecked c ?k = n_unchecked c k" "s_eps c ?k = s_eps c k" "s_regs c ?k = s_regs c k"
    by (intro ext; simp add: n_eps_def n_regs_def n_pending_def n_unchecked_def s_eps_def s_regs_def pd)+
  have one: "(\<forall>sh. shares ?k s = Some sh \<longrightarrow> share_ok c ?k s sh) = (\<forall>sh. shares k s = Some sh \<longrightarrow> share_ok c k s sh)" for s
    by (cases "shares k s") (auto simp: share_ok_def same)
  have "(shares ?k s = None) = (shares k s = None)" for s by simp
  then have "shares_ok c ?k = shares_ok c k" unfolding shares_ok_def one by simp
  moreover have "links_ok X ?k = links_ok X k" unfolding links_ok_def by (simp only: upd_share_sel live_frame)
  moreover have "servers_ok c ?k = servers_ok c k" "heap_ok c ?k = heap_ok c k"
    by (simp_all add: servers_ok_def heap_ok_def same)
  moreover have "queue_ok c fl ?k = queue_ok c fl k" by (rule queue_cong) simp_all
  moreover have "queued_live ?k = queued_live k" by (simp add: queued_live_def)
  ultimately show ?thesis by (simp add: knock_inv_def reg_ok_def)
qed

section \<open>Setting a registration\<close>

lemma knock_inv_more: "knock_inv X c fl k \<Longrightarrow> knock_inv (insert e X) c fl k"
  unfolding knock_inv_def reg_ok_def links_ok_def by blast

text \<open>A new endpoint: what \<open>takeEP\<close> makes of a state that has the server and the share.\<close>

lemma takeEP_sel:
  fixes now :: nanos and c :: knock_cfg and u :: string and k :: knocker
  defines "nm \<equiv> domain_of (lib c) u"
  defines "k0 \<equiv> shareOf c now nm (snd (domainLocked c now nm k))" and "i \<equiv> fst (domainLocked c now nm k)"
  defines "sh \<equiv> the_share c nm k0"
  shows "fst (takeEP c now R u k) = en k" "regs (snd (takeEP c now R u k)) = regs k0"
    "eps (snd (takeEP c now R u k)) = (eps k0)(u \<mapsto> en k)" "en (snd (takeEP c now R u k)) = Suc (en k0)"
    "domains (snd (takeEP c now R u k)) = domains k0" "dn (snd (takeEP c now R u k)) = dn k0"
    "queue (snd (takeEP c now R u k)) = queue k0"
    "shares (snd (takeEP c now R u k)) = (shares k0)(share_name c nm \<mapsto>
       sh\<lparr>sh_eps := sh_eps sh + 1, sh_pending := insert (en k) (sh_pending sh)\<rparr>)"
    "dh (snd (takeEP c now R u k)) j = (if j = i then (dh k0 i)\<lparr>d_eps := d_eps (dh k0 i) + 1,
       d_pending := d_pending (dh k0 i) + 1\<rparr> else dh k0 j)"
    "eh (snd (takeEP c now R u k)) = (eh k0)(en k := (new_ep u nm now)\<lparr>decoyGen := 1, decoyAt := now + (minute + r_first R)\<rparr>)"
    "domains k0 nm = Some i" "shares k0 (share_name c nm) = Some sh" "en k0 = en k" "eps k0 = eps k"
    "forgets (snd (takeEP c now R u k)) = forgets k0" "store_ch (snd (takeEP c now R u k)) = store_ch k0"
proof -
  let ?k1 = "k\<lparr>eps := (eps k)(u \<mapsto> en k), eh := (eh k)(en k := new_ep u nm now), en := Suc (en k)\<rparr>"
  have dl: "fst (domainLocked c now nm ?k1) = i" "dh (snd (domainLocked c now nm ?k1)) = dh k0"
    "dn (snd (domainLocked c now nm ?k1)) = dn k0" "domains (snd (domainLocked c now nm ?k1)) = domains k0"
    by (simp_all add: i_def k0_def domainLocked_def split: option.split)
  let ?k2 = "upd_dom i (\<lambda>d. d\<lparr>d_eps := d_eps d + 1\<rparr>) (snd (domainLocked c now nm ?k1))"
  have so: "shares (shareOf c now nm ?k2) = shares k0"
    by (rule ext) (auto simp: shareOf_shares k0_def)
  have eq: "takeEP c now R u k = (en k, decoyAfterLocked now (en k) (minute + r_first R)
     (upd_dom i (\<lambda>d. d\<lparr>d_pending := d_pending d + 1\<rparr>) (upd_share (share_name c nm)
       (\<lambda>s. s\<lparr>sh_eps := sh_eps s + 1, sh_pending := insert (en k) (sh_pending s)\<rparr>) (shareOf c now nm ?k2))))"
    by (simp add: takeEP_def nm_def [symmetric] Let_def dl(1) case_prod_beta)
  have there: "shares k0 (share_name c nm) = Some sh" unfolding sh_def k0_def by (rule the_share_shareOf)
  show "shares (snd (takeEP c now R u k)) = (shares k0)(share_name c nm \<mapsto>
       sh\<lparr>sh_eps := sh_eps sh + 1, sh_pending := insert (en k) (sh_pending sh)\<rparr>)"
    unfolding eq by (rule ext) (simp add: decoyAfterLocked_def after_def Let_def so there)
  show "eh (snd (takeEP c now R u k)) = (eh k0)(en k := (new_ep u nm now)\<lparr>decoyGen := 1, decoyAt := now + (minute + r_first R)\<rparr>)"
    unfolding eq by (rule ext) (simp add: decoyAfterLocked_def after_def Let_def k0_def new_ep_def)
  show "dh (snd (takeEP c now R u k)) j = (if j = i then (dh k0 i)\<lparr>d_eps := d_eps (dh k0 i) + 1,
       d_pending := d_pending (dh k0 i) + 1\<rparr> else dh k0 j)"
    unfolding eq by (simp add: decoyAfterLocked_def after_def Let_def dl)
  show "domains k0 nm = Some i" by (simp add: k0_def i_def domainLocked_domains)
  show "shares k0 (share_name c nm) = Some sh" by (rule there)
qed (simp_all add: takeEP_def nm_def [symmetric] Let_def case_prod_beta decoyAfterLocked_def after_def k0_def domainLocked_def
    split: option.split)

lemma local_change_fresh:
  assumes links: "links_ok X k" and "regs k' = regs k" and key0: "regs k key0 = None"
    and u: "eps k u = None" and "eps k' = (eps k)(u \<mapsto> en k)"
    and "\<And>x. x \<noteq> en k \<Longrightarrow> rview (eh k' x) = rview (eh k x)" and "\<And>x. x \<noteq> en k \<Longrightarrow> pend c k' x = pend c k x"
  shows "local_change c (en k) u key0 k k'"
proof -
  have none: "eps k v \<noteq> Some (en k)" for v using linksD(1) [OF links, of v "en k"] by auto
  then have "\<not> live k (en k)" by (simp add: live_def)
  then show ?thesis unfolding local_change_def assms(2,5) using none u key0 assms(6,7) by simp
qed

lemma takeEP_reg_ok:
  fixes now :: nanos
  assumes inv: "knock_inv X c fl k" and u: "eps k u = None"
  shows "reg_ok (insert (en k) X) c (snd (takeEP c now R u k))"
proof -
  let ?d = "domain_of (lib c) u" and ?k = "snd (takeEP c now R u k)" and ?e = "en k"
  let ?b = "shareOf c now ?d (snd (domainLocked c now ?d k))" and ?i = "fst (domainLocked c now ?d k)"
  let ?sh = "the_share c ?d ?b"
  note view = takeEP_sel(1-10) [where c = c and now = now and R = R and u = u and k = k]
    takeEP_sel(11-14) [where c = c and now = now and u = u and k = k]
  have "knock_inv X c fl ?b" by (intro shareOf_inv domainLocked_inv inv)
  then have ok: "reg_ok X c ?b" by (simp add: knock_inv_def)
  then have links: "links_ok X ?b" and heap: "heap_ok c ?b" and srv: "servers_ok c ?b"
    and shok: "share_ok c ?b (share_name c ?d) ?sh"
    using view(12) by (simp_all add: reg_ok_def shares_ok_def)
  have u0: "eps ?b u = None" using u view(14) by simp
  obtain key0 where key0: "regs ?b key0 = None"
    using links fresh_key [of "regs ?b"] unfolding links_ok_def by blast
  have dom: "ep_domain (eh ?k ?e) = ?d" by (simp add: view(10) new_ep_def)
  have pd: "pend c ?k x = (x = ?e \<or> pend c ?b x)" for x
    by (auto simp: pend_def view(8,10,12) new_ep_def split: option.splits)
  have lc: "local_change c (en ?b) u key0 ?b ?k"
    by (rule local_change_fresh [OF links _ key0 u0]) (simp_all add: view(2,3,10,13) pd)
  have lc: "local_change c ?e u key0 ?b ?k" using lc by (simp only: view(13))
  note counts = counts_step [OF lc links]
  have base: "rcounts (dh ?b ?i) = (n_eps ?b ?d, n_regs ?b ?d, n_pending c ?b ?d, n_unchecked c ?b ?d)"
    using srv view(11) by (simp add: servers_ok_def rcounts_def)
  have inj: "n = ?d" if "domains ?b n = Some ?i" for n using heap view(11) that by (auto simp: heap_ok_def)
  have none: "rep r \<noteq> ?e" if "regs ?b key = Some r" for key r
  proof -
    have "live ?b (rep r)" using links that unfolding links_ok_def by blast
    then show ?thesis using linksD(1) [OF links] unfolding live_def by (metis view(13) less_irrefl)
  qed
  have new: "eps ?k u = Some ?e" "regs ?k key0 = None" "\<not> ep_unchecked (eh ?k ?e)" "ep_keys (eh ?k ?e) = {}"
    using key0 by (simp_all add: view(2,3,10) new_ep_def)
  show ?thesis
  proof (rule reg_step [OF ok lc, where d = ?d])
    show "heap_ok c ?k" using heap by (auto simp: heap_ok_def view(5,6,9))
    show "rcounts (dh ?k j) = (n_eps ?k ?d, n_regs ?k ?d, n_pending c ?k ?d, n_unchecked c ?k ?d)"
      if j: "domains ?k ?d = Some j" for j
    proof -
      have "j = ?i" using j unfolding view(5,11) by simp
      then show ?thesis using base key0 u0 new unfolding counts dom by (simp add: view(9) rcounts_def pd)
    qed
    show "\<exists>sh'. shares ?k (share_name c ?d) = Some sh' \<and> share_ok c ?k (share_name c ?d) sh'"
    proof -
      have "live ?k x" if "x \<noteq> ?e" "live ?b x" for x using local_change_live [OF lc links that] .
      moreover have "live ?k ?e" using new(1) by (simp add: live_def view(10) new_ep_def)
      moreover have "ep_domain (eh ?k x) = ep_domain (eh ?b x)" if "x \<noteq> ?e" for x using that by (simp add: view(10))
      ultimately have "live ?k x \<and> share_name c (ep_domain (eh ?k x)) = share_name c ?d"
        if "x \<in> insert ?e (sh_pending ?sh)" for x
        using that shok dom unfolding share_ok_def by (cases "x = ?e") auto
      then show ?thesis using shok key0 u0 new unfolding view(8) share_ok_def counts dom by simp
    qed
    show "rcounts (dh ?k j) = rcounts (dh ?b j)" if "n \<noteq> ?d" "domains ?b n = Some j" for n j
      using that inj by (auto simp: view(9))
    show "ep_keys (eh ?k ?e) = {key. \<exists>r. regs ?k key = Some r \<and> rep r = ?e}"
      using none unfolding new(4) view(2) by blast
    show "n_eps ?k ?d = 0" if "domains ?k ?d = None" using that unfolding view(5,11) by simp
  qed (use new u0 in \<open>auto simp: dom view(2-8,10,11,13) new_ep_def\<close>)
qed

text \<open>An endpoint just made is not waiting, and no post to it is in flight.\<close>

lemma queue_fresh:
  assumes ok: "queue_ok c fl k" and e: "\<not> queuedReal (eh k e)" "\<not> queuedDecoy (eh k e)" "e \<notin> set fl"
    and p: "\<not> queuedReal p" "\<not> queuedDecoy p"
  shows "queue_ok c fl (k\<lparr>eh := (eh k)(e := p)\<rparr>)"
proof -
  let ?k = "k\<lparr>eh := (eh k)(e := p)\<rparr>"
  have heap: "heap_ok c k" and doms: "\<forall>j < dn k. dom_ok k j" and rings: "ring_ok k" and sums: "sums_ok k"
    and flight: "flight_ok fl k" and marks: "marks_ok k" using ok by (simp_all add: queue_ok_def)
  have srv: "srv ?k x i = srv k x i" if "x \<noteq> e" for x i using that by (simp add: srv_def)
  have "dom_ok ?k j" if j: "j < dn k" for j
  proof -
    have o: "dom_ok k j" using doms j by blast
    then have "e \<notin> set (reals (dh k j))" "e \<notin> set (decoys (dh k j))" using e by (auto simp: dom_ok_def Let_def)
    then have "x \<noteq> e" if "x \<in> set (reals (dh k j)) \<or> x \<in> set (decoys (dh k j))" for x using that by auto
    then show ?thesis using o srv unfolding dom_ok_def Let_def by auto
  qed
  moreover have "heap_ok c ?k" "ring_ok ?k" "sums_ok ?k"
  proof -
    have "ring q ?k = ring q k" for q by (simp add: ring_def)
    then show "heap_ok c ?k" "ring_ok ?k" "sums_ok ?k"
      using heap rings sums unfolding heap_ok_def ring_ok_def sums_ok_def by (simp_all cong: if_cong)
  qed
  moreover have "flight_ok fl ?k"
  proof -
    have *: "srv ?k x i = srv k x i" if "x \<in> set fl" for x i using that e(3) srv by metis
    then have "filter (\<lambda>x. srv ?k x i) fl = filter (\<lambda>x. srv k x i) fl" for i
      by (intro filter_cong) simp_all
    then have "flight_ok fl ?k = flight_ok fl k" using * by (simp add: flight_ok_def)
    then show ?thesis using flight by simp
  qed
  moreover have "marks_ok ?k" using marks e p srv unfolding marks_ok_def by (simp split: if_split)
  ultimately show ?thesis by (simp add: queue_ok_def)
qed

lemma takeEP_inv:
  fixes now :: nanos
  assumes inv: "knock_inv X c fl k" and u: "eps k u = None"
  shows "knock_inv (insert (en k) X) c fl (snd (takeEP c now R u k))"
proof -
  let ?d = "domain_of (lib c) u" and ?k = "snd (takeEP c now R u k)" and ?e = "en k"
  let ?b = "shareOf c now ?d (snd (domainLocked c now ?d k))"
  note view = takeEP_sel(1-10) [where c = c and now = now and R = R and u = u and k = k]
    takeEP_sel(11-14) [where c = c and now = now and u = u and k = k]
  have b: "knock_inv X c fl ?b" by (intro shareOf_inv domainLocked_inv inv)
  have links: "links_ok X ?b" and q: "queue_ok c fl ?b" and ql: "queued_live ?b" and fl: "\<forall>e \<in> set fl. e < ?e"
    using b by (simp_all add: knock_inv_def reg_ok_def)
  have "\<not> live ?b ?e" using linksD(1) [OF links] view(13) unfolding live_def by (metis less_irrefl)
  then have e: "\<not> queuedReal (eh ?b ?e)" "\<not> queuedDecoy (eh ?b ?e)" "?e \<notin> set fl"
    using ql fl by (auto simp: queued_live_def)
  have "queue_ok c fl (?b\<lparr>eh := (eh ?b)(?e := eh ?k ?e)\<rparr>)"
    by (rule queue_fresh [OF q e]) (simp_all add: view(10) new_ep_def)
  moreover have "queue_ok c fl ?k = queue_ok c fl (?b\<lparr>eh := (eh ?b)(?e := eh ?k ?e)\<rparr>)"
    by (rule queue_cong) (simp_all add: view(5-7,9,10) dview_def)
  moreover have "queued_live ?k" unfolding queued_live_def
  proof (intro allI impI)
    fix x assume x: "queuedReal (eh ?k x) \<or> queuedDecoy (eh ?k x)"
    then have ne: "x \<noteq> ?e" by (auto simp: view(10) new_ep_def)
    then have "eh ?k x = eh ?b x" by (simp add: view(10))
    then have "live ?b x" using x ql unfolding queued_live_def by metis
    moreover from this have "ep_url (eh ?b x) \<noteq> u" using u by (auto simp: live_def)
    ultimately show "live ?k x" using ne by (simp add: live_def view(3,10))
  qed
  moreover have "\<forall>x \<in> set fl. x < en ?k" using fl by (auto simp: view(4))
  ultimately show ?thesis using takeEP_reg_ok [OF inv u] by (simp add: knock_inv_def)
qed

text \<open>The registration itself, on an endpoint that is there.\<close>

definition bind_to :: "knock_cfg \<Rightarrow> dom_id \<Rightarrow> ep_id \<Rightarrow> key \<Rightarrow> knockReg \<Rightarrow> knocker \<Rightarrow> knocker" where
  "bind_to c i e key r k =
     (upd_share (share_name c (ep_domain (eh k e))) (\<lambda>s. s\<lparr>sh_regs := sh_regs s + 1\<rparr>)
       (upd_dom i (\<lambda>d. d\<lparr>d_regs := d_regs d + 1\<rparr>)
         (upd_ep e (\<lambda>p. p\<lparr>ep_keys := insert key (ep_keys p)\<rparr>) k)))\<lparr>regs := (regs k)(key \<mapsto> r)\<rparr>"

lemma bind_to_sel [simp]:
  "regs (bind_to c i e key r k) = (regs k)(key \<mapsto> r)" "eps (bind_to c i e key r k) = eps k"
  "forgets (bind_to c i e key r k) = forgets k" "domains (bind_to c i e key r k) = domains k"
  "en (bind_to c i e key r k) = en k" "dn (bind_to c i e key r k) = dn k" "queue (bind_to c i e key r k) = queue k"
  "store_ch (bind_to c i e key r k) = store_ch k" "timers (bind_to c i e key r k) = timers k"
  "shares (bind_to c i e key r k) s = (if s = share_name c (ep_domain (eh k e))
     then map_option (\<lambda>s. s\<lparr>sh_regs := sh_regs s + 1\<rparr>) (shares k s) else shares k s)"
  "dh (bind_to c i e key r k) j = (if j = i then (dh k i)\<lparr>d_regs := d_regs (dh k i) + 1\<rparr> else dh k j)"
  "eh (bind_to c i e key r k) x = (if x = e then (eh k e)\<lparr>ep_keys := insert key (ep_keys (eh k e))\<rparr> else eh k x)"
  "live (bind_to c i e key r k) x = live k x"
  by (auto simp: bind_to_def live_def)

lemma bind_to_inv:
  assumes inv: "knock_inv (insert e X) c fl k" and lv: "live k e" and key: "regs k key = None" and r: "rep r = e"
    and i: "domains k (ep_domain (eh k e)) = Some i"
  shows "knock_inv X c fl (bind_to c i e key r k)"
proof -
  let ?k = "bind_to c i e key r k" and ?d = "ep_domain (eh k e)" and ?u = "ep_url (eh k e)"
  have ok: "reg_ok (insert e X) c k" and q: "queue_ok c fl k" and ql: "queued_live k"
    and fl: "\<forall>x \<in> set fl. x < en k" using inv by (simp_all add: knock_inv_def)
  have links: "links_ok (insert e X) k" and heap: "heap_ok c k" and srv: "servers_ok c k"
    using ok by (simp_all add: reg_ok_def)
  obtain sh where sh: "shares k (share_name c ?d) = Some sh"
    and shok: "share_ok c k (share_name c ?d) sh" by (rule reg_live [OF ok lv])
  have e: "eps k ?u = Some e" using lv by (simp add: live_def)
  have pd: "pend c ?k x = pend c k x" for x by (simp add: pend_def sh)
  have lc: "local_change c e ?u key k ?k"
    by (rule local_changeI [OF links lv refl]) (use key r e in \<open>simp_all add: pd\<close>)
  note counts = counts_step [OF lc links]
  have base: "rcounts (dh k i) = (n_eps k ?d, n_regs k ?d, n_pending c k ?d, n_unchecked c k ?d)"
    using srv i by (simp add: servers_ok_def rcounts_def)
  have inj: "n = ?d" if "domains k n = Some i" for n using heap i that by (auto simp: heap_ok_def)
  have "reg_ok X c ?k"
  proof (rule reg_step [OF ok lc, where d = ?d])
    show "heap_ok c ?k" using heap by (simp add: heap_ok_def)
    show "rcounts (dh ?k j) = (n_eps ?k ?d, n_regs ?k ?d, n_pending c ?k ?d, n_unchecked c ?k ?d)"
      if "domains ?k ?d = Some j" for j
      using that i base e key unfolding counts pd by (simp add: rcounts_def)
    show "\<exists>sh'. shares ?k (share_name c ?d) = Some sh' \<and> share_ok c ?k (share_name c ?d) sh'"
      using shok e key sh unfolding share_ok_def counts by simp
    show "rcounts (dh ?k j) = rcounts (dh k j)" if "n \<noteq> ?d" "domains k n = Some j" for n j
      using that inj by auto
    show "ep_keys (eh ?k e) = {x. \<exists>s. regs ?k x = Some s \<and> rep s = e}"
      using linksD(3) [OF links e] key r by auto
  qed (use linksD(1) [OF links e] e i in simp_all)
  moreover have "queue_ok c fl ?k = queue_ok c fl k"
    by (rule queue_cong) (simp_all add: dview_def eview_def)
  moreover have "queued_live ?k" by (rule queued_live_keep [OF ql]) (simp_all add: eview_def)
  ultimately show ?thesis using q fl by (simp add: knock_inv_def)
qed

lemma bind_reg_eq:
  fixes now :: nanos
  assumes e: "live k1 e" and k1: "(case eps k u of Some e \<Rightarrow> (e, k) | None \<Rightarrow> takeEP c now R u k) = (e, k1)"
    and inv: "knock_inv X c fl k1"
  obtains i where "domains k1 (ep_domain (eh k1 e)) = Some i"
    and "bind_reg c now R key u m ex first k = bind_to c i e key \<lparr>rep = e, made = m, expires = ex, rfirst = first\<rparr> k1"
proof -
  have "reg_ok X c k1" using inv by (simp add: knock_inv_def)
  then obtain i sh where i: "domains k1 (ep_domain (eh k1 e)) = Some i"
    and sh: "shares k1 (share_name c (ep_domain (eh k1 e))) = Some sh" by (rule reg_live [OF _ e])
  let ?k = "upd_dom i (\<lambda>d. d\<lparr>d_regs := d_regs d + 1\<rparr>) (upd_ep e (\<lambda>p. p\<lparr>ep_keys := insert key (ep_keys p)\<rparr>) k1)"
  have "shareOf c now (ep_domain (eh k1 e)) ?k = ?k" by (rule shareOf_there) (simp add: sh)
  then have "bind_reg c now R key u m ex first k = bind_to c i e key \<lparr>rep = e, made = m, expires = ex, rfirst = first\<rparr> k1"
    by (simp add: bind_reg_def k1 domainLocked_there [OF i] bind_to_def Let_def)
  then show thesis using that i by blast
qed

text \<open>What the registrations say: the endpoint, when it was made and until when it holds.\<close>

definition reg_book :: "knocker \<Rightarrow> key \<rightharpoonup> string \<times> unix \<times> unix" where
  "reg_book k key = map_option (\<lambda>r. (ep_url (eh k (rep r)), made r, expires r)) (regs k key)"

lemma reg_book_cong:
  assumes "regs k' = regs k" and "\<And>key r. regs k key = Some r \<Longrightarrow> ep_url (eh k' (rep r)) = ep_url (eh k (rep r))"
  shows "reg_book k' = reg_book k"
proof
  fix key show "reg_book k' key = reg_book k key"
    using assms by (cases "regs k key") (simp_all add: reg_book_def)
qed

lemma dropEP_url [simp]:
  fixes now :: nanos
  shows "ep_url (eh (dropEPLocked c now e k) x) = ep_url (eh k x)" "regs (dropEPLocked c now e k) = regs k"
    "forgets (dropEPLocked c now e k) = forgets k" "store_ch (dropEPLocked c now e k) = store_ch k"
  by (simp_all add: dropEPLocked_def Let_def forgetLocked_sel settled_eh_other split: option.split)

lemma dropLocked_book:
  "reg_book (dropLocked c now key k) = (reg_book k)(key := None)"
proof (cases "regs k key")
  case None
  then have "reg_book k key = None" by (simp add: reg_book_def)
  then show ?thesis using None by (simp add: dropLocked_def fun_upd_idem)
next
  case (Some r)
  have url: "ep_url (eh (dropLocked c now key k) x) = ep_url (eh k x)" for x
    using Some by (auto simp: dropLocked_def Let_def split: option.split)
  have "regs (dropLocked c now key k) = (regs k)(key := None)"
    using Some by (auto simp: dropLocked_def Let_def split: option.split)
  then show ?thesis by (intro ext) (simp add: reg_book_def url)
qed

lemma dropLocked_sel [simp]:
  "regs (dropLocked c now key k) = (regs k)(key := None)" "forgets (dropLocked c now key k) = forgets k"
  "store_ch (dropLocked c now key k) = store_ch k" "en (dropLocked c now key k) = en k"
  by (auto simp: dropLocked_def Let_def fun_upd_idem split: option.split)

lemma bind_reg_inv:
  fixes now :: nanos and R :: rnd and u :: string and m ex first :: unix
  assumes inv: "knock_inv X c fl k" and key: "regs k key = None"
  defines "k' \<equiv> bind_reg c now R key u m ex first k"
  shows "knock_inv X c fl k' \<and> reg_book k' = (reg_book k)(key \<mapsto> (u, m, ex)) \<and> forgets k' = forgets k
    \<and> store_ch k' = store_ch k
    \<and> (\<exists>r. regs k' key = Some r \<and> eps k' u = Some (rep r) \<and> rfirst r = first)"
proof -
  obtain e k1 where k1: "(case eps k u of Some e \<Rightarrow> (e, k) | None \<Rightarrow> takeEP c now R u k) = (e, k1)" by force
  have links: "links_ok X k" using inv by (simp add: knock_inv_def reg_ok_def)
  have ready: "knock_inv (insert e X) c fl k1 \<and> live k1 e \<and> ep_url (eh k1 e) = u \<and> regs k1 = regs k \<and>
      reg_book k1 = reg_book k \<and> forgets k1 = forgets k \<and> store_ch k1 = store_ch k"
  proof (cases "eps k u")
    case None
    note view = takeEP_sel(1-10,15,16) [where c = c and now = now and R = R and u = u and k = k]
    have *: "k1 = snd (takeEP c now R u k)" "e = en k" using k1 None view(1) by (simp_all add: prod_eq_iff)
    have "rep r \<noteq> en k" if "regs k x = Some r" for x r
    proof -
      have "live k (rep r)" using links that unfolding links_ok_def by blast
      then show ?thesis using linksD(1) [OF links] unfolding live_def by (metis less_irrefl)
    qed
    then have "reg_book k1 = reg_book k" by (intro reg_book_cong) (simp_all add: * view(2,10))
    then show ?thesis using takeEP_inv [OF inv None, of now R]
      by (simp add: * live_def view(2,3,10-12) new_ep_def)
  next
    case (Some x)
    then have *: "k1 = k" "e = x" using k1 by simp_all
    then show ?thesis using knock_inv_more [OF inv] linksD(2) [OF links Some] Some by (simp add: live_def)
  qed
  obtain i where i: "domains k1 (ep_domain (eh k1 e)) = Some i"
    and eq: "k' = bind_to c i e key \<lparr>rep = e, made = m, expires = ex, rfirst = first\<rparr> k1"
    unfolding k'_def using bind_reg_eq [OF _ k1, of "insert e X" fl] ready by metis
  have key1: "regs k1 key = None" using key ready by simp
  have "knock_inv X c fl k'" unfolding eq
    by (rule bind_to_inv [OF _ _ key1 _ i]) (use ready in simp_all)
  moreover have "reg_book k' = (reg_book k1)(key \<mapsto> (u, m, ex))"
  proof -
    have "ep_url (eh k1 e) = u" using ready by simp
    then show ?thesis by (intro ext) (auto simp: eq reg_book_def intro!: option.map_cong)
  qed
  ultimately show ?thesis using ready by (auto simp: eq live_def)
qed

text \<open>A registration kept on its endpoint: only its stamps change.\<close>

lemma renew_inv:
  assumes inv: "knock_inv X c fl k" and r: "regs k key = Some old" and "rep new = rep old"
  shows "knock_inv X c fl (k\<lparr>regs := (regs k)(key \<mapsto> new)\<rparr>)"
proof -
  let ?k = "k\<lparr>regs := (regs k)(key \<mapsto> new)\<rparr>"
  have ex: "(\<exists>r. regs ?k x = Some r \<and> P (rep r)) \<longleftrightarrow> (\<exists>r. regs k x = Some r \<and> P (rep r))" for x P
    using assms(2,3) by auto
  have count: "count_map (\<lambda>r. P (rep r)) (regs ?k) = count_map (\<lambda>r. P (rep r)) (regs k)" for P
    unfolding count_map_def ex ..
  have same: "n_regs ?k = n_regs k" "s_regs c ?k = s_regs c k"
    using count [of "\<lambda>e. ep_domain (eh k e) = n" for n] count [of "\<lambda>e. share_name c (ep_domain (eh k e)) = s" for s]
    by (auto simp: n_regs_def s_regs_def fun_eq_iff)
  have pd: "pend c ?k x = pend c k x" for x by (simp add: pend_def)
  have counts: "n_eps ?k = n_eps k" "n_pending c ?k = n_pending c k" "n_unchecked c ?k = n_unchecked c k"
    "s_eps c ?k = s_eps c k"
    by (intro ext; simp add: n_eps_def n_pending_def n_unchecked_def s_eps_def pd)+
  have lv: "live ?k x = live k x" for x by (simp add: live_def)
  have fin: "finite (dom (regs ?k)) = finite (dom (regs k))" by simp
  have all: "(\<forall>x r. regs ?k x = Some r \<longrightarrow> live ?k (rep r)) = (\<forall>x r. regs k x = Some r \<longrightarrow> live k (rep r))"
    using ex [of _ "\<lambda>e. \<not> live k e"] unfolding lv by blast
  have keys: "{x. \<exists>r. regs ?k x = Some r \<and> rep r = e} = {x. \<exists>r. regs k x = Some r \<and> rep r = e}" for e
    using ex [of _ "\<lambda>x. x = e"] by simp
  have other: "eps ?k = eps k" "eh ?k = eh k" "en ?k = en k" by simp_all
  have "links_ok X ?k = links_ok X k" unfolding links_ok_def fin all keys unfolding other ..
  moreover have "servers_ok c ?k = servers_ok c k" "heap_ok c ?k = heap_ok c k" "shares_ok c ?k = shares_ok c k"
    by (simp_all add: servers_ok_def shares_ok_def share_ok_def heap_ok_def same counts lv)
  moreover have "queue_ok c fl ?k = queue_ok c fl k" by (rule queue_cong) simp_all
  moreover have "queued_live ?k = queued_live k" by (simp add: queued_live_def lv)
  ultimately show ?thesis using inv by (simp add: knock_inv_def reg_ok_def)
qed

theorem setLocked_inv:
  fixes now :: nanos and R :: rnd and key :: key and u :: string and m ex :: unix
  assumes inv: "knock_inv X c fl k"
  defines "k' \<equiv> setLocked c now R key u m ex k"
  shows "knock_inv X c fl k' \<and> reg_book k' = (reg_book k)(key \<mapsto> (u, m, ex)) \<and> forgets k' = forgets k
    \<and> store_ch k' = store_ch k \<and> (\<exists>r. regs k' key = Some r \<and> eps k' u = Some (rep r)
       \<and> rfirst r = (case regs k key of Some old \<Rightarrow> rfirst old | None \<Rightarrow> to_unix now))"
proof (cases "regs k key")
  case None
  then show ?thesis using bind_reg_inv [OF inv None, of now R u m ex "to_unix now"]
    by (simp add: k'_def setLocked_def)
next
  case (Some old)
  have links: "links_ok X k" using inv by (simp add: knock_inv_def reg_ok_def)
  have lv: "live k (rep old)" using links Some unfolding links_ok_def by blast
  show ?thesis
  proof (cases "ep_url (eh k (rep old)) = u")
    case True
    have "reg_book k' = (reg_book k)(key \<mapsto> (u, m, ex))"
      using Some True by (intro ext) (simp add: k'_def setLocked_def reg_book_def)
    then show ?thesis
      using renew_inv [OF inv Some, of "old\<lparr>made := m, expires := ex\<rparr>"] Some True lv
      by (simp add: k'_def setLocked_def live_def)
  next
    case False
    let ?k = "dropLocked c now key k"
    have "regs ?k key = None" by simp
    from bind_reg_inv [OF dropLocked_inv [OF inv] this, of now R u m ex "rfirst old"]
    show ?thesis using Some False by (simp add: k'_def setLocked_def dropLocked_book)
  qed
qed

section \<open>The queue's own operations\<close>

text \<open>What only moves knocks leaves the registrations alone.\<close>

definition calm :: "knocker \<Rightarrow> knocker \<Rightarrow> bool" where
  "calm k k' \<longleftrightarrow> regs k' = regs k \<and> eps k' = eps k \<and> domains k' = domains k \<and> shares k' = shares k \<and>
     en k' = en k \<and> dn k' = dn k \<and> (\<forall>e. rview (eh k' e) = rview (eh k e)) \<and>
     (\<forall>i. rcounts (dh k' i) = rcounts (dh k i) \<and> dname (dh k' i) = dname (dh k i) \<and> dpush (dh k' i) = dpush (dh k i))"

lemma calm_refl: "calm k k"
  by (simp add: calm_def)

lemma calm_upd:
  "calm k k1 \<Longrightarrow> calm k (upd_q f k1)"
  "calm k k1 \<Longrightarrow> rcounts (g (dh k1 i)) = rcounts (dh k1 i) \<Longrightarrow> dname (g (dh k1 i)) = dname (dh k1 i) \<Longrightarrow>
     dpush (g (dh k1 i)) = dpush (dh k1 i) \<Longrightarrow> calm k (upd_dom i g k1)"
  "calm k k1 \<Longrightarrow> rview (h (eh k1 e)) = rview (eh k1 e) \<Longrightarrow> calm k (upd_ep e h k1)"
  by (simp_all add: calm_def)

lemma calm_ringAppend: "calm k k1 \<Longrightarrow> calm k (ringAppend i k1)"
  by (simp add: calm_def rcounts_def)

lemma calm_enqueued: "calm k k1 \<Longrightarrow> calm k (enqueued i k1)"
  by (auto simp: enqueued_def Let_def intro!: calm_ringAppend calm_upd)

lemma calm_send_off: "calm k k1 \<Longrightarrow> calm k (send_off i now k1)"
  by (simp add: calm_def send_off_sel rcounts_def)

lemma fromRing_calm: "calm k k1 \<Longrightarrow> calm k (snd (fromRing n p now k1))"
proof (induction n arbitrary: k1)
  case 0
  then show ?case by simp
next
  case (Suc n)
  show ?case
  proof (cases "ring p k1")
    case Nil
    then show ?thesis using Suc.prems by simp
  next
    case (Cons i r)
    let ?a = "upd_dom i (\<lambda>d. d\<lparr>inRing := False\<rparr>) (set_ring p r k1)"
    let ?b = "upd_dom i (\<lambda>d. d\<lparr>drate := snd (takeN (drate d) now 0)\<rparr>) ?a"
    have a: "calm k ?a" unfolding set_ring_def by (intro calm_upd Suc.prems) (simp_all add: rcounts_def)
    have b: "calm k ?b" by (rule calm_upd(2) [OF a]) (simp_all add: rcounts_def)
    obtain best d where lane: "nextLane (dh ?b i) = (best, d)" by (cases "nextLane (dh ?b i)")
    obtain cr where d: "d = (dh ?b i)\<lparr>credit := cr\<rparr>" using nextLane_spec(1) [OF lane] by blast
    have c: "calm k (upd_dom i (\<lambda>_. d) ?b)" by (rule calm_upd(2) [OF b]) (simp_all add: d rcounts_def)
    have real: "calm k (send_off i now (upd_ep e (\<lambda>x. x\<lparr>queuedReal := False\<rparr>)
        (upd_dom i (\<lambda>_. d\<lparr>lanes := l\<rparr>) ?b)))" for e l
      by (rule calm_send_off, rule calm_upd(3), rule calm_upd(2) [OF b]) (simp_all add: d rcounts_def rview_def)
    have decoy: "calm k (send_off i now (upd_ep e (\<lambda>x. x\<lparr>queuedDecoy := False\<rparr>)
        (upd_dom i (\<lambda>d. d\<lparr>decoys := tl (decoys d)\<rparr>) (upd_dom i (\<lambda>_. d) ?b))))" for e
      by (rule calm_send_off, rule calm_upd(3), rule calm_upd(2) [OF c]) (simp_all add: rcounts_def rview_def)
    note IH = Suc.IH [OF a] Suc.IH [OF calm_ringAppend [OF a]] Suc.IH [OF calm_ringAppend [OF b]]
      Suc.IH [OF calm_ringAppend [OF c]]
    show ?thesis
      unfolding fromRing.simps Cons list.case Let_def lane prod.case
      using IH real decoy by (cases best) (simp_all only: option.case if_split snd_conv, simp_all)
  qed
qed

lemma nextLocked_calm: "calm k (snd (nextLocked now k))"
proof -
  have b: "calm k (snd (budgetWait now k))"
    by (auto simp: budgetWait_def Let_def intro!: calm_upd calm_refl)
  let ?k = "upd_q (\<lambda>x. x\<lparr>turn := \<not> turn x\<rparr>) (snd (budgetWait now k))"
  let ?x = "fromRing (length (ring (\<not> turn (queue ?k)) ?k)) (\<not> turn (queue ?k)) now ?k"
  have "calm k ?k" by (intro calm_upd b)
  then have x: "calm k (snd ?x)" by (rule fromRing_calm)
  have "snd (nextLocked now k) \<in> {snd (budgetWait now k), snd ?x,
      snd (fromRing (length (ring (turn (queue ?k)) (snd ?x))) (turn (queue ?k)) now (snd ?x))}"
    by (simp add: nextLocked_def Let_def case_prod_beta split: option.split)
  then show ?thesis using b x fromRing_calm [OF x] by auto
qed

lemma calm_reg: "calm k k' \<Longrightarrow> reg_ok X c k' = reg_ok X c k" and calm_live: "calm k k' \<Longrightarrow> live k' = live k"
proof -
  assume c: "calm k k'"
  show "reg_ok X c k' = reg_ok X c k" by (rule reg_cong) (use c in \<open>auto simp: calm_def\<close>)
  have "ep_url (eh k' e) = ep_url (eh k e)" for e using c rviewD unfolding calm_def by blast
  then show "live k' = live k" using c by (intro ext) (simp add: live_def calm_def)
qed

text \<open>A knock is handed out: its post joins those in flight.\<close>

lemma queued_live_marked: "queued_live k \<longleftrightarrow> marked k \<subseteq> {e. live k e}"
  by (auto simp: queued_live_def marked_def)

lemma nextLocked_inv:
  assumes inv: "knock_inv X c fl k"
  shows "case nextLocked now k of
      (None, k') \<Rightarrow> knock_inv X c fl k'
    | (Some (e, decoy), k') \<Rightarrow> knock_inv X c (e # fl) k' \<and> live k' e"
proof -
  obtain x k' where n: "nextLocked now k = (x, k')" by (cases "nextLocked now k")
  have c: "calm k k'" using nextLocked_calm [of k now] n by simp
  have q: "queue_ok c fl k" and ql: "marked k \<subseteq> {e. live k e}" and rk: "reg_ok X c k"
    and flk: "\<forall>e \<in> set fl. e < en k" using inv by (simp_all add: knock_inv_def queued_live_marked)
  have links: "links_ok X k" using rk by (simp add: reg_ok_def)
  have ok: "reg_ok X c k'" and fl: "\<forall>e \<in> set fl. e < en k'"
    using rk flk calm_reg [OF c] c by (simp_all add: calm_def)
  have lt: "e < en k'" if "live k e" for e
    using linksD(1) [OF links] that c unfolding live_def calm_def by metis
  show ?thesis
  proof (cases x)
    case None
    then show ?thesis using nextLocked_ok [OF q, of now] n ok fl ql
      by (simp add: handed_def knock_inv_def queued_live_marked calm_live [OF c])
  next
    case (Some y)
    then obtain e decoy where y: "x = Some (e, decoy)" by (cases y) simp
    then have h: "queue_ok c (e # fl) k'" "e \<in> marked k" "marked k' \<subseteq> marked k"
      using nextLocked_ok [OF q, of now] n by (simp_all add: handed_def)
    then have "live k e" using ql by blast
    then show ?thesis using h ok fl ql lt n y
      by (simp add: knock_inv_def queued_live_marked calm_live [OF c])
  qed
qed

lemma addLocked_calm:
  assumes "live k e" and i: "domains k (ep_domain (eh k e)) = Some i"
  shows "calm k (addLocked c now e decoy k) \<and> marked (addLocked c now e decoy k) \<subseteq> insert e (marked k)"
proof -
  have calm: "calm k (count_dropped k)" by (simp add: calm_def count_dropped_def)
  have put: "calm k (enqueued i (upd_dom i (\<lambda>d. d\<lparr>decoys := decoys d @ [e]\<rparr>) (upd_ep e (\<lambda>p. p\<lparr>queuedDecoy := True\<rparr>) k)))"
    "calm k (enqueued i (upd_dom i (\<lambda>d. d\<lparr>lanes := (lanes d)(t := lanes d t @ [e])\<rparr>)
      (upd_ep e (\<lambda>p. p\<lparr>queuedReal := True\<rparr>) k)))" for t
    by (rule calm_enqueued, rule calm_upd(2), rule calm_upd(3) [OF calm_refl]; simp add: rcounts_def rview_def)+
  have "marked (count_dropped k) = marked k" by (simp add: marked_def count_dropped_def)
  moreover have "marked (enqueued i (upd_dom i f (upd_ep e g k))) \<subseteq> insert e (marked k)" for f g
    by (auto simp: marked_def split: if_splits)
  ultimately show ?thesis using assms(1) calm put calm_refl subset_insertI [of "marked k" e]
    by (simp add: addLocked_def domainLocked_there [OF i] Let_def)
qed

lemma addLocked_inv:
  assumes inv: "knock_inv X c fl k"
  shows "knock_inv X c fl (addLocked c now e decoy k)"
proof (cases "live k e")
  case False
  then show ?thesis using inv by (simp add: addLocked_def)
next
  case True
  have ok: "reg_ok X c k" and q: "queue_ok c fl k" and ql: "marked k \<subseteq> {e. live k e}" and fl: "\<forall>e \<in> set fl. e < en k"
    using inv by (simp_all add: knock_inv_def queued_live_marked)
  obtain i where i: "domains k (ep_domain (eh k e)) = Some i" using reg_live [OF ok True] by metis
  let ?k = "addLocked c now e decoy k"
  have c: "calm k ?k" and m: "marked ?k \<subseteq> insert e (marked k)" using addLocked_calm [OF True i] by blast+
  have "queue_ok c fl ?k" by (rule addLocked_ok [OF q]) (use i in \<open>auto simp: srv_def\<close>)
  moreover have "queued_live ?k" using m ql True by (auto simp: queued_live_marked calm_live [OF c])
  moreover have "en ?k = en k" using c by (simp add: calm_def)
  ultimately show ?thesis using ok fl calm_reg [OF c] by (simp add: knock_inv_def)
qed

text \<open>A server that no endpoint is on may go.\<close>

lemma delete_domain_reg_ok:
  assumes ok: "reg_ok X c k" and none: "n_eps k n = 0"
  shows "reg_ok X c (k\<lparr>domains := (domains k)(n := None)\<rparr>)"
proof -
  let ?k = "k\<lparr>domains := (domains k)(n := None)\<rparr>"
  have links: "links_ok X k" and srv: "servers_ok c k" and shr: "shares_ok c k" and heap: "heap_ok c k"
    using ok by (simp_all add: reg_ok_def)
  have pd: "pend c ?k e = pend c k e" and lv: "live ?k e = live k e" for e by (simp_all add: pend_def live_def)
  have same: "n_eps ?k = n_eps k" "n_regs ?k = n_regs k" "n_pending c ?k = n_pending c k"
    "n_unchecked c ?k = n_unchecked c k" "s_eps c ?k = s_eps c k" "s_regs c ?k = s_regs c k"
    by (intro ext; simp add: n_eps_def n_regs_def n_pending_def n_unchecked_def s_eps_def s_regs_def pd)+
  have fin: "finite (dom (eps k))" using links by (simp add: links_ok_def)
  have off: "ep_domain (eh k e) \<noteq> n" if "eps k u = Some e" for u e
    using none count_map_pos [OF fin that, of "\<lambda>e. ep_domain (eh k e) = n"] by (auto simp: n_eps_def)
  have "links_ok X ?k = links_ok X k" unfolding links_ok_def lv by simp
  moreover have "shares_ok c ?k = shares_ok c k" by (simp add: shares_ok_def share_ok_def same lv)
  moreover have "heap_ok c ?k" using heap by (simp add: heap_ok_def)
  moreover have "servers_ok c ?k" using srv off unfolding servers_ok_def same by simp
  ultimately show ?thesis using links shr by (simp add: reg_ok_def)
qed

lemma doneLocked_inv:
  assumes inv: "knock_inv X c fl k" and e: "e \<in> set fl"
  shows "knock_inv X c (remove1 e fl) (doneLocked e k)"
proof -
  have ok: "reg_ok X c k" and q: "queue_ok c fl k" and ql: "queued_live k" and fl: "\<forall>e \<in> set fl. e < en k"
    using inv by (simp_all add: knock_inv_def)
  obtain i where i: "domains k (ep_domain (eh k e)) = Some i"
    using q e unfolding queue_ok_def flight_ok_def srv_def by blast
  let ?n = "ep_domain (eh k e)"
  let ?k1 = "upd_dom i (\<lambda>d. d\<lparr>inflight := inflight d - 1\<rparr>) k"
  define k2 where "k2 = (if \<not> dpush (dh k i) then upd_q (\<lambda>x. x\<lparr>sharedBusy := sharedBusy x - 1\<rparr>) ?k1 else ?k1)"
  have c: "calm k k2" by (auto simp: k2_def calm_def rcounts_def)
  have r2: "reg_ok X c k2" using ok calm_reg [OF c] by simp
  have eq: "doneLocked e k = (if d_eps (dh k2 i) \<le> 0 \<and> waiting (dh k2 i) = 0 \<and> inflight (dh k2 i) = 0
      then k2\<lparr>domains := (domains k2)(?n := None)\<rparr> else k2)"
    using i by (simp add: doneLocked_def Let_def k2_def)
  have "0 \<le> n_eps k2 ?n" by (simp add: n_eps_def count_map_def)
  moreover have "d_eps (dh k2 i) = n_eps k2 ?n" using r2 i c by (simp add: reg_ok_def servers_ok_def calm_def)
  ultimately have "reg_ok X c (doneLocked e k)"
    using r2 delete_domain_reg_ok [OF r2, of ?n] by (simp add: eq)
  moreover have "queued_live (doneLocked e k)"
    by (rule queued_live_keep [OF ql]) (auto simp: eq k2_def live_def)
  moreover have "en (doneLocked e k) = en k" by (simp add: eq k2_def)
  ultimately show ?thesis using doneLocked_ok [OF q e] fl set_remove1_subset [of e fl]
    by (auto simp: knock_inv_def)
qed

section \<open>The bell and the timers\<close>

lemma stamp_inv [simp]:
  "knock_inv X c fl (upd_ep e (\<lambda>p. p\<lparr>ep_last := t\<rparr>) k) = knock_inv X c fl k"
  "knock_inv X c fl (upd_ep e (\<lambda>p. p\<lparr>trailing := b\<rparr>) k) = knock_inv X c fl k"
  "knock_inv X c fl (upd_ep e (\<lambda>p. p\<lparr>runGen := runGen p + 1\<rparr>) k) = knock_inv X c fl k"
  "knock_inv X c fl (upd_ep e (\<lambda>p. p\<lparr>born := t\<rparr>) k) = knock_inv X c fl k"
  "knock_inv X c fl (upd_ep e (\<lambda>p. p\<lparr>delivered := b\<rparr>) k) = knock_inv X c fl k"
  by (simp_all add: upd_ep_inv rview_def eview_def)

lemma ringLocked_inv: "knock_inv X c fl k \<Longrightarrow> knock_inv X c fl (snd (ringLocked c now R e decoy k))"
  by (simp add: ringLocked_def Let_def addLocked_inv)

lemma trail_inv: "knock_inv X c fl k \<Longrightarrow> knock_inv X c fl (trail c now e k)"
  by (simp add: trail_def Let_def addLocked_inv)

lemma decoyRunFire_inv: "knock_inv X c fl k \<Longrightarrow> knock_inv X c fl (decoyRunFire c now R e gen left k)"
  using ringLocked_inv [of X c fl k now R e True]
  by (auto simp: decoyRunFire_def Let_def case_prod_beta)

lemma decoyDue_inv:
  assumes "knock_inv X c fl k"
  shows "knock_inv X c fl (decoyDue c now R e gen k)"
  using ringLocked_inv [of X c fl "upd_ep e (\<lambda>p. p\<lparr>runGen := runGen p + 1\<rparr>) k" now R e True] assms
  by (auto simp: decoyDue_def Let_def case_prod_beta)

lemma fire_inv: "knock_inv X c fl k \<Longrightarrow> knock_inv X c fl (fire c now R t k)"
  by (simp add: fire_def decoyDue_inv decoyRunFire_inv trail_inv split: timer.split)

lemma stored_inv:
  assumes "knock_inv X c fl k"
  shows "knock_inv X c fl (stored c now R ev k)"
proof -
  have "knock_inv X c fl k' \<Longrightarrow> knock_inv X c fl (wrapFor c now R a k')" for a k'
    by (simp add: wrapFor_def ringLocked_inv split: option.split)
  then have "knock_inv X c fl k' \<Longrightarrow> knock_inv X c fl (foldl (\<lambda>k t. if length t \<ge> 2 \<and> t ! 0 = ''p''
      then wrapFor c now R (t ! 1) k else k) k' ts)" for ts k'
    by (induction ts arbitrary: k') simp_all
  then show ?thesis using assms by (simp add: stored_def)
qed

section \<open>Settling, the sweep and endpoints that are gone\<close>

lemma settledLocked_inv:
  assumes inv: "knock_inv X c fl k"
  shows "knock_inv X c fl (settledLocked c now e k)"
proof -
  have "queue_ok c fl (settledLocked c now e k) = queue_ok c fl k"
    by (rule queue_cong) (simp_all add: settled_eh_other settled_dview eview_def)
  moreover have "queued_live (settledLocked c now e k) = queued_live k"
    by (simp add: queued_live_def live_def settled_eh_other)
  ultimately show ?thesis using inv settledLocked_ok [of X c k now e] by (simp add: knock_inv_def)
qed

lemma tick_settle_inv: "knock_inv X c fl k \<Longrightarrow> knock_inv X c fl (tick_settle c now order k)"
proof (induction order arbitrary: k)
  case Nil
  then show ?case by (simp add: tick_settle_def)
next
  case (Cons x order)
  obtain n e where x: "x = (n, e)" by (cases x)
  let ?k = "case shares k n of Some sh \<Rightarrow> if e \<in> sh_pending sh \<and> now - born (eh k e) \<ge> knockTrustAfter
      then settledLocked c now e k else k | None \<Rightarrow> k"
  have "knock_inv X c fl ?k" using Cons.prems by (simp add: settledLocked_inv split: option.split)
  then have "knock_inv X c fl (tick_settle c now order ?k)" by (rule Cons.IH)
  then show ?case by (simp add: tick_settle_def x)
qed

lemma sweep_inv:
  assumes "knock_inv X c fl (snd s)"
  shows "knock_inv X c fl (snd (foldl (sweep_reg c now) s rkeys))"
    and "knock_inv X c fl (snd (foldl (sweep_forget now) s fkeys))"
proof -
  have "knock_inv X c fl (snd s) \<Longrightarrow> knock_inv X c fl (snd (sweep_reg c now s key))" for s key
    by (auto simp: sweep_reg_def dropLocked_inv split: prod.split option.split)
  then show "knock_inv X c fl (snd (foldl (sweep_reg c now) s rkeys))"
    using assms by (induction rkeys arbitrary: s) simp_all
  have "knock_inv X c fl (snd s) \<Longrightarrow> knock_inv X c fl (snd (sweep_forget now s key))" for s key
    by (auto simp: sweep_forget_def split: prod.split option.split)
  then show "knock_inv X c fl (snd (foldl (sweep_forget now) s fkeys))"
    using assms by (induction fkeys arbitrary: s) simp_all
qed

lemma tick_chunk_inv: "knock_inv X c fl k \<Longrightarrow> knock_inv X c fl (snd (tick_chunk c now rkeys fkeys k))"
  unfolding tick_chunk_def by (intro sweep_inv) simp

lemma tick_loop_inv: "knock_inv X c fl k \<Longrightarrow> knock_inv X c fl (tick_loop c cs k)"
proof (induction c cs k rule: tick_loop.induct)
  case (2 c now rkeys fkeys cs k)
  then show ?case using tick_chunk_inv [OF 2(2), of now rkeys fkeys]
    by (cases "tick_chunk c now rkeys fkeys k") simp
qed simp

lemma drop_all_inv:
  fixes now :: nanos
  assumes "knock_inv X c fl k"
  defines "k' \<equiv> \<lambda>keys k. foldl (\<lambda>k key. store_put key [] 0 0 0 False (dropLocked c now key k)) k keys"
  shows "knock_inv X c fl (k' keys k) \<and> regs (k' keys k) = (\<lambda>key. if key \<in> set keys then None else regs k key)"
  unfolding k'_def using assms(1)
proof (induction keys arbitrary: k)
  case (Cons key keys)
  let ?k = "store_put key [] 0 0 0 False (dropLocked c now key k)"
  have r: "regs ?k = (regs k)(key := None)" by (simp add: store_put_def)
  have "knock_inv X c fl ?k" using dropLocked_inv [OF Cons.prems] by simp
  from Cons.IH [OF this] show ?case by (auto simp: r fun_eq_iff)
qed simp

lemma gone_inv:
  assumes inv: "knock_inv {} c fl k" and keys: "\<And>e. eps k u = Some e \<Longrightarrow> set keys = ep_keys (eh k e)"
  shows "knock_inv {} c fl (gone c now keys u k)"
proof (cases "eps k u")
  case None
  then show ?thesis using inv by (simp add: gone_def)
next
  case (Some e)
  let ?k = "foldl (\<lambda>k key. store_put key [] 0 0 0 False (dropLocked c now key k)) k keys"
  have k: "knock_inv {} c fl ?k" "regs ?k = (\<lambda>key. if key \<in> set keys then None else regs k key)"
    using drop_all_inv [OF inv] by blast+
  have links: "links_ok {} k" "links_ok {} ?k" using inv k(1) by (simp_all add: knock_inv_def reg_ok_def)
  have "set keys = {key. \<exists>r. regs k key = Some r \<and> rep r = e}"
    using keys [OF Some] linksD(3) [OF links(1) Some] by simp
  then have "ep_keys (eh ?k e) = {}" if "live ?k e"
    using linksD(3) [OF links(2), of "ep_url (eh ?k e)" e] that unfolding live_def k(2) by auto
  then have "knock_inv {} c fl (dropEPLocked c now e ?k)"
    by (intro dropEPLocked_inv knock_inv_more k(1))
  then show ?thesis by (simp add: gone_def Some Let_def)
qed

section \<open>Taking, forgetting, loading\<close>

text \<open>An endpoint whose name could not be looked up is counted while it is new.\<close>

lemma mark_unchecked_inv:
  assumes inv: "knock_inv X c fl k" and pe: "pend c k e" and un: "\<not> ep_unchecked (eh k e)"
    and i: "domains k (ep_domain (eh k e)) = Some i"
  shows "knock_inv X c fl (upd_dom i (\<lambda>d. d\<lparr>d_unchecked := d_unchecked d + 1\<rparr>)
    (upd_ep e (\<lambda>p. p\<lparr>ep_unchecked := True\<rparr>) k))" (is "knock_inv X c fl ?k")
proof -
  let ?d = "ep_domain (eh k e)" and ?u = "ep_url (eh k e)"
  have ok: "reg_ok X c k" and q: "queue_ok c fl k" and ql: "queued_live k" and fl: "\<forall>x \<in> set fl. x < en k"
    using inv by (simp_all add: knock_inv_def)
  obtain sh where sh: "shares k (share_name c ?d) = Some sh" "e \<in> sh_pending sh"
    using pe by (auto simp: pend_def split: option.splits)
  have links: "links_ok X k" and heap: "heap_ok c k" and srv: "servers_ok c k"
    and shok: "share_ok c k (share_name c ?d) sh" using ok sh(1) by (simp_all add: reg_ok_def shares_ok_def)
  have lv: "live k e" using shok sh(2) by (simp add: share_ok_def)
  then have e: "eps k ?u = Some e" by (simp add: live_def)
  obtain key0 where key0: "regs k key0 = None" using links fresh_key [of "regs k"] unfolding links_ok_def by blast
  have pd: "pend c ?k x = pend c k x" and lv': "live ?k x = live k x" for x by (simp_all add: pend_def live_def)
  have lc: "local_change c e ?u key0 k ?k"
    by (rule local_changeI [OF links lv refl]) (use key0 e in \<open>simp_all add: pd\<close>)
  note counts = counts_step [OF lc links]
  have base: "rcounts (dh k i) = (n_eps k ?d, n_regs k ?d, n_pending c k ?d, n_unchecked c k ?d)"
    using srv i by (simp add: servers_ok_def rcounts_def)
  have inj: "n = ?d" if "domains k n = Some i" for n using heap i that by (auto simp: heap_ok_def)
  have "reg_ok X c ?k"
  proof (rule reg_step [OF ok lc, where d = ?d])
    show "heap_ok c ?k" using heap by (simp add: heap_ok_def)
    show "rcounts (dh ?k j) = (n_eps ?k ?d, n_regs ?k ?d, n_pending c ?k ?d, n_unchecked c ?k ?d)"
      if j: "domains ?k ?d = Some j" for j
    proof -
      have "j = i" using j i by simp
      moreover have "rcounts (dh ?k i) = (n_eps k ?d, n_regs k ?d, n_pending c k ?d, n_unchecked c k ?d + 1)"
        using base by (simp add: rcounts_def)
      ultimately show ?thesis using e key0 pe un unfolding counts pd by simp
    qed
    show "\<exists>sh'. shares ?k (share_name c ?d) = Some sh' \<and> share_ok c ?k (share_name c ?d) sh'"
      using shok e key0 sh(1) unfolding share_ok_def counts lv' by simp
    show "rcounts (dh ?k j) = rcounts (dh k j)" if "n \<noteq> ?d" "domains k n = Some j" for n j
      using that inj by auto
    show "ep_keys (eh ?k e) = {x. \<exists>r. regs ?k x = Some r \<and> rep r = e}" using linksD(3) [OF links e] by simp
    show "e \<notin> X \<Longrightarrow> ep_keys (eh ?k e) \<noteq> {}" using linksD(4) [OF links e] by simp
  qed (use linksD(1) [OF links e] e i in simp_all)
  moreover have "queue_ok c fl ?k = queue_ok c fl k" by (rule queue_cong) (simp_all add: dview_def eview_def)
  moreover have "queued_live ?k" by (rule queued_live_keep [OF ql]) (simp_all add: eview_def lv' del: live_frame)
  ultimately show ?thesis using q fl by (simp add: knock_inv_def)
qed

text \<open>A share once made stays.\<close>

lemma shares_stay:
  "shares k s \<noteq> None \<Longrightarrow> shares (shareOf c now d k) s \<noteq> None"
  "shares k s \<noteq> None \<Longrightarrow> shares (settledLocked c now e k) s \<noteq> None"
  "shares k s \<noteq> None \<Longrightarrow> shares (dropEPLocked c now e k) s \<noteq> None"
  "shares k s \<noteq> None \<Longrightarrow> shares (dropLocked c now key k) s \<noteq> None"
proof -
  have so: "shares k s \<noteq> None \<Longrightarrow> shares (shareOf c now d k) s \<noteq> None" for d k
    by (simp add: shareOf_shares)
  have up: "shares k s \<noteq> None \<Longrightarrow> shares (upd_share n f k) s \<noteq> None" for n f k by auto
  have st: "shares (settledLocked c now e k) s \<noteq> None" if "shares k s \<noteq> None" for e k
    using up [OF so [OF that, of "ep_domain (eh k e)"]] so [OF that, of "ep_domain (eh k e)"]
    unfolding settledLocked_def Let_def by (auto split: option.split)
  have de: "shares (dropEPLocked c now e k) s \<noteq> None" if "shares k s \<noteq> None" for e k
  proof -
    have "shares (drop_start c now e k) s \<noteq> None" unfolding drop_start_def Let_def
      by (intro up so st) (simp add: that)
    moreover have "shares (dropEPLocked c now e k) = shares k \<or>
        shares (dropEPLocked c now e k) = shares (drop_start c now e k)"
      unfolding dropEPLocked_def drop_start_def Let_def by (auto simp: forgetLocked_sel split: option.split)
    ultimately show ?thesis using that by metis
  qed
  show "shares k s \<noteq> None \<Longrightarrow> shares (shareOf c now d k) s \<noteq> None"
    "shares k s \<noteq> None \<Longrightarrow> shares (settledLocked c now e k) s \<noteq> None"
    "shares k s \<noteq> None \<Longrightarrow> shares (dropEPLocked c now e k) s \<noteq> None" by (rule so st de; assumption)+
  show "shares k s \<noteq> None \<Longrightarrow> shares (dropLocked c now key k) s \<noteq> None"
  proof (cases "regs k key")
    case None
    then show "shares k s \<noteq> None \<Longrightarrow> ?thesis" by (simp add: dropLocked_def)
  next
    case (Some r)
    have cond: "shares (if b then dropEPLocked c now e x else x) s \<noteq> None" if "shares x s \<noteq> None" for b e x
      using de that by simp
    show "shares k s \<noteq> None \<Longrightarrow> ?thesis"
      unfolding dropLocked_def Let_def Some option.case
      by (intro cond up so) (simp split: option.split)
  qed
qed

lemma setLocked_shares:
  assumes "shares k s \<noteq> None"
  shows "shares (setLocked c now R key u m ex k) s \<noteq> None"
proof -
  have bind: "shares (bind_reg c now R key u m ex first k) s \<noteq> None" if "shares k s \<noteq> None" for first k
  proof -
    have up: "shares k s \<noteq> None \<Longrightarrow> shares (upd_share n f k) s \<noteq> None" for n f k by auto
    have te: "shares (snd (takeEP c now R u k)) s \<noteq> None"
      using shares_stay(1) [of "snd (domainLocked c now (domain_of (lib c) u) k)" s c now "domain_of (lib c) u"] that
      unfolding takeEP_sel(8) by simp
    obtain e k1 where k1: "(case eps k u of Some e \<Rightarrow> (e, k) | None \<Rightarrow> takeEP c now R u k) = (e, k1)" by force
    then have "shares k1 s \<noteq> None" using te that by (auto split: option.splits)
    then show ?thesis
      unfolding bind_reg_def k1 Let_def prod.case case_prod_beta
      by (simp del: upd_share_sel(12) add: up shares_stay(1))
  qed
  show ?thesis
    using assms bind [OF assms] bind [OF shares_stay(4) [OF assms]]
    by (auto simp: setLocked_def split: option.split)
qed

lemma take_keep_inv:
  assumes inv: "knock_inv X c fl k"
    and sh0: "shares k (share_name c (knockDomainOf (lib c) (host_of (lib c) (evContent ev)))) \<noteq> None"
  shows "knock_inv X c fl (take_keep c now R ev unchecked k)"
proof -
  let ?key = "knockKey (lib c) (pubKey ev)" and ?d = "knockDomainOf (lib c) (host_of (lib c) (evContent ev))"
  let ?k = "setLocked c now R ?key (evContent ev) (createdAt ev) (to_unix (of_unix (createdAt ev) + knockTTL))
    (k\<lparr>forgets := (forgets k)(?key := None)\<rparr>)"
  let ?e = "rep (the (regs ?k ?key))"
  have k: "knock_inv X c fl ?k" using setLocked_inv [of X c fl "k\<lparr>forgets := (forgets k)(?key := None)\<rparr>"] inv by simp
  then have ok: "reg_ok X c ?k" by (simp add: knock_inv_def)
  have "knock_inv X c fl (let (i, k) = domainLocked c now (ep_domain (eh ?k ?e)) ?k
      in upd_dom i (\<lambda>d. d\<lparr>d_unchecked := d_unchecked d + 1\<rparr>) (upd_ep ?e (\<lambda>p. p\<lparr>ep_unchecked := True\<rparr>) k))"
    if e: "?e \<in> sh_pending (the_share c ?d ?k)" "\<not> ep_unchecked (eh ?k ?e)"
  proof -
    have "shares ?k (share_name c ?d) \<noteq> None" by (rule setLocked_shares) (use sh0 in simp)
    then obtain sh where sh: "shares ?k (share_name c ?d) = Some sh" by blast
    then have s: "?e \<in> sh_pending sh" "share_ok c ?k (share_name c ?d) sh"
      using e(1) ok by (simp_all add: the_share_def reg_ok_def shares_ok_def)
    then have lv: "live ?k ?e" and n: "share_name c (ep_domain (eh ?k ?e)) = share_name c ?d"
      by (simp_all add: share_ok_def)
    obtain i where i: "domains ?k (ep_domain (eh ?k ?e)) = Some i" using reg_live [OF ok lv] by metis
    have "pend c ?k ?e" using s(1) sh by (simp add: pend_def n)
    from mark_unchecked_inv [OF k this e(2) i] show ?thesis by (simp add: domainLocked_there [OF i])
  qed
  then show ?thesis using k by (simp add: take_keep_def Let_def)
qed

text \<open>The check makes at most the share it looks at.\<close>

lemma checkLocked_state:
  "snd (checkLocked c now ev k) = k \<or> snd (checkLocked c now ev k) = shareOf c now (domain_of (lib c) (evContent ev)) k"
  by (auto simp: checkLocked_def Let_def)

lemma checkLocked_sel [simp]:
  "regs (snd (checkLocked c now ev k)) = regs k" "forgets (snd (checkLocked c now ev k)) = forgets k"
  "eps (snd (checkLocked c now ev k)) = eps k" "eh (snd (checkLocked c now ev k)) = eh k"
  "domains (snd (checkLocked c now ev k)) = domains k" "dh (snd (checkLocked c now ev k)) = dh k"
  "store_ch (snd (checkLocked c now ev k)) = store_ch k"
  using checkLocked_state [of c now ev k] by auto

lemma checkLocked_inv:
  "knock_inv X c fl k \<Longrightarrow> knock_inv X c fl (snd (checkLocked c now ev k))"
  "shares k s \<noteq> None \<Longrightarrow> shares (snd (checkLocked c now ev k)) s \<noteq> None"
  using checkLocked_state [of c now ev k] shareOf_inv shares_stay(1) by metis+

lemma take_begin_inv:
  fixes ev :: nevent
  assumes inv: "knock_inv X c fl k"
  defines "d \<equiv> share_name c (knockDomainOf (lib c) (host_of (lib c) (evContent ev)))"
  assumes out: "take_begin c now R newReg ev k l = (st, k', l')"
  shows "knock_inv X c fl k'" and "\<exists>h f. st = TakeLookup h f \<Longrightarrow> shares k' d \<noteq> None"
proof -
  let ?dom = "knockDomainOf (lib c) (host_of (lib c) (evContent ev))"
  obtain a k1 where a: "checkLocked c now ev k = (a, k1)" by (cases "checkLocked c now ev k")
  let ?k2 = "shareOf c now ?dom k1"
  have k1: "knock_inv X c fl k1" using checkLocked_inv(1) [OF inv, of now ev] a by simp
  then have k2: "knock_inv X c fl ?k2" by (rule shareOf_inv)
  have sh: "shares ?k2 d \<noteq> None" unfolding d_def by (simp add: the_share_shareOf)
  let ?k3 = "\<lambda>b. upd_share d (\<lambda>s. s\<lparr>fresh := b\<rparr>) ?k2"
  have keep: "knock_inv X c fl (take_keep c now R ev u k)" if "knock_inv X c fl k" "shares k d \<noteq> None" for k u
    using take_keep_inv [OF that(1)] that(2) unfolding d_def by blast
  have shb: "shares (?k3 b) d \<noteq> None" for b using sh by auto
  have "knock_inv X c fl k' \<and> ((\<exists>h f. st = TakeLookup h f) \<longrightarrow> shares k' d \<noteq> None)"
  proof (cases a)
    case (Refused msg)
    then show ?thesis using out a k1 by (auto simp: take_begin_def)
  next
    case Taken
    have grows: "k' = ?k2 \<and> (\<exists>m. st = TakeAnswer m) \<or> k' = ?k2 \<or> (\<exists>b. k' = ?k3 b) \<or> k' = take_keep c now R ev False ?k2
        \<or> (\<exists>b. k' = take_keep c now R ev False (?k3 b))"
      using out a Taken unfolding take_begin_def d_def Let_def
      by (auto simp: case_prod_beta split: if_splits)
    then have "knock_inv X c fl k'" using k2 keep [OF k2 sh] keep [OF _ shb] by auto
    moreover have "shares k' d \<noteq> None" if "\<exists>h f. st = TakeLookup h f"
    proof -
      have "k' = ?k2 \<or> (\<exists>b. k' = ?k3 b)"
        using out a Taken that unfolding take_begin_def d_def Let_def
        by (auto simp: case_prod_beta split: if_splits)
      then show ?thesis using sh shb by blast
    qed
    ultimately show ?thesis by blast
  qed
  then show "knock_inv X c fl k'" "\<exists>h f. st = TakeLookup h f \<Longrightarrow> shares k' d \<noteq> None" by blast+
qed

lemma take_resume_inv:
  assumes inv: "knock_inv X c fl k"
    and sh: "shares k (share_name c (knockDomainOf (lib c) (host_of (lib c) (evContent ev)))) \<noteq> None"
  shows "knock_inv X c fl (snd (take_resume c now R ev tookFresh ans k))"
proof -
  have keep: "knock_inv X c fl (take_keep c now R ev u k)"
    "knock_inv X c fl (take_keep c now R ev u (snd (checkLocked c now ev k)))" for u
    using take_keep_inv [OF inv sh] take_keep_inv [OF checkLocked_inv(1) [OF inv] checkLocked_inv(2) [OF sh]] by blast+
  show ?thesis using inv keep checkLocked_inv(1) [OF inv]
    by (auto simp: take_resume_def Let_def case_prod_beta split: answer.split)
qed

lemma forget_inv:
  assumes inv: "knock_inv X c fl k"
  shows "knock_inv X c fl (snd (forget_begin c now ev k))"
    and "knock_inv X c fl (snd (forget_finish c now ev written k))"
proof -
  show "knock_inv X c fl (snd (forget_begin c now ev k))"
    using checkLocked_inv(1) [OF inv] by (auto simp: forget_begin_def split: prod.split answer.split) (metis snd_conv)+
  show "knock_inv X c fl (snd (forget_finish c now ev written k))"
    using inv by (auto simp: forget_finish_def Let_def dropLocked_inv shareOf_inv split: option.split)
qed

end
