(* ===== verification/Knock_Send.thy ===== *)
theory Knock_Send
  imports Knock_Registry_Steps
begin

text \<open>
  The knocker's workers (\<open>send\<close>, \<open>result\<close>, \<open>knockRefused\<close> of \<open>relay-live/knock_send.go\<close>): a knock that was handed
  out is posted, and its answer settles the endpoint, counts a failure or lets it go. Each piece under the
  lock is a definition of its own; \<open>send\<close> runs them with nothing in between.
\<close>

section \<open>Addresses as text\<close>

text \<open>\<open>net.IP.String\<close>: dotted for ipv4 and ipv4 in ipv6; groups of hex otherwise, the longest run of two or
  more zero groups, the first of them, written as \<open>::\<close>.\<close>

function show_hex :: "nat \<Rightarrow> string" where
  "show_hex n = (if n < 16 then [hex_digit n] else show_hex (n div 16) @ [hex_digit (n mod 16)])"
  by auto
termination by (relation "measure id") auto

declare show_hex.simps [simp del]

definition ip_groups :: "ip \<Rightarrow> nat list" where
  "ip_groups ip = map (\<lambda>i. unat (ip ! (2 * i)) * 256 + unat (ip ! (2 * i + 1))) [0..<8]"

definition zero_run :: "nat list \<Rightarrow> nat \<times> nat" where
  "zero_run gs =
     foldl (\<lambda>(s, e) i. let j = i + length (takeWhile (\<lambda>g. g = 0) (drop i gs))
              in if j - i \<ge> 2 \<and> j - i > e - s then (i, j) else (s, e)) (255, 255) [0..<8]"

definition join_with :: "string \<Rightarrow> string list \<Rightarrow> string" where
  "join_with sep xs = (case xs of [] \<Rightarrow> [] | x # xs \<Rightarrow> x @ concat (map (\<lambda>y. sep @ y) xs))"

definition ip_string :: "ip \<Rightarrow> string" where
  "ip_string ip = (case To4 ip of
     Some q \<Rightarrow> join_with ''.'' (map (\<lambda>b. show_nat (unat b)) q)
   | None \<Rightarrow>
       (let gs = ip_groups ip; (s, e) = zero_run gs; hx = map show_hex gs
        in if s \<ge> 8 then join_with '':'' hx
           else join_with '':'' (take s hx) @ ''::'' @ join_with '':'' (drop e hx)))"

section \<open>A post's answer\<close>

definition knockRefused :: "int \<Rightarrow> bool" where
  "knockRefused code \<longleftrightarrow> code \<in> {400, 401, 403, 404, 405, 410, 413}"

definition count_failed :: "knocker \<Rightarrow> knocker" where
  "count_failed k = k\<lparr>stats := (stats k)\<lparr>st_failed := st_failed (stats k) + 1\<rparr>\<rparr>"

definition count_sent :: "bool \<Rightarrow> knocker \<Rightarrow> knocker" where
  "count_sent decoy k =
     (if decoy then k\<lparr>stats := (stats k)\<lparr>st_decoys := st_decoys (stats k) + 1\<rparr>\<rparr>
      else k\<lparr>stats := (stats k)\<lparr>st_real := st_real (stats k) + 1\<rparr>\<rparr>)"

definition delivered_to :: "knock_cfg \<Rightarrow> nanos \<Rightarrow> ep_id \<Rightarrow> knocker \<Rightarrow> knocker" where
  "delivered_to c now e k =
     (let k = upd_ep e (\<lambda>p. p\<lparr>fails := 0, failingSince := time_zero, lastFail := time_zero\<rparr>) k;
          k = (if \<not> delivered (eh k e)
               then store_proven (ep_url (eh k e)) (upd_ep e (\<lambda>p. p\<lparr>delivered := True\<rparr>) k) else k)
      in settledLocked c now e k)"

text \<open>A failure of an endpoint that is not refused for good: what it counts, and whether it is let go.\<close>

definition count_fail :: "nanos \<Rightarrow> knockEP \<Rightarrow> knockEP" where
  "count_fail now p =
     (let p = (if delivered p \<or> lastFail p = time_zero \<or> now - lastFail p \<ge> knockNewFailGap
               then p\<lparr>fails := fails p + 1, lastFail := now\<rparr> else p)
      in if failingSince p = time_zero then p\<lparr>failingSince := now\<rparr> else p)"

definition fail_drop :: "nanos \<Rightarrow> knockEP \<Rightarrow> bool" where
  "fail_drop now p \<longleftrightarrow>
     fails p \<ge> knockFailAtLeast \<and> now - failingSince p \<ge> knockFailFor \<or>
     \<not> delivered p \<and> fails p \<ge> knockNewFailAtLeast \<and> now - failingSince p \<ge> knockNewFailSpan
       \<and> now - failingSince p \<le> knockNewFailFor"

text \<open>\<open>result\<close> up to its call of \<open>gone\<close>: true when the endpoint's url is to be let go. \<open>err\<close> is \<open>None\<close> for an answer.\<close>

definition result_locked ::
  "knock_cfg \<Rightarrow> nanos \<Rightarrow> rnd \<Rightarrow> ep_id \<Rightarrow> bool \<Rightarrow> int \<Rightarrow> net_error option \<Rightarrow> knocker \<Rightarrow> bool \<times> knocker" where
  "result_locked c now R e decoy code err k =
     (if err = None \<and> (code = 404 \<or> code = 410) then (True, k)
      else if err = None \<and> code = 429 then (False, count_failed k)
      else if err = None \<and> code \<ge> 200 \<and> code < 300 then (False, count_sent decoy (delivered_to c now e k))
      else let k = count_failed k
           in if \<not> delivered (eh k e) \<and> (err = None \<and> knockRefused code \<or> err = Some NotPublic) then (True, k)
              else let k = upd_ep e (count_fail now) k
                   in if fail_drop now (eh k e) then (True, k) else (False, recheckLocked c now R e k))"

text \<open>\<open>gone\<close> lists the keys of the endpoint in the order of the argument.\<close>

definition send_result ::
  "knock_cfg \<Rightarrow> nanos \<Rightarrow> rnd \<Rightarrow> key list \<Rightarrow> ep_id \<Rightarrow> bool \<Rightarrow> int \<Rightarrow> net_error option \<Rightarrow> knocker \<Rightarrow> knocker" where
  "send_result c now R keys e decoy code err k =
     (let (letgo, k) = result_locked c now R e decoy code err k
      in if letgo then gone c now keys (ep_url (eh k e)) k else k)"

section \<open>One post\<close>

text \<open>The addresses a name gave, and what a failing lookup becomes.\<close>

definition resolve_error :: "net_error + ip list \<Rightarrow> net_error option" where
  "resolve_error r = (case r of
     Inl NotFound \<Rightarrow> Some NotPublic | Inl err \<Rightarrow> Some err | Inr [] \<Rightarrow> Some NotPublic | Inr _ \<Rightarrow> None)"

definition ip_limit :: "knock_cfg \<Rightarrow> ep_id \<Rightarrow> knocker \<Rightarrow> int" where
  "ip_limit c e k = (if ep_domain (eh k e) \<in> pushHosts c then knockPerPushHostIP else knockPerIP)"

text \<open>The room at its address: true and taken, or the knock waits again.\<close>

definition send_room :: "knock_cfg \<Rightarrow> nanos \<Rightarrow> ep_id \<Rightarrow> bool \<Rightarrow> string \<Rightarrow> knocker \<Rightarrow> bool \<times> knocker" where
  "send_room c now e decoy ipKey k =
     (if ipBusy (queue k) ipKey \<ge> ip_limit c e k then (False, addLocked c now e decoy (doneLocked e k))
      else (True, upd_q (\<lambda>x. x\<lparr>ipBusy := (ipBusy x)(ipKey := ipBusy x ipKey + 1)\<rparr>) k))"

definition send_over :: "ep_id \<Rightarrow> string \<Rightarrow> knocker \<Rightarrow> knocker" where
  "send_over e ipKey k =
     doneLocked e (upd_q (\<lambda>x. let n = ipBusy x ipKey - 1 in x\<lparr>ipBusy := (ipBusy x)(ipKey := if n \<le> 0 then 0 else n)\<rparr>) k)"

text \<open>The key of the address: the host itself for an onion, else the first address it resolved to.\<close>

definition send_key :: "string \<Rightarrow> net_error + ip list \<Rightarrow> string" where
  "send_key host r = (if has_suffix host ''.onion'' then host
     else case r of Inr (a # _) \<Rightarrow> ip_string a | _ \<Rightarrow> [])"

definition send ::
  "knock_cfg \<Rightarrow> nanos \<Rightarrow> rnd \<Rightarrow> key list \<Rightarrow> (string \<Rightarrow> net_error + ip list) \<Rightarrow> (string \<Rightarrow> int \<times> net_error option)
     \<Rightarrow> ep_id \<Rightarrow> bool \<Rightarrow> knocker \<Rightarrow> bool \<times> knocker" where
  "send c now R keys resolve post e decoy k =
     (case urlParse (lib c) (ep_url (eh k e)) of
        None \<Rightarrow> (True, gone c now keys (ep_url (eh k e)) (doneLocked e k))
      | Some u \<Rightarrow>
          let host = to_lower (uHostname u); onion = has_suffix host ''.onion''; r = resolve host
          in case (if onion then None else resolve_error r) of
               Some err \<Rightarrow> (True, send_result c now R keys e decoy 0 (Some err) (doneLocked e k))
             | None \<Rightarrow>
                 (case send_room c now e decoy (send_key host r) k of
                    (False, k) \<Rightarrow> (False, k)
                  | (True, k) \<Rightarrow>
                      let (code, err) = post (ep_url (eh k e));
                          k = send_over e (send_key host r) k
                      in (True, send_result c now R keys e decoy code err k)))"

end
