(* ===== verification/Knock_Frame.thy ===== *)
theory Knock_Frame
  imports Knock_Send
begin

text \<open>
  What an operation of the knocker leaves alone. A relation between the state before and after that the small
  updates keep, however they are composed, is kept by every operation made of them: registering, dropping,
  settling, the sweep, the queue and the workers. Two relations use it, in \<open>Knock_System\<close> and \<open>Knock_Floor\<close>.
\<close>

locale knock_frame =
  fixes rel :: "knocker \<Rightarrow> knocker \<Rightarrow> bool" and c :: knock_cfg
  assumes fr_refl: "rel k k"
    and fr_dom: "rel k k1 \<Longrightarrow> rel k (upd_dom i f k1)"
    and fr_share: "rel k k1 \<Longrightarrow> rel k (upd_share n h k1)"
    and fr_shareOf: "rel k k1 \<Longrightarrow> rel k (shareOf c now d k1)"
    and fr_server: "rel k k1 \<Longrightarrow> rel k (snd (domainLocked c now d k1))"
    and fr_q: "rel k k1 \<Longrightarrow> ipBusy (q (queue k1)) = ipBusy (queue k1) \<Longrightarrow> rel k (upd_q q k1)"
    and fr_ep: "rel k k1 \<Longrightarrow> (\<And>p. trailing (g p) = trailing p) \<Longrightarrow> (\<And>p. ep_last (g p) = ep_last p) \<Longrightarrow>
      (\<And>p. ep_url (g p) = ep_url p) \<Longrightarrow> (\<And>p. ep_domain (g p) = ep_domain p) \<Longrightarrow> rel k (upd_ep e g k1)"
    and fr_regs: "rel k k1 \<Longrightarrow> rel k (k1\<lparr>regs := r\<rparr>)"
    and fr_forgets: "rel k k1 \<Longrightarrow> rel k (k1\<lparr>forgets := fo\<rparr>)"
    and fr_stats: "rel k k1 \<Longrightarrow> rel k (k1\<lparr>stats := st\<rparr>)"
    and fr_eps: "rel k k1 \<Longrightarrow> rel k (k1\<lparr>eps := u\<rparr>)"
    and fr_domains: "rel k k1 \<Longrightarrow> rel k (k1\<lparr>domains := m\<rparr>)"
    and fr_put: "rel k k1 \<Longrightarrow> rel k (store_put key ep m1 m2 m3 del k1)"
    and fr_sweep: "rel k k1 \<Longrightarrow> rel k (store_putSweep key k1)"
    and fr_proven: "rel k k1 \<Longrightarrow> rel k (store_proven ep k1)"
    and fr_timer: "rel k k1 \<Longrightarrow> (\<And>e. t \<noteq> Trail e) \<Longrightarrow> rel k (after now w t k1)"
    and fr_new: "rel k k1 \<Longrightarrow>
      rel k (k1\<lparr>eps := (eps k1)(u' \<mapsto> en k1), eh := (eh k1)(en k1 := new_ep u' (domain_of (lib c) u') now),
        en := en k1 + 1\<rparr>)"
begin

lemmas fr_small = fr_refl fr_dom fr_share fr_shareOf fr_server fr_q fr_ep fr_regs fr_forgets fr_stats fr_eps
  fr_domains fr_put fr_sweep fr_proven fr_timer

lemma fr_ringAppend: "rel k k1 \<Longrightarrow> rel k (ringAppend i k1)"
  unfolding ringAppend_def set_ring_def Let_def by (simp add: fr_small)

lemma fr_enqueued: "rel k k1 \<Longrightarrow> rel k (enqueued i k1)"
  unfolding enqueued_def Let_def by (simp add: fr_small fr_ringAppend)

lemma fr_unqueued: "rel k k1 \<Longrightarrow> rel k (unqueued i k1)"
  unfolding unqueued_def Let_def by (simp add: fr_small)

lemma fr_send_off: "rel k k1 \<Longrightarrow> rel k (send_off i now k1)"
  unfolding send_off_def Let_def by (simp add: fr_small fr_ringAppend fr_unqueued)

lemma fr_forget: "rel k k1 \<Longrightarrow> rel k (forgetLocked i e k1)"
proof -
  have "rel k k1 \<Longrightarrow> rel k (foldl (forget_lane i e) k1 ts)" for ts
    by (induction ts rule: rev_induct) (simp_all add: forget_lane_def Let_def case_prod_beta fr_small fr_unqueued)
  then show "rel k k1 \<Longrightarrow> ?thesis"
    unfolding forgetLocked_def Let_def case_prod_beta by (simp add: fr_small fr_unqueued)
qed

lemma fr_settled: "rel k k1 \<Longrightarrow> rel k (settledLocked c now e k1)"
  unfolding settledLocked_def Let_def by (simp add: fr_small split: option.split)

lemma fr_dropEP: "rel k k1 \<Longrightarrow> rel k (dropEPLocked c now e k1)"
  unfolding dropEPLocked_def Let_def by (simp add: fr_small fr_settled fr_forget split: option.split)

lemma fr_drop: "rel k k1 \<Longrightarrow> rel k (dropLocked c now key k1)"
  unfolding dropLocked_def Let_def by (simp add: fr_small fr_dropEP split: option.split)

lemma fr_decoy:
  "rel k k1 \<Longrightarrow> rel k (decoyAfterLocked now e w k1)" "rel k k1 \<Longrightarrow> rel k (decoyLocked c now R e k1)"
  "rel k k1 \<Longrightarrow> rel k (recheckLocked c now R e k1)" "rel k k1 \<Longrightarrow> rel k (decoyRunLocked c now R e gen left k1)"
  by (simp_all add: decoyAfterLocked_def decoyLocked_def recheckLocked_def decoyRunLocked_def Let_def fr_small)

lemma fr_takeEP: "rel k k1 \<Longrightarrow> rel k (snd (takeEP c now R u k1))"
  unfolding takeEP_def Let_def case_prod_beta by (simp add: fr_decoy fr_small fr_new [simplified])

lemma fr_set: "rel k k1 \<Longrightarrow> rel k (setLocked c now R key u m ex k1)"
proof -
  have bind: "rel k (bind_reg c now R key u m ex first k2)" if "rel k k2" for first k2
  proof -
    obtain e k3 where k3: "(case eps k2 u of Some e \<Rightarrow> (e, k2) | None \<Rightarrow> takeEP c now R u k2) = (e, k3)" by force
    then have "rel k k3" using fr_takeEP [OF that, of now R u] that by (auto split: option.splits)
    then show ?thesis unfolding bind_reg_def k3 Let_def prod.case case_prod_beta by (simp add: fr_small)
  qed
  then show "rel k k1 \<Longrightarrow> ?thesis"
    unfolding setLocked_def by (simp add: fr_small fr_drop split: option.split)
qed

lemma fr_add: "rel k k1 \<Longrightarrow> rel k (addLocked c now e decoy k1)"
  unfolding addLocked_def Let_def case_prod_beta by (simp add: fr_small fr_enqueued count_dropped_def)

lemma fr_check: "rel k k1 \<Longrightarrow> rel k (snd (checkLocked c now ev k1))"
  using checkLocked_state [of c now ev k1] by (auto simp: fr_small)

lemma fr_take_keep: "rel k k1 \<Longrightarrow> rel k (take_keep c now R ev unchecked k1)"
  unfolding take_keep_def Let_def case_prod_beta by (simp add: fr_small fr_set)

lemma fr_take_begin: "take_begin c now R newReg ev k l = (st, k', l') \<Longrightarrow> rel k k'"
proof -
  assume out: "take_begin c now R newReg ev k l = (st, k', l')"
  obtain a k1 where a: "checkLocked c now ev k = (a, k1)" by (cases "checkLocked c now ev k")
  then have k1: "rel k k1" using fr_check [OF fr_refl, of k now ev] by simp
  then show ?thesis
    using out a unfolding take_begin_def Let_def
    by (auto simp: case_prod_beta fr_small fr_take_keep split: answer.splits if_splits)
qed

lemma fr_take_resume: "rel k (snd (take_resume c now R ev took ans k))"
  by (auto simp: take_resume_def Let_def case_prod_beta fr_small fr_take_keep fr_check split: answer.split)

lemma fr_forgetting:
  "rel k (snd (forget_begin c now ev k))" "rel k (snd (forget_finish c now ev written k))"
  using fr_check [OF fr_refl, of k now ev]
  by (auto simp: forget_begin_def forget_finish_def Let_def fr_small fr_drop split: prod.split answer.split option.split)

lemma fr_tick_settle: "rel k k1 \<Longrightarrow> rel k (tick_settle c now order k1)"
proof (induction order arbitrary: k1)
  case (Cons x order)
  obtain n e where x: "x = (n, e)" by (cases x)
  let ?k = "case shares k1 n of Some sh \<Rightarrow> if e \<in> sh_pending sh \<and> now - born (eh k1 e) \<ge> knockTrustAfter
      then settledLocked c now e k1 else k1 | None \<Rightarrow> k1"
  have "rel k ?k" using Cons.prems by (simp add: fr_settled split: option.split)
  from Cons.IH [OF this] show ?case by (simp add: tick_settle_def x)
qed (simp add: tick_settle_def)

lemma fr_tick_chunk: "rel k (snd (tick_chunk c now rkeys fkeys k))"
proof -
  have "rel k (snd s) \<Longrightarrow> rel k (snd (sweep_reg c now s key))" for s key
    by (auto simp: sweep_reg_def fr_drop fr_small split: prod.split option.split)
  then have r: "rel k (snd s) \<Longrightarrow> rel k (snd (foldl (sweep_reg c now) s rkeys))" for s
    by (induction rkeys arbitrary: s) simp_all
  have "rel k (snd s) \<Longrightarrow> rel k (snd (sweep_forget now s key))" for s key
    by (auto simp: sweep_forget_def fr_small split: prod.split option.split)
  then have "rel k (snd s) \<Longrightarrow> rel k (snd (foldl (sweep_forget now) s fkeys))" for s
    by (induction fkeys arbitrary: s) simp_all
  then show ?thesis using r [of "(0, k)"] by (simp add: tick_chunk_def fr_refl)
qed

lemma fr_fromRing: "rel k k1 \<Longrightarrow> rel k (snd (fromRing n p now k1))"
proof (induction n arbitrary: k1)
  case (Suc n)
  have q: "rel k (set_ring p r k1)" for r using Suc.prems by (simp add: set_ring_def fr_q)
  show ?case
  proof (cases "ring p k1")
    case (Cons i r)
    let ?b = "upd_dom i (\<lambda>d. d\<lparr>drate := snd (takeN (drate d) now 0)\<rparr>)
      (upd_dom i (\<lambda>d. d\<lparr>inRing := False\<rparr>) (set_ring p r k1))"
    obtain best d where lane: "nextLane (dh ?b i) = (best, d)" by (cases "nextLane (dh ?b i)")
    show ?thesis unfolding fromRing.simps Cons list.case Let_def lane prod.case
      using q [of r] by (cases best) (simp_all add: Suc.IH fr_small fr_ringAppend fr_send_off)
  qed (use Suc.prems in simp)
qed simp

lemma fr_next: "rel k (snd (nextLocked now k))"
proof -
  have b: "rel k (snd (budgetWait now k))"
    unfolding budgetWait_def Let_def by (simp add: fr_small)
  let ?k = "upd_q (\<lambda>x. x\<lparr>turn := \<not> turn x\<rparr>) (snd (budgetWait now k))"
  have k: "rel k ?k" using b by (simp add: fr_q)
  then show ?thesis using b fr_fromRing [OF k] fr_fromRing [OF fr_fromRing [OF k]]
    by (auto simp: nextLocked_def Let_def case_prod_beta split: option.split)
qed

lemma fr_done: "rel k k1 \<Longrightarrow> rel k (doneLocked e k1)"
  by (auto simp: doneLocked_def Let_def fr_small split: option.split)

lemma fr_gone: "rel k (gone c now keys u k)"
proof -
  have "rel k k1 \<Longrightarrow> rel k (foldl (\<lambda>k key. store_put key [] 0 0 0 False (dropLocked c now key k)) k1 keys)" for k1
    by (induction keys arbitrary: k1) (simp_all add: fr_small fr_drop)
  then show ?thesis by (auto simp: gone_def Let_def fr_small fr_dropEP split: option.split)
qed

lemma fr_result: "rel k (snd (result_locked c now R e decoy code err k))"
  unfolding result_locked_def Let_def count_failed_def count_sent_def delivered_to_def
  by (simp add: fr_small fr_settled fr_decoy count_fail_def Let_def)

lemma fr_load: "rel k (knock_load c now Rs rows k)"
proof -
  have "rel k k1 \<Longrightarrow> rel k (load_row c now Rs k1 x)" for k1 x
    by (cases x) (simp add: load_row_def Let_def fr_small fr_set fr_settled fr_decoy)
  then have "rel k k1 \<Longrightarrow> rel k (foldl (load_row c now Rs) k1 xs)" for k1 xs
    by (induction xs arbitrary: k1) simp_all
  then show ?thesis by (simp add: knock_load_def fr_refl)
qed

end

text \<open>A relation that the bell's stamps and timers keep as well.\<close>

locale knock_frame_bell = knock_frame +
  assumes fr_stamp: "rel k k1 \<Longrightarrow> (\<And>p. ep_url (g p) = ep_url p) \<Longrightarrow> (\<And>p. ep_domain (g p) = ep_domain p) \<Longrightarrow>
      rel k (upd_ep e g k1)"
    and fr_timers: "rel k k1 \<Longrightarrow> rel k (k1\<lparr>timers := ts\<rparr>)"
begin

lemma fr_ring: "rel k k1 \<Longrightarrow> rel k (snd (ringLocked c now R e decoy k1))"
  by (simp add: ringLocked_def Let_def after_def fr_add fr_stamp fr_timers)

lemma fr_fire: "rel k k1 \<Longrightarrow> rel k (fire c now R t k1)"
  by (auto simp: fire_def trail_def decoyDue_def decoyRunFire_def Let_def case_prod_beta fr_add fr_decoy
      fr_ring fr_stamp split: timer.split)

lemma fr_stored: "rel k k1 \<Longrightarrow> rel k (stored c now R ev k1)"
proof -
  have "rel k k1 \<Longrightarrow> rel k (wrapFor c now R a k1)" for a k1
    by (simp add: wrapFor_def fr_ring split: option.split)
  then have "rel k k1 \<Longrightarrow> rel k (foldl (\<lambda>k t. if length t \<ge> 2 \<and> t ! 0 = ''p''
      then wrapFor c now R (t ! 1) k else k) k1 ts)" for ts
    by (induction ts arbitrary: k1) simp_all
  then show "rel k k1 \<Longrightarrow> ?thesis" by (simp add: stored_def)
qed

end

end
