(* ===== verification/Knock_Example.thy ===== *)
theory Knock_Example
  imports Knock_Send
begin

text \<open>
  A relay with one push server, on which the properties of the knocker are worked out: the url library knows one
  host, keys are names padded to 32 bytes, and no draw adds anything.
\<close>

definition example_lib :: netlib where
  "example_lib =
     \<lparr>urlParse = (\<lambda>raw. if raw = [] then None else Some \<lparr>uScheme = ''https'', uUser = False, uOpaque = [],
        uHostname = ''push.example.org'', uPort = [], uRawQuery = [], uFragment = []\<rparr>),
      parseQuery = (\<lambda>_. Some []), parseIP = (\<lambda>_. None), icann = (\<lambda>_. True),
      etldPlusOne = (\<lambda>_. Some ''example.org''), sha256 = (\<lambda>s. take 32 (s @ replicate 32 CHR ''x''))\<rparr>"

definition example_cfg :: knock_cfg where
  "example_cfg =
     \<lparr>lib = example_lib, onions = False, pushHosts = {''example.org''}, ports = {''443''}, kfloor = minute,
      pushHostEPs = 100, pushHostRegs = 100, sharedEPs = 100, sharedRegs = 100, serverEPs = 100, serverRegs = 100,
      pushHostFresh = 100, sharedFresh = 100, knockPerSec = 50, domainPerSec = 2, pushHostPerSec = 50,
      decoyMean = 780 * minute\<rparr>"

definition example_rnd :: rnd where
  "example_rnd = \<lparr>r_first = 0, r_trail = 0, r_run_wait = 0, r_pause = 1, r_pause_wait = 0, r_run = (\<lambda>_. 1),
     r_exp = 1, r_recheck = 0\<rparr>"

lemma example_rnd_ok [simp]: "rnd_ok example_rnd"
  by (simp add: rnd_ok_def example_rnd_def duration_defs knockTrail_def knockNewFailGap_def)

definition example_addr :: string where
  "example_addr = replicate 64 CHR ''a''"

definition example_row :: knock_row where
  "example_row = \<lparr>row_addr = knockKey example_lib example_addr, row_ep = ''https://push.example.org/1'', row_made = 1000,
     row_expires = 3000000, row_born = 1000, row_proven = False\<rparr>"

text \<open>The knocker after a restart with one registration, at the second 2000.\<close>

definition example_knocker :: knocker where
  "example_knocker = knock_load example_cfg (of_unix 2000) (\<lambda>_. example_rnd) [example_row] (newKnocker example_cfg (of_unix 2000))"

definition example_wrap :: nevent where
  "example_wrap = \<lparr>evID = ''e'', pubKey = ''k'', createdAt = 2000, evKind = wrapKind, evTags = [[''p'', example_addr]],
     evContent = []\<rparr>"

lemma example_endpoint: "endpointOK example_lib False {''443''} ''https://push.example.org/1''"
  by code_simp

lemma example_domain: "domain_of example_lib ''https://push.example.org/1'' = ''example.org''"
  by code_simp

lemma example_key: "length (knockKey example_lib example_addr) = 32"
  by code_simp

lemmas example_defs = example_cfg_def example_row_def newKnocker_def knock_load_def load_row_def setLocked_def bind_reg_def takeEP_def Let_def
  domainLocked_def shareOf_def decoyAfterLocked_def after_def decoyLocked_def upd_dom_def upd_ep_def upd_share_def
  share_name_def settledLocked_def the_share_def new_domain_def new_share_def new_ep_def
  example_key example_endpoint example_domain

lemma example_knocker:
  "en example_knocker = 1" "eps example_knocker ''https://push.example.org/1'' = Some 0"
  "regs example_knocker (knockKey example_lib example_addr) = Some \<lparr>rep = 0, made = 1000, expires = 3000000, rfirst = 0\<rparr>"
  "ep_last (eh example_knocker 0) = time_zero" "\<not> trailing (eh example_knocker 0)"
  "ep_url (eh example_knocker 0) = ''https://push.example.org/1''" "domains example_knocker ''example.org'' = Some 0"
  by (simp_all add: example_knocker_def example_defs)

lemma example_clock: "to_unix (of_unix n) = n" "time_zero + minute \<le> of_unix 2000" "0 \<le> of_unix 2000"
  by (simp_all add: to_unix_def of_unix_def time_zero_def duration_defs)

text \<open>A first registration at the same relay, with nothing registered yet.\<close>

definition example_reg :: nevent where
  "example_reg = \<lparr>evID = ''r'', pubKey = example_addr, createdAt = 2000, evKind = knockKind, evTags = [],
     evContent = ''https://push.example.org/1''\<rparr>"

lemma example_isKey: "isKey example_addr"
  by code_simp

lemma example_fresh: "fst (take1 (newBucket now r 100) now)"
  by (simp add: take1_def takeN_def refill_def seconds_def newBucket_def Let_def)

definition example_take :: "answer \<times> knocker \<times> unit" where
  "example_take = knock_take example_cfg (of_unix 2000) example_rnd (\<lambda>l. (True, l)) (\<lambda>_. ([], True)) []
     example_reg (newKnocker example_cfg (of_unix 2000)) ()"

lemma example_host: "knockDomainOf example_lib (host_of example_lib ''https://push.example.org/1'') = ''example.org''"
  by code_simp

lemma example_checked:
  "checkLocked example_cfg (of_unix 2000) example_reg (newKnocker example_cfg (of_unix 2000)) =
     (Taken, shareOf example_cfg (of_unix 2000) ''example.org'' (newKnocker example_cfg (of_unix 2000)))"
proof -
  let ?k = "newKnocker example_cfg (of_unix 2000)"
  have s: "shareOf example_cfg (of_unix 2000) ''example.org'' ?k = ?k\<lparr>shares := [''example.org'' \<mapsto> new_share example_cfg (of_unix 2000) ''example.org'']\<rparr>"
    by (simp add: shareOf_def share_name_def example_cfg_def newKnocker_def Let_def)
  have "check_room example_cfg key u ''example.org'' (shareOf example_cfg (of_unix 2000) ''example.org'' ?k) = Taken" for key u
    unfolding s by (simp add: check_room_def share_full_def the_share_def new_share_def pendingCap_def newKnocker_def Let_def
        share_name_def example_cfg_def)
  then show ?thesis
    by (simp add: checkLocked_def example_reg_def example_isKey example_endpoint example_domain keptLocked_def Let_def
        newKnocker_def example_cfg_def knockSkew_def duration_defs)
qed

lemma example_taken: "fst example_take = Taken"
proof -
  let ?k = "newKnocker example_cfg (of_unix 2000)"
  let ?k1 = "shareOf example_cfg (of_unix 2000) ''example.org'' ?k"
  have s: "?k1 = ?k\<lparr>shares := [''example.org'' \<mapsto> new_share example_cfg (of_unix 2000) ''example.org'']\<rparr>"
    by (simp add: shareOf_def share_name_def example_cfg_def newKnocker_def Let_def)
  have s2: "shareOf example_cfg (of_unix 2000) ''example.org'' ?k1 = ?k1"
    unfolding s by (simp add: shareOf_def share_name_def example_cfg_def newKnocker_def Let_def)
  have t: "fst (take1 (fresh (the_share example_cfg ''example.org'' ?k1)) (of_unix 2000))"
    unfolding s by (simp add: the_share_def share_name_def example_cfg_def new_share_def example_fresh)
  have r: "regs ?k1 = Map.empty" "eps ?k1 = Map.empty" unfolding s by (simp_all add: newKnocker_def)
  have c: "lib example_cfg = example_lib" "''example.org'' \<in> pushHosts example_cfg" by (simp_all add: example_cfg_def)
  have e: "evContent example_reg = ''https://push.example.org/1''" "pubKey example_reg = example_addr" by (simp_all add: example_reg_def)
  show ?thesis
    unfolding example_take_def knock_take_def take_begin_def example_checked
    using t by (simp add: e c r s2 example_host Let_def split_beta)
qed

definition example_kept :: knocker where
  "example_kept = fst (snd example_take)"

end
