(* ===== verification/Knock_System.thy ===== *)
theory Knock_System
  imports Knock_Frame Knock_Example "HOL-Library.Multiset"
begin

text \<open>
  The knocker as a whole: the reject hook, registrations whose name is being looked up, forgets being
  written, timers, the workers and the sweep, each step one piece of code under the knocker's lock, in any order.
  The invariant of the registrations, the queue and the posts holds in every state such steps reach.
\<close>

section \<open>The steps\<close>

text \<open>What a worker is at: with a knock, posting to an address, with the answer, or about to let a url go.\<close>

datatype worker = Handed ep_id bool | Posting ep_id bool string | Answered ep_id bool int "net_error option"
  | Letting string

definition in_flight :: "worker list \<Rightarrow> ep_id list" where
  "in_flight ws = concat (map (\<lambda>w. case w of Handed e _ \<Rightarrow> [e] | Posting e _ _ \<Rightarrow> [e] | _ \<Rightarrow> []) ws)"

definition posting_to :: "string \<Rightarrow> worker list \<Rightarrow> int" where
  "posting_to key ws = int (length (filter (\<lambda>w. case w of Posting _ _ a \<Rightarrow> a = key | _ \<Rightarrow> False) ws))"

record ksys =
  kn :: knocker
  workers :: "worker list"
  lookups :: "(nevent \<times> bool) list"

definition share_at :: "knock_cfg \<Rightarrow> nevent \<Rightarrow> string" where
  "share_at c ev = share_name c (knockDomainOf (lib c) (host_of (lib c) (evContent ev)))"

text \<open>The connection's budget answers a new registration either way (\<open>ok\<close>).\<close>

inductive kstep :: "knock_cfg \<Rightarrow> nanos \<Rightarrow> ksys \<Rightarrow> ksys \<Rightarrow> bool" for c now where
  check: "kstep c now s (s\<lparr>kn := snd (checkLocked c now ev (kn s))\<rparr>)"
| taken: "take_begin c now R (\<lambda>_. (ok, ())) ev (kn s) () = (TakeAnswer a, k, ()) \<Longrightarrow> rnd_ok R \<Longrightarrow> kstep c now s (s\<lparr>kn := k\<rparr>)"
| lookup: "take_begin c now R (\<lambda>_. (ok, ())) ev (kn s) () = (TakeLookup host took, k, ()) \<Longrightarrow> rnd_ok R \<Longrightarrow>
    kstep c now s (s\<lparr>kn := k, lookups := (ev, took) # lookups s\<rparr>)"
| resumed: "(ev, took) \<in> set (lookups s) \<Longrightarrow> rnd_ok R \<Longrightarrow>
    kstep c now s (s\<lparr>kn := snd (take_resume c now R ev took ans (kn s)), lookups := remove1 (ev, took) (lookups s)\<rparr>)"
| forgetting: "kstep c now s (s\<lparr>kn := snd (forget_begin c now ev (kn s))\<rparr>)"
| forgotten: "kstep c now s (s\<lparr>kn := snd (forget_finish c now ev written (kn s))\<rparr>)"
| wrap: "rnd_ok R \<Longrightarrow> kstep c now s (s\<lparr>kn := stored c now R ev (kn s)\<rparr>)"
| fired: "(due, t) \<in> set (timers (kn s)) \<Longrightarrow> due \<le> now \<Longrightarrow> rnd_ok R \<Longrightarrow>
    kstep c now s (s\<lparr>kn := fire c now R t ((kn s)\<lparr>timers := remove1 (due, t) (timers (kn s))\<rparr>)\<rparr>)"
| settle: "kstep c now s (s\<lparr>kn := tick_settle c now order (kn s)\<rparr>)"
| sweep: "kstep c now s (s\<lparr>kn := snd (tick_chunk c now rkeys fkeys (kn s))\<rparr>)"
| idle: "nextLocked now (kn s) = (None, k) \<Longrightarrow> kstep c now s (s\<lparr>kn := k\<rparr>)"
| handed_out: "nextLocked now (kn s) = (Some (e, decoy), k) \<Longrightarrow>
    kstep c now s (s\<lparr>kn := k, workers := Handed e decoy # workers s\<rparr>)"
| bad_url: "Handed e decoy \<in> set (workers s) \<Longrightarrow>
    kstep c now s (s\<lparr>kn := doneLocked e (kn s),
      workers := Letting (ep_url (eh (kn s) e)) # remove1 (Handed e decoy) (workers s)\<rparr>)"
| unresolved: "Handed e decoy \<in> set (workers s) \<Longrightarrow>
    kstep c now s (s\<lparr>kn := doneLocked e (kn s),
      workers := Answered e decoy 0 err # remove1 (Handed e decoy) (workers s)\<rparr>)"
| busy: "Handed e decoy \<in> set (workers s) \<Longrightarrow> send_room c now e decoy key (kn s) = (False, k) \<Longrightarrow>
    kstep c now s (s\<lparr>kn := k, workers := remove1 (Handed e decoy) (workers s)\<rparr>)"
| posting: "Handed e decoy \<in> set (workers s) \<Longrightarrow> send_room c now e decoy key (kn s) = (True, k) \<Longrightarrow>
    kstep c now s (s\<lparr>kn := k, workers := Posting e decoy key # remove1 (Handed e decoy) (workers s)\<rparr>)"
| posted: "Posting e decoy key \<in> set (workers s) \<Longrightarrow>
    kstep c now s (s\<lparr>kn := send_over e key (kn s),
      workers := Answered e decoy code err # remove1 (Posting e decoy key) (workers s)\<rparr>)"
| kept: "Answered e decoy code err \<in> set (workers s) \<Longrightarrow> rnd_ok R \<Longrightarrow>
    result_locked c now R e decoy code err (kn s) = (False, k) \<Longrightarrow>
    kstep c now s (s\<lparr>kn := k, workers := remove1 (Answered e decoy code err) (workers s)\<rparr>)"
| refused: "Answered e decoy code err \<in> set (workers s) \<Longrightarrow> rnd_ok R \<Longrightarrow>
    result_locked c now R e decoy code err (kn s) = (True, k) \<Longrightarrow>
    kstep c now s (s\<lparr>kn := k,
      workers := Letting (ep_url (eh k e)) # remove1 (Answered e decoy code err) (workers s)\<rparr>)"
| let_go: "Letting u \<in> set (workers s) \<Longrightarrow> \<forall>e. eps (kn s) u = Some e \<longrightarrow> set keys = ep_keys (eh (kn s) e) \<Longrightarrow>
    kstep c now s (s\<lparr>kn := gone c now keys u (kn s), workers := remove1 (Letting u) (workers s)\<rparr>)"

text \<open>A run from a fresh knocker: the clock does not go back.\<close>

inductive kreach :: "knock_cfg \<Rightarrow> nanos \<Rightarrow> ksys \<Rightarrow> bool" for c where
  start: "kreach c now \<lparr>kn = knock_load c now Rs rows (newKnocker c now), workers = [], lookups = []\<rparr>"
    if "\<forall>n. rnd_ok (Rs n)"
| step: "kreach c now s \<Longrightarrow> now \<le> now' \<Longrightarrow> kstep c now' s s' \<Longrightarrow> kreach c now' s'"

section \<open>Shares stay, and only the workers count posts per address\<close>

definition steady :: "knocker \<Rightarrow> knocker \<Rightarrow> bool" where
  "steady k k' \<longleftrightarrow> (\<forall>s. shares k s \<noteq> None \<longrightarrow> shares k' s \<noteq> None) \<and> ipBusy (queue k') = ipBusy (queue k)"

interpretation st: knock_frame_bell steady c for c
proof (unfold_locales, goal_cases)
  case (17 k k1 u' now)
  then show ?case by (simp add: steady_def)
qed (auto simp: steady_def shareOf_shares store_put_def store_putSweep_def store_proven_def after_def)

declare st.fr_refl [simp]

section \<open>The workers keep the invariant\<close>

lemma upd_q_inv:
  assumes "\<And>x. qview (f x) = qview x"
  shows "knock_inv X c fl (upd_q f k) = knock_inv X c fl k"
proof -
  have "queue_ok c fl (upd_q f k) = queue_ok c fl k" by (rule queue_cong) (simp_all add: assms)
  moreover have "reg_ok X c (upd_q f k) = reg_ok X c k" by (rule reg_cong) simp_all
  moreover have "queued_live (upd_q f k) = queued_live k" by (simp add: queued_live_def)
  ultimately show ?thesis by (simp add: knock_inv_def)
qed

lemma timers_inv [simp]: "knock_inv X c fl (k\<lparr>timers := t\<rparr>) = knock_inv X c fl k"
  by (rule knock_inv_cong) simp_all

lemma store_proven_inv [simp]: "knock_inv X c fl (store_proven u k) = knock_inv X c fl k"
  by (rule knock_inv_cong) (simp_all add: store_proven_def)

lemma count_inv [simp]:
  "knock_inv X c fl (count_failed k) = knock_inv X c fl k" "knock_inv X c fl (count_sent decoy k) = knock_inv X c fl k"
  by (simp_all add: count_failed_def count_sent_def)

lemma fails_inv [simp]:
  "knock_inv X c fl (upd_ep e (\<lambda>p. p\<lparr>fails := a, failingSince := b, lastFail := d\<rparr>) k) = knock_inv X c fl k"
  "knock_inv X c fl (upd_ep e (count_fail now) k) = knock_inv X c fl k"
  by (simp_all add: upd_ep_inv rview_def eview_def count_fail_def Let_def)

lemma result_inv: "knock_inv X c fl k \<Longrightarrow> knock_inv X c fl (snd (result_locked c now R e decoy code err k))"
  by (simp add: result_locked_def delivered_to_def Let_def settledLocked_inv)

lemma flight_mset:
  assumes "mset fl' = mset fl"
  shows "knock_inv X c fl' k = knock_inv X c fl k"
proof -
  have "set fl' = set fl" using assms by (rule mset_eq_setD)
  moreover have "length (filter P fl') = length (filter P fl)" for P
    using assms by (metis mset_filter size_mset)
  ultimately show ?thesis unfolding knock_inv_def queue_ok_def flight_ok_def by simp
qed

lemma mset_flight: "mset (in_flight ws) = (\<Sum>w \<in># mset ws. mset (case w of Handed e _ \<Rightarrow> [e] | Posting e _ _ \<Rightarrow> [e] | _ \<Rightarrow> []))"
  by (induction ws) (simp_all add: in_flight_def)

lemma flight_remove:
  assumes "w \<in> set ws"
  shows "mset (in_flight ws) = mset (case w of Handed e _ \<Rightarrow> [e] | Posting e _ _ \<Rightarrow> [e] | _ \<Rightarrow> []) + mset (in_flight (remove1 w ws))"
proof -
  have ws: "mset ws = add_mset w (mset (remove1 w ws))" using assms by simp
  show ?thesis unfolding mset_flight ws by simp
qed

lemma flight_more:
  "in_flight (Handed e d # ws) = e # in_flight ws" "in_flight (Posting e d a # ws) = e # in_flight ws"
  "in_flight (Answered e d code err # ws) = in_flight ws" "in_flight (Letting u # ws) = in_flight ws"
  by (simp_all add: in_flight_def)

lemma posting_more:
  "posting_to key (Handed e d # ws) = posting_to key ws"
  "posting_to key (Posting e d a # ws) = posting_to key ws + of_bool (a = key)"
  "posting_to key (Answered e d code err # ws) = posting_to key ws" "posting_to key (Letting u # ws) = posting_to key ws"
  by (simp_all add: posting_to_def)

lemma posting_remove:
  assumes "w \<in> set ws"
  shows "posting_to key ws = (case w of Posting _ _ a \<Rightarrow> of_bool (a = key) | _ \<Rightarrow> 0) + posting_to key (remove1 w ws)"
proof -
  have "mset ws = add_mset w (mset (remove1 w ws))" using assms by simp
  then have "length (filter P ws) = length (filter P (w # remove1 w ws))" for P
    by (metis mset.simps(2) mset_filter size_mset)
  then show ?thesis unfolding posting_to_def by (simp split: worker.split)
qed

lemma done_worker:
  assumes inv: "knock_inv X c (in_flight ws) k" and w: "w \<in> set ws"
    and e: "(case w of Handed e _ \<Rightarrow> [e] | Posting e _ _ \<Rightarrow> [e] | _ \<Rightarrow> []) = [e]"
  shows "knock_inv X c (in_flight (remove1 w ws)) (doneLocked e k)"
proof -
  have m: "mset (in_flight ws) = mset (e # in_flight (remove1 w ws))" using flight_remove [OF w] e by simp
  then have i: "knock_inv X c (e # in_flight (remove1 w ws)) k" using inv flight_mset by blast
  from doneLocked_inv [OF this, of e] show ?thesis by simp
qed

section \<open>The invariant\<close>

lemma newKnocker_inv: "knock_inv {} c [] (newKnocker c now)"
proof -
  let ?k = "newKnocker c now"
  have k: "regs ?k = Map.empty" "eps ?k = Map.empty" "domains ?k = Map.empty" "shares ?k = Map.empty" "dn ?k = 0"
    "\<And>p. ring p ?k = []" "queued (queue ?k) = 0" "sharedQueued (queue ?k) = 0" "sharedBusy (queue ?k) = 0"
    "\<And>e. \<not> queuedReal (eh ?k e)" "\<And>e. \<not> queuedDecoy (eh ?k e)"
    by (simp_all add: newKnocker_def ring_def new_ep_def)
  have "queue_ok c [] ?k" by (simp add: queue_defs k knockSharedWorkers_def)
  moreover have "reg_ok {} c ?k" by (simp add: reg_ok_def heap_ok_def links_ok_def servers_ok_def shares_ok_def k)
  ultimately show ?thesis by (simp add: knock_inv_def queued_live_def k)
qed

lemma load_row_inv:
  assumes inv: "knock_inv X c fl k"
  shows "knock_inv X c fl (load_row c now Rs k (n, row))"
proof -
  let ?k = "setLocked c now (Rs n) (row_addr row) (row_ep row) (row_made row) (row_expires row) k"
  have k: "knock_inv X c fl ?k" and "\<exists>r. regs ?k (row_addr row) = Some r" using setLocked_inv [OF inv] by blast+
  then obtain r where r: "regs ?k (row_addr row) = Some r" by blast
  have "knock_inv X c fl (?k\<lparr>regs := (regs ?k)(row_addr row \<mapsto> r\<lparr>rfirst := 0\<rparr>)\<rparr>)"
    by (rule renew_inv [OF k r]) simp
  then show ?thesis using inv r
    by (simp add: load_row_def Let_def settledLocked_inv)
qed

lemma knock_load_inv:
  assumes "knock_inv X c fl k"
  shows "knock_inv X c fl (knock_load c now Rs rows k)"
proof -
  have "knock_inv X c fl k \<Longrightarrow> knock_inv X c fl (foldl (load_row c now Rs) k xs)" for xs k
    by (induction xs arbitrary: k) (auto simp: load_row_inv)
  then show ?thesis using assms by (simp add: knock_load_def)
qed

definition ksys_inv :: "knock_cfg \<Rightarrow> ksys \<Rightarrow> bool" where
  "ksys_inv c s \<longleftrightarrow> knock_inv {} c (in_flight (workers s)) (kn s) \<and>
     (\<forall>(ev, took) \<in> set (lookups s). shares (kn s) (share_at c ev) \<noteq> None) \<and>
     (\<forall>key. ipBusy (queue (kn s)) key = posting_to key (workers s) \<and> posting_to key (workers s) \<le> knockPerPushHostIP)"

text \<open>A step that does not touch the posts per address.\<close>

lemma ksys_inv_step:
  assumes inv: "ksys_inv c s" and "knock_inv {} c (in_flight (workers s')) (kn s')" and st: "steady (kn s) (kn s')"
    and "\<And>key. posting_to key (workers s') = posting_to key (workers s)"
    and "\<And>ev took. (ev, took) \<in> set (lookups s') \<Longrightarrow>
      (ev, took) \<in> set (lookups s) \<or> shares (kn s') (share_at c ev) \<noteq> None"
  shows "ksys_inv c s'"
proof -
  have "shares (kn s') (share_at c ev) \<noteq> None" if "(ev, took) \<in> set (lookups s')" for ev took
    using assms(5) [OF that] inv st unfolding ksys_inv_def steady_def by blast
  then show ?thesis using assms unfolding ksys_inv_def steady_def by auto
qed

lemma send_over_inv:
  assumes inv: "ksys_inv c s" and w: "Posting e decoy key \<in> set (workers s)"
  shows "ksys_inv c (s\<lparr>kn := send_over e key (kn s),
      workers := Answered e decoy code err # remove1 (Posting e decoy key) (workers s)\<rparr>)"
proof -
  let ?f = "\<lambda>x. let n = ipBusy x key - 1 in x\<lparr>ipBusy := (ipBusy x)(key := if n \<le> 0 then 0 else n)\<rparr>"
  let ?ws = "remove1 (Posting e decoy key) (workers s)" and ?k = "upd_q ?f (kn s)"
  have "knock_inv {} c (in_flight (workers s)) ?k"
    using inv by (simp add: ksys_inv_def upd_q_inv Let_def qview_def)
  then have "knock_inv {} c (in_flight ?ws) (doneLocked e ?k)" by (rule done_worker [OF _ w]) simp
  moreover have "steady ?k (doneLocked e ?k)" by (simp add: st.fr_done)
  then have "shares (kn s) n \<noteq> None \<longrightarrow> shares (send_over e key (kn s)) n \<noteq> None"
    "ipBusy (queue (send_over e key (kn s))) = ipBusy (queue ?k)" for n
    unfolding steady_def send_over_def by simp_all
  moreover have "ipBusy (queue ?k) a = posting_to a ?ws \<and> posting_to a ?ws \<le> knockPerPushHostIP" for a
  proof -
    have i: "ipBusy (queue (kn s)) a = posting_to a (workers s)" "posting_to a (workers s) \<le> knockPerPushHostIP" for a
      using inv by (simp_all add: ksys_inv_def)
    have "0 \<le> posting_to a ?ws" by (simp add: posting_to_def)
    then show ?thesis using i [of a] i [of key] posting_remove [OF w, of a] posting_remove [OF w, of key]
      by (auto simp: Let_def)
  qed
  ultimately show ?thesis using inv unfolding ksys_inv_def by (auto simp: flight_more posting_more send_over_def)
qed

lemma send_room_inv:
  assumes inv: "ksys_inv c s" and w: "Handed e decoy \<in> set (workers s)"
  shows "send_room c now e decoy key (kn s) = (False, k) \<Longrightarrow>
      ksys_inv c (s\<lparr>kn := k, workers := remove1 (Handed e decoy) (workers s)\<rparr>)"
    and "send_room c now e decoy key (kn s) = (True, k) \<Longrightarrow>
      ksys_inv c (s\<lparr>kn := k, workers := Posting e decoy key # remove1 (Handed e decoy) (workers s)\<rparr>)"
proof -
  let ?ws = "remove1 (Handed e decoy) (workers s)"
  have ki: "knock_inv {} c (in_flight (workers s)) (kn s)" using inv by (simp add: ksys_inv_def)
  have post: "posting_to a ?ws = posting_to a (workers s)" for a using posting_remove [OF w, of a] by simp
  {
    assume "send_room c now e decoy key (kn s) = (False, k)"
    then have k: "k = addLocked c now e decoy (doneLocked e (kn s))" by (auto simp: send_room_def split: if_splits)
    have "knock_inv {} c (in_flight ?ws) (doneLocked e (kn s))" by (rule done_worker [OF ki w]) simp
    then have "knock_inv {} c (in_flight ?ws) k" unfolding k by (rule addLocked_inv)
    moreover have "steady (kn s) k" unfolding k by (simp add: st.fr_add st.fr_done)
    ultimately show "ksys_inv c (s\<lparr>kn := k, workers := ?ws\<rparr>)"
      by (intro ksys_inv_step [OF inv]) (simp_all add: post)
  next
    assume room: "send_room c now e decoy key (kn s) = (True, k)"
    let ?f = "\<lambda>x. x\<lparr>ipBusy := (ipBusy x)(key := ipBusy x key + 1)\<rparr>"
    have k: "k = upd_q ?f (kn s)" and lt: "ipBusy (queue (kn s)) key < knockPerPushHostIP"
      using room by (auto simp: send_room_def ip_limit_def knockPerIP_def knockPerPushHostIP_def split: if_splits)
    have m: "mset (in_flight (Posting e decoy key # ?ws)) = mset (in_flight (workers s))"
      using flight_remove [OF w] by (simp add: flight_more)
    have "knock_inv {} c (in_flight (Posting e decoy key # ?ws)) k"
      using ki unfolding flight_mset [OF m] k by (simp add: upd_q_inv qview_def)
    moreover have "ipBusy (queue k) a = posting_to a (Posting e decoy key # ?ws)
        \<and> posting_to a (Posting e decoy key # ?ws) \<le> knockPerPushHostIP" for a
      using inv lt by (auto simp: k posting_more post ksys_inv_def)
    moreover have "\<forall>(ev, took) \<in> set (lookups s). shares k (share_at c ev) \<noteq> None"
      using inv by (simp add: ksys_inv_def k)
    ultimately show "ksys_inv c (s\<lparr>kn := k, workers := Posting e decoy key # ?ws\<rparr>)"
      unfolding ksys_inv_def by simp
  }
qed

lemma ksys_inv_kn:
  assumes "ksys_inv c s" and "\<And>fl. knock_inv {} c fl (kn s) \<Longrightarrow> knock_inv {} c fl k" and "steady (kn s) k"
  shows "ksys_inv c (s\<lparr>kn := k\<rparr>)"
  using assms(2) [of "in_flight (workers s)"] assms(1,3)
  by (intro ksys_inv_step [OF assms(1)]) (simp_all add: ksys_inv_def)

theorem kstep_inv:
  assumes "kstep c now s s'" and inv: "ksys_inv c s"
  shows "ksys_inv c s'"
  using assms(1)
proof cases
  case (taken R ok ev a k)
  show ?thesis unfolding taken(1)
    using take_begin_inv(1) [OF _ taken(2)] st.fr_take_begin [OF taken(2)] inv
    by (intro ksys_inv_step [OF inv]) (simp_all add: ksys_inv_def)
next
  case (lookup R ok ev host took k)
  have "knock_inv {} c (in_flight (workers s)) (kn s)" using inv by (simp add: ksys_inv_def)
  from take_begin_inv [OF this lookup(2)] show ?thesis unfolding lookup(1)
    using st.fr_take_begin [OF lookup(2)]
    by (intro ksys_inv_step [OF inv]) (auto simp: share_at_def)
next
  case (resumed ev took R ans)
  have "shares (kn s) (share_at c ev) \<noteq> None" using inv resumed(2) by (auto simp: ksys_inv_def)
  then show ?thesis unfolding resumed(1)
    using take_resume_inv [of "{}" c "in_flight (workers s)" "kn s" ev] inv set_remove1_subset
    by (intro ksys_inv_step [OF inv]) (auto simp: ksys_inv_def st.fr_take_resume share_at_def)
next
  case (idle k)
  then show ?thesis using nextLocked_inv [of "{}" c "in_flight (workers s)" "kn s" now] st.fr_next [of "kn s" now] inv
    by (intro ksys_inv_step [OF inv]) (simp_all add: ksys_inv_def)
next
  case (handed_out e decoy k)
  then show ?thesis using nextLocked_inv [of "{}" c "in_flight (workers s)" "kn s" now] st.fr_next [of "kn s" now] inv
    by (intro ksys_inv_step [OF inv]) (simp_all add: ksys_inv_def flight_more posting_more)
next
  case (bad_url e decoy)
  then show ?thesis using done_worker [of "{}" c "workers s" "kn s" "Handed e decoy" e] inv posting_remove [OF bad_url(2)]
    by (intro ksys_inv_step [OF inv]) (simp_all add: ksys_inv_def flight_more posting_more st.fr_done)
next
  case (unresolved e decoy err)
  then show ?thesis
    using done_worker [of "{}" c "workers s" "kn s" "Handed e decoy" e] inv posting_remove [OF unresolved(2)]
    by (intro ksys_inv_step [OF inv]) (simp_all add: ksys_inv_def flight_more posting_more st.fr_done)
next
  case (busy e decoy key k)
  then show ?thesis using send_room_inv(1) [OF inv] by simp
next
  case (posting e decoy key k)
  then show ?thesis using send_room_inv(2) [OF inv] by simp
next
  case (posted e decoy key code err)
  then show ?thesis using send_over_inv [OF inv] by simp
next
  case (kept e decoy code err R k)
  then show ?thesis
    using result_inv [of "{}" c "in_flight (workers s)" "kn s" now R e decoy code err]
      st.fr_result [of "kn s" c now R e decoy code err] inv posting_remove [OF kept(2)] flight_remove [OF kept(2)]
      flight_mset [of "in_flight (remove1 (Answered e decoy code err) (workers s))" "in_flight (workers s)" "{}" c k]
    by (intro ksys_inv_step [OF inv]) (simp_all add: ksys_inv_def)
next
  case (refused e decoy code err R k)
  then show ?thesis
    using result_inv [of "{}" c "in_flight (workers s)" "kn s" now R e decoy code err]
      st.fr_result [of "kn s" c now R e decoy code err] inv posting_remove [OF refused(2)] flight_remove [OF refused(2)]
      flight_mset [of "in_flight (remove1 (Answered e decoy code err) (workers s))" "in_flight (workers s)" "{}" c k]
    by (intro ksys_inv_step [OF inv]) (simp_all add: ksys_inv_def flight_more posting_more)
next
  case (let_go u keys)
  then show ?thesis
    using gone_inv [of c "in_flight (workers s)" "kn s" u keys now] st.fr_gone [of "kn s" c now keys u] inv
      posting_remove [OF let_go(2)] flight_remove [OF let_go(2)]
      flight_mset [of "in_flight (remove1 (Letting u) (workers s))" "in_flight (workers s)" "{}" c "gone c now keys u (kn s)"]
    by (intro ksys_inv_step [OF inv]) (simp_all add: ksys_inv_def)
next
  case (fired due t R)
  let ?k = "(kn s)\<lparr>timers := remove1 (due, t) (timers (kn s))\<rparr>"
  have "knock_inv {} c fl (kn s) \<Longrightarrow> knock_inv {} c fl (fire c now R t ?k)" for fl by (rule fire_inv) simp
  moreover have "steady (kn s) (fire c now R t ?k)" by (rule st.fr_fire) (simp add: steady_def)
  ultimately show ?thesis unfolding fired(1) by (intro ksys_inv_kn [OF inv])
qed (simp_all add: ksys_inv_kn [OF inv] checkLocked_inv forget_inv stored_inv tick_settle_inv tick_chunk_inv
    st.fr_check st.fr_forgetting st.fr_stored st.fr_tick_settle st.fr_tick_chunk)

lemma kreach_inv: "kreach c now s \<Longrightarrow> ksys_inv c s"
proof (induction rule: kreach.induct)
  case (start Rs now rows)
  have "steady (newKnocker c now) (knock_load c now Rs rows (newKnocker c now))" by (rule st.fr_load)
  then have "ipBusy (queue (knock_load c now Rs rows (newKnocker c now))) = (\<lambda>_. 0)"
    by (simp add: steady_def newKnocker_def)
  then show ?case using knock_load_inv [OF newKnocker_inv, of c now Rs rows now]
    by (simp add: ksys_inv_def in_flight_def posting_to_def knockPerPushHostIP_def)
next
  case (step now s now' s')
  then show ?case using kstep_inv by blast
qed

lemma kreach_knock: "kreach c now s \<Longrightarrow> knock_inv {} c (in_flight (workers s)) (kn s)"
  using kreach_inv by (simp add: ksys_inv_def)

text \<open>The posts in flight to one server, those to all the servers outside the list, and those to one address.\<close>

lemma server_flight:
  assumes "knock_inv X c fl k"
  shows "int (length (filter (\<lambda>e. ep_domain (eh k e) = n) fl)) \<le> (if n \<in> pushHosts c then knockPerPushServer else knockPerServer)"
proof -
  have q: "queue_ok c fl k" using assms by (simp add: knock_inv_def)
  then have there: "\<exists>i. srv k e i" if "e \<in> set fl" for e using that by (simp add: queue_ok_def flight_ok_def)
  show ?thesis
  proof (cases "domains k n")
    case None
    then have "ep_domain (eh k e) \<noteq> n" if "e \<in> set fl" for e using there [OF that] by (auto simp: srv_def)
    then have "filter (\<lambda>e. ep_domain (eh k e) = n) fl = []" by (simp add: filter_empty_conv)
    then show ?thesis by (simp add: knockPerPushServer_def knockPerServer_def)
  next
    case (Some i)
    have heap: "i < dn k \<and> dname (dh k i) = m \<and> dpush (dh k i) = (m \<in> pushHosts c)" if "domains k m = Some i" for m
      using q that by (simp add: queue_ok_def heap_ok_def)
    have i: "i < dn k" "dpush (dh k i) = (n \<in> pushHosts c)" using heap [OF Some] by simp_all
    have only: "m = n" if "domains k m = Some i" for m using heap [OF that] heap [OF Some] by simp
    have "filter (\<lambda>e. ep_domain (eh k e) = n) fl = filter (\<lambda>e. srv k e i) fl"
      using Some by (intro filter_cong) (auto simp: srv_def dest: only)
    moreover have "inflight (dh k i) = int (length (filter (\<lambda>e. srv k e i) fl))" "inflight (dh k i) \<le> busyCap (dh k i)"
      using q i(1) unfolding queue_ok_def flight_ok_def by blast+
    ultimately show ?thesis using i(2) by (simp add: busyCap_def)
  qed
qed

lemma shared_flight_sum:
  assumes "\<And>e. e \<in> set fl \<Longrightarrow> \<exists>i < n. srv k e i"
  shows "(\<Sum>i < n. if P i then 0 else int (length (filter (\<lambda>e. srv k e i) fl))) =
    int (length (filter (\<lambda>e. \<exists>i. srv k e i \<and> \<not> P i) fl))"
  using assms
proof (induction fl)
  case (Cons e fl)
  obtain j where j: "j < n" "srv k e j" using Cons.prems by auto
  then have only: "srv k e i \<longleftrightarrow> i = j" for i by (auto simp: srv_def)
  have "(\<Sum>i < n. if P i then 0 else int (length (filter (\<lambda>e. srv k e i) (e # fl)))) =
      (\<Sum>i < n. (if P i then 0 else int (length (filter (\<lambda>e. srv k e i) fl))) + (if i = j then of_bool (\<not> P j) else 0))"
    by (rule sum.cong) (auto simp: only)
  also have "\<dots> = (\<Sum>i < n. if P i then 0 else int (length (filter (\<lambda>e. srv k e i) fl))) + of_bool (\<not> P j)"
    using j(1) by (simp add: sum.distrib)
  finally show ?case using Cons by (simp add: only)
qed (simp cong: if_cong)

lemma shared_flight:
  assumes "knock_inv X c fl k"
  shows "int (length (filter (\<lambda>e. ep_domain (eh k e) \<notin> pushHosts c) fl)) \<le> knockSharedWorkers"
proof -
  have q: "queue_ok c fl k" using assms by (simp add: knock_inv_def)
  have heap: "domains k n = Some i \<Longrightarrow> i < dn k \<and> dpush (dh k i) = (n \<in> pushHosts c)" for n i
    using q by (simp add: queue_ok_def heap_ok_def)
  have there: "\<exists>i < dn k. srv k e i" if "e \<in> set fl" for e
    using q that heap unfolding queue_ok_def flight_ok_def srv_def by blast
  have fl: "inflight (dh k i) = int (length (filter (\<lambda>e. srv k e i) fl))" if "i < dn k" for i
    using q that by (simp add: queue_ok_def flight_ok_def)
  have "sharedBusy (queue k) = (\<Sum>i < dn k. if dpush (dh k i) then 0 else int (length (filter (\<lambda>e. srv k e i) fl)))"
    using q fl by (simp add: queue_ok_def sums_ok_def cong: if_cong)
  also have "\<dots> = int (length (filter (\<lambda>e. \<exists>i. srv k e i \<and> \<not> dpush (dh k i)) fl))"
    by (rule shared_flight_sum) (rule there)
  also have "filter (\<lambda>e. \<exists>i. srv k e i \<and> \<not> dpush (dh k i)) fl = filter (\<lambda>e. ep_domain (eh k e) \<notin> pushHosts c) fl"
  proof (intro filter_cong refl)
    fix e assume "e \<in> set fl"
    then obtain i where "srv k e i" using there by blast
    then show "(\<exists>i. srv k e i \<and> \<not> dpush (dh k i)) = (ep_domain (eh k e) \<notin> pushHosts c)"
      using heap by (auto simp: srv_def)
  qed
  finally show ?thesis using q by (simp add: queue_ok_def flight_ok_def)
qed

section \<open>What holds of every run\<close>


text \<open>The state of the example: one registration loaded, nothing on its way yet.\<close>

definition example_sys :: ksys where
  "example_sys = \<lparr>kn = example_knocker, workers = [], lookups = []\<rparr>"

lemma example_reach: "kreach example_cfg (of_unix 2000) example_sys"
  unfolding example_sys_def example_knocker_def by (rule kreach.start) simp


text \<open>C15. In every run the registrations are consistent: each names an endpoint that is there, each endpoint lists
  exactly its addresses and has one, and what a server and a share count is what is there.\<close>

theorem registry_consistent:
  assumes "kreach c now s" and "k = kn s"
  shows "(regs k key = Some r \<longrightarrow> eps k (ep_url (eh k (rep r))) = Some (rep r)) \<and>
    (eps k u = Some e \<longrightarrow> ep_url (eh k e) = u \<and> ep_keys (eh k e) = {x. \<exists>r. regs k x = Some r \<and> rep r = e} \<and>
       ep_keys (eh k e) \<noteq> {}) \<and>
    (domains k n = Some i \<longrightarrow>
       d_eps (dh k i) = int (card {u. \<exists>e. eps k u = Some e \<and> ep_domain (eh k e) = n}) \<and>
       d_regs (dh k i) = int (card {x. \<exists>r. regs k x = Some r \<and> ep_domain (eh k (rep r)) = n})) \<and>
    (shares k m = Some sh \<longrightarrow>
       sh_eps sh = int (card {u. \<exists>e. eps k u = Some e \<and> share_name c (ep_domain (eh k e)) = m}) \<and>
       sh_regs sh = int (card {x. \<exists>r. regs k x = Some r \<and> share_name c (ep_domain (eh k (rep r))) = m}))"
proof -
  have "reg_ok {} c k" using kreach_inv [OF assms(1)] assms(2) by (simp add: ksys_inv_def knock_inv_def)
  then have links: "links_ok {} k" and srv: "servers_ok c k" and shr: "shares_ok c k" by (simp_all add: reg_ok_def)
  have "regs k key = Some r \<longrightarrow> eps k (ep_url (eh k (rep r))) = Some (rep r)"
    using links unfolding links_ok_def live_def by blast
  moreover have "eps k u = Some e \<longrightarrow> ep_url (eh k e) = u \<and> ep_keys (eh k e) = {x. \<exists>r. regs k x = Some r \<and> rep r = e} \<and>
      ep_keys (eh k e) \<noteq> {}" using linksD [OF links] by blast
  moreover have "domains k n = Some i \<longrightarrow> d_eps (dh k i) = n_eps k n \<and> d_regs (dh k i) = n_regs k n"
    using srv by (simp add: servers_ok_def)
  moreover have "shares k m = Some sh \<longrightarrow> sh_eps sh = s_eps c k m \<and> sh_regs sh = s_regs c k m"
    using shr by (simp add: shares_ok_def share_ok_def)
  ultimately show ?thesis unfolding n_eps_def n_regs_def s_eps_def s_regs_def count_map_def by blast
qed

theorem registry_consistent_witness:
  "kreach example_cfg (of_unix 2000) example_sys \<and> regs (kn example_sys) (knockKey example_lib example_addr) \<noteq> None \<and>
   (\<exists>r. regs (kn example_sys) (knockKey example_lib example_addr) = Some r \<and>
      eps (kn example_sys) (ep_url (eh (kn example_sys) (rep r))) = Some (rep r))"
  using registry_consistent [OF example_reach refl, of "knockKey example_lib example_addr"
      "\<lparr>rep = 0, made = 1000, expires = 3000000, rfirst = 0\<rparr>"] example_reach example_knocker(3)
  by (simp add: example_sys_def)

text \<open>C17. In every run the queue is bounded and fair to what waits: a server's new real knocks and its decoys
  together, and each of its other lanes, stay within its cap, an endpoint waits at most once for a real
  knock and once for a decoy, everything that waits is for a registered endpoint, and a server with something waiting is in its
  ring, so its turn comes.\<close>

theorem queue_bounded:
  assumes "kreach c now s" and "k = kn s" and "domains k n = Some i" and "d = dh k i"
  shows "length (lanes d 0) + length (decoys d) \<le> queueCap d \<and>
    (\<forall>t \<in> {1, 2, 3}. length (lanes d t) \<le> queueCap d) \<and>
    distinct (lanes d 0 @ lanes d 1 @ lanes d 2 @ lanes d 3) \<and> distinct (decoys d) \<and>
    (\<forall>e \<in> set (lanes d 0 @ lanes d 1 @ lanes d 2 @ lanes d 3 @ decoys d). eps k (ep_url (eh k e)) = Some e) \<and>
    (0 < waiting d \<longrightarrow> i \<in> set (ring (dpush d) k))"
proof -
  have inv: "knock_inv {} c (in_flight (workers s)) k" using kreach_inv [OF assms(1)] assms(2) by (simp add: ksys_inv_def)
  then have q: "queue_ok c (in_flight (workers s)) k" and ql: "marked k \<subseteq> {e. live k e}"
    by (simp_all add: knock_inv_def queued_live_marked)
  have i: "i < dn k" using q assms(3) by (simp add: queue_ok_def heap_ok_def)
  have dom: "dom_ok k i" and rings: "ring_ok k" using q i by (simp_all add: queue_ok_def)
  have "live k e" if "e \<in> set (reals d) \<or> e \<in> set (decoys d)" for e
  proof -
    have "e \<in> marked k" using that dom assms(4) by (auto simp: dom_ok_def marked_def Let_def)
    then show ?thesis using ql by blast
  qed
  then have "\<forall>e \<in> set (lanes d 0 @ lanes d 1 @ lanes d 2 @ lanes d 3 @ decoys d). eps k (ep_url (eh k e)) = Some e"
    by (auto simp: reals_def live_def)
  moreover have "0 < waiting d \<longrightarrow> i \<in> set (ring (dpush d) k)"
    using dom rings i assms(4) by (simp add: dom_ok_def ring_ok_def Let_def)
  moreover have "\<forall>t \<in> {1, 2, 3}. length (lanes d t) \<le> queueCap d" using dom assms(4)
    by (simp add: dom_ok_def Let_def knockTiers_def)
  ultimately show ?thesis using dom assms(4) by (simp add: dom_ok_def Let_def reals_def)
qed

theorem queue_bounded_witness:
  "let d = dh (kn example_sys) 0
   in domains (kn example_sys) ''example.org'' = Some 0 \<and> length (lanes d 0) + length (decoys d) \<le> queueCap d"
  using queue_bounded [OF example_reach refl _ refl, of "''example.org''" 0] example_knocker(7)
  by (simp add: example_sys_def Let_def)

end
