(* ===== verification/Knock_Floor.thy ===== *)
theory Knock_Floor
  imports Knock_System
begin

text \<open>
  The floor between two bells of one endpoint (\<open>ringLocked\<close>, \<open>trail\<close> of \<open>relay-live/knock.go\<close>): in every run, whatever
  wraps, decoys and timers do, an endpoint's bell rings at least the floor after the one before.
\<close>

section \<open>What leaves bells alone\<close>

definition trails :: "knocker \<Rightarrow> ep_id \<Rightarrow> (nanos \<times> timer) list" where
  "trails k e = filter (\<lambda>(due, t). t = Trail e) (timers k)"

definition rests :: "knocker \<Rightarrow> knocker \<Rightarrow> bool" where
  "rests k k' \<longleftrightarrow> en k \<le> en k' \<and>
     (\<forall>e < en k. trailing (eh k' e) = trailing (eh k e) \<and> ep_last (eh k' e) = ep_last (eh k e)) \<and>
     (\<forall>e \<ge> en k. \<not> trailing (eh k e) \<longrightarrow> \<not> trailing (eh k' e)) \<and> (\<forall>e. trails k' e = trails k e)"

lemma rests_trans: "rests k k1 \<Longrightarrow> rests k1 k2 \<Longrightarrow> rests k k2"
  unfolding rests_def by (metis le_trans not_le_imp_less order.strict_trans2)

interpretation rs: knock_frame rests c for c
proof (unfold_locales, goal_cases)
  case (17 k k1 u' now)
  have "rests k1 (k1\<lparr>eps := (eps k1)(u' \<mapsto> en k1), eh := (eh k1)(en k1 := new_ep u' (domain_of (lib c) u') now), en := en k1 + 1\<rparr>)"
    by (simp add: rests_def trails_def new_ep_def)
  then show ?case using 17 rests_trans by blast
qed (auto simp: rests_def trails_def store_put_def store_putSweep_def store_proven_def after_def)

section \<open>The bell\<close>

text \<open>An endpoint with a bell put off has one timer for it, due no earlier than the floor allows; any other has none.\<close>

definition bell_ok :: "knock_cfg \<Rightarrow> knocker \<Rightarrow> bool" where
  "bell_ok c k \<longleftrightarrow>
     (\<forall>e. (trailing (eh k e) \<longrightarrow> (\<exists>due \<ge> ep_last (eh k e) + kfloor c. trails k e = [(due, Trail e)])) \<and>
          (\<not> trailing (eh k e) \<longrightarrow> trails k e = [])) \<and> (\<forall>e \<ge> en k. \<not> trailing (eh k e))"

definition bell_step :: "knock_cfg \<Rightarrow> nanos \<Rightarrow> knocker \<Rightarrow> knocker \<Rightarrow> bool" where
  "bell_step c now k k' \<longleftrightarrow> bell_ok c k' \<and> en k \<le> en k' \<and>
     (\<forall>e < en k. ep_last (eh k' e) = ep_last (eh k e) \<or> ep_last (eh k' e) = now \<and> ep_last (eh k e) + kfloor c \<le> now)"

lemma bell_refl: "bell_ok c k \<Longrightarrow> bell_step c now k k"
  by (simp add: bell_step_def)

lemma bell_trans:
  assumes "bell_step c now k k1" and "bell_step c now k1 k2"
  shows "bell_step c now k k2"
proof -
  have "ep_last (eh k2 e) = ep_last (eh k e) \<or> ep_last (eh k2 e) = now \<and> ep_last (eh k e) + kfloor c \<le> now"
    if e: "e < en k" for e
  proof -
    have "e < en k1" using assms(1) e by (simp add: bell_step_def)
    then have "ep_last (eh k2 e) = ep_last (eh k1 e) \<or> ep_last (eh k2 e) = now \<and> ep_last (eh k1 e) + kfloor c \<le> now"
      using assms(2) by (simp add: bell_step_def)
    moreover have "ep_last (eh k1 e) = ep_last (eh k e) \<or> ep_last (eh k1 e) = now \<and> ep_last (eh k e) + kfloor c \<le> now"
      using assms(1) e by (simp add: bell_step_def)
    ultimately show ?thesis by auto
  qed
  moreover have "bell_ok c k2" "en k \<le> en k2" using assms by (simp_all add: bell_step_def)
  ultimately show ?thesis by (simp add: bell_step_def)
qed

lemma rests_bell:
  assumes "rests k k'" and ok: "bell_ok c k"
  shows "bell_step c now k k'"
proof -
  have lt: "en k \<le> en k'" and same: "\<And>e. e < en k \<Longrightarrow> trailing (eh k' e) = trailing (eh k e) \<and> ep_last (eh k' e) = ep_last (eh k e)"
    and new: "\<And>e. en k \<le> e \<Longrightarrow> \<not> trailing (eh k' e)" and ts: "\<And>e. trails k' e = trails k e"
    using assms by (auto simp: rests_def bell_ok_def)
  have "(trailing (eh k' e) \<longrightarrow> (\<exists>due \<ge> ep_last (eh k' e) + kfloor c. trails k' e = [(due, Trail e)])) \<and>
      (\<not> trailing (eh k' e) \<longrightarrow> trails k' e = [])" for e
    using ok same [of e] new [of e] unfolding ts by (cases "e < en k") (auto simp: bell_ok_def)
  then have "bell_ok c k'" using new lt by (simp add: bell_ok_def)
  then show ?thesis using lt same by (simp add: bell_step_def)
qed

lemma bell_then:
  assumes "bell_step c now k k1" and "rests k1 k2"
  shows "bell_step c now k k2"
  using bell_trans [OF assms(1) rests_bell [OF assms(2)]] assms(1) by (simp add: bell_step_def)

text \<open>The bell rings now: the stamp is set once the floor is over, and no bell of it is put off.\<close>

lemma ring_now:
  assumes ok: "bell_ok c k" and q: "\<not> trailing (eh k e)" and fl: "ep_last (eh k e) + kfloor c \<le> now"
  shows "bell_step c now k (upd_ep e (\<lambda>p. p\<lparr>ep_last := now\<rparr>) k)"
proof -
  let ?k = "upd_ep e (\<lambda>p. p\<lparr>ep_last := now\<rparr>) k"
  have ts: "trails ?k x = trails k x" for x by (simp add: trails_def)
  have "bell_ok c ?k" using ok q unfolding bell_ok_def ts by auto
  then show ?thesis using fl by (auto simp: bell_step_def)
qed

lemma put_off:
  assumes ok: "bell_ok c k" and q: "\<not> trailing (eh k e)" and lt: "e < en k" and w: "ep_last (eh k e) + kfloor c - now \<le> w"
  shows "bell_step c now k (after now w (Trail e) (upd_ep e (\<lambda>p. p\<lparr>trailing := True\<rparr>) k))" (is "bell_step c now k ?k")
proof -
  have ts: "trails ?k x = (if x = e then trails k e @ [(now + w, Trail e)] else trails k x)" for x
    by (simp add: trails_def after_def)
  have none: "trails k e = []" using ok q by (simp add: bell_ok_def)
  have eh: "eh ?k x = (if x = e then (eh k e)\<lparr>trailing := True\<rparr> else eh k x)" "en ?k = en k" for x
    by (simp_all add: after_def)
  have "bell_ok c ?k" unfolding bell_ok_def ts eh using ok w lt none by (auto simp: bell_ok_def)
  then show ?thesis by (simp add: bell_step_def eh)
qed

lemma ringLocked_bell:
  assumes ok: "bell_ok c k" and R: "rnd_ok R" and lt: "e < en k"
  shows "bell_step c now k (snd (ringLocked c now R e decoy k))"
proof -
  have trail: "0 \<le> r_trail R" using R by (simp add: rnd_ok_def)
  show ?thesis
  proof (cases "trailing (eh k e) \<or> ep_last (eh k e) + kfloor c - now > 0 \<and> decoy")
    case True
    then show ?thesis using bell_refl [OF ok] by (auto simp: ringLocked_def Let_def)
  next
    case False
    show ?thesis
    proof (cases "ep_last (eh k e) + kfloor c - now > 0")
      case True
      then show ?thesis using False trail put_off [OF ok _ lt, of now "ep_last (eh k e) + kfloor c - now + r_trail R"]
        by (simp add: ringLocked_def Let_def)
    next
      case over: False
      then have "bell_step c now k (upd_ep e (\<lambda>p. p\<lparr>ep_last := now\<rparr>) k)" using False by (intro ring_now [OF ok]) auto
      then have "bell_step c now k (addLocked c now e decoy (upd_ep e (\<lambda>p. p\<lparr>ep_last := now\<rparr>) k))"
        by (rule bell_then) (intro rs.fr_add rs.fr_refl)
      then show ?thesis using False over by (auto simp: ringLocked_def Let_def)
    qed
  qed
qed

text \<open>The timer of a bell put off.\<close>

lemma trail_bell:
  assumes ok: "bell_ok c k" and t: "(due, Trail e) \<in> set (timers k)" "due \<le> now"
  shows "bell_step c now k (trail c now e (k\<lparr>timers := remove1 (due, Trail e) (timers k)\<rparr>))"
proof -
  let ?k = "k\<lparr>timers := remove1 (due, Trail e) (timers k)\<rparr>"
  let ?k1 = "upd_ep e (\<lambda>p. p\<lparr>trailing := False\<rparr>) ?k"
  have mem: "(due, Trail e) \<in> set (trails k e)" using t(1) by (simp add: trails_def)
  then have "trailing (eh k e)" using ok unfolding bell_ok_def by (metis empty_iff empty_set)
  then obtain d where "ep_last (eh k e) + kfloor c \<le> d" "trails k e = [(d, Trail e)]" using ok unfolding bell_ok_def by blast
  then have ts: "trails k e = [(due, Trail e)]" and fl: "ep_last (eh k e) + kfloor c \<le> due" using mem by auto
  have "trails ?k1 x = (if x = e then [] else trails k x)" for x
  proof -
    have "trails ?k1 x = remove1 (due, Trail e) (trails k x)" by (simp add: trails_def filter_remove1)
    moreover have "(due, Trail e) \<notin> set (trails k x)" if "x \<noteq> e" using that by (auto simp: trails_def)
    ultimately show ?thesis using ts by (simp add: remove1_idem)
  qed
  then have ok1: "bell_ok c ?k1" using ok by (auto simp: bell_ok_def)
  then have s1: "bell_step c now k ?k1" by (simp add: bell_step_def)
  have "bell_step c now ?k1 (upd_ep e (\<lambda>p. p\<lparr>ep_last := now\<rparr>) ?k1)"
    using fl t(2) by (intro ring_now [OF ok1]) auto
  then have "bell_step c now ?k1 (addLocked c now e False (upd_ep e (\<lambda>p. p\<lparr>ep_last := now\<rparr>) ?k1))"
    by (rule bell_then) (intro rs.fr_add rs.fr_refl)
  then show ?thesis using s1 bell_trans [OF s1] by (simp add: trail_def Let_def)
qed

lemma live_below: "knock_inv X c fl k \<Longrightarrow> live k e \<Longrightarrow> e < en k"
  using linksD(1) [of X k "ep_url (eh k e)" e] by (simp add: knock_inv_def reg_ok_def live_def)

lemma fire_bell:
  assumes inv: "knock_inv X c fl k" and ok: "bell_ok c k" and R: "rnd_ok R"
    and t: "(due, t) \<in> set (timers k)" "due \<le> now"
  shows "bell_step c now k (fire c now R t (k\<lparr>timers := remove1 (due, t) (timers k)\<rparr>))"
proof (cases "\<exists>e. t = Trail e")
  case True
  then show ?thesis using trail_bell [OF ok] t by (auto simp: fire_def)
next
  case False
  let ?k = "k\<lparr>timers := remove1 (due, t) (timers k)\<rparr>"
  have k: "rests k ?k" using False by (auto simp: rests_def trails_def filter_remove1 remove1_idem)
  have s0: "bell_step c now k ?k" by (rule rests_bell [OF k ok])
  then have ok0: "bell_ok c ?k" by (simp add: bell_step_def)
  have live: "e < en ?k" if "live ?k e" for e using live_below [of X c fl ?k e] inv that by simp
  have "bell_step c now ?k (fire c now R t ?k)"
  proof (cases t)
    case (DecoyDue e gen)
    show ?thesis
    proof (cases "live ?k e \<and> decoyGen (eh ?k e) = gen")
      case True
      let ?k1 = "upd_ep e (\<lambda>p. p\<lparr>runGen := runGen p + 1\<rparr>) ?k"
      have r1: "rests ?k ?k1" by (simp add: rs.fr_ep rs.fr_refl)
      then have s1: "bell_step c now ?k ?k1" by (rule rests_bell [OF _ ok0])
      then have "bell_ok c ?k1" by (simp add: bell_step_def)
      then have "bell_step c now ?k1 (snd (ringLocked c now R e True ?k1))" using True live
        by (intro ringLocked_bell [OF _ R]) simp_all
      from bell_trans [OF s1 this] have "bell_step c now ?k (snd (ringLocked c now R e True ?k1))" .
      then show ?thesis using True unfolding DecoyDue fire_def decoyDue_def Let_def timer.case case_prod_beta
        by (auto elim!: bell_then intro!: rs.fr_decoy rs.fr_refl)
    qed (use bell_refl [OF ok0] in \<open>auto simp: DecoyDue fire_def decoyDue_def\<close>)
  next
    case (DecoyRun e gen left)
    have "bell_step c now ?k (snd (ringLocked c now R e True ?k))" if "live ?k e"
      using live [OF that] by (rule ringLocked_bell [OF ok0 R])
    then have "bell_step c now ?k (snd (ringLocked c now R e True ?k))"
      "bell_step c now ?k (decoyRunLocked c now R e gen (left - 1) (snd (ringLocked c now R e True ?k)))" if "live ?k e"
      using that by (auto elim!: bell_then intro!: rs.fr_decoy rs.fr_refl)
    then show ?thesis using bell_refl [OF ok0, of now]
      unfolding DecoyRun fire_def decoyRunFire_def Let_def timer.case case_prod_beta by auto
  qed (use False in simp)
  from bell_trans [OF s0 this] show ?thesis .
qed

lemma stored_bell:
  assumes inv: "knock_inv X c fl k" and ok: "bell_ok c k" and R: "rnd_ok R"
  shows "bell_step c now k (stored c now R ev k)"
proof -
  have one: "bell_step c now k (wrapFor c now R a k)" "knock_inv X c fl (wrapFor c now R a k)"
    if inv: "knock_inv X c fl k" and ok: "bell_ok c k" for a k
  proof -
    have "rep r < en k" if "regs k (knockKey (lib c) a) = Some r" for r
      using inv that live_below [OF inv] unfolding knock_inv_def reg_ok_def links_ok_def by blast
    then show "bell_step c now k (wrapFor c now R a k)"
      using bell_refl [OF ok] by (auto simp: wrapFor_def intro!: ringLocked_bell [OF ok R] split: option.split)
    show "knock_inv X c fl (wrapFor c now R a k)" using inv by (simp add: wrapFor_def ringLocked_inv split: option.split)
  qed
  have "knock_inv X c fl k \<Longrightarrow> bell_ok c k \<Longrightarrow> bell_step c now k (foldl (\<lambda>k t. if length t \<ge> 2 \<and> t ! 0 = ''p''
      then wrapFor c now R (t ! 1) k else k) k ts)" for ts k
  proof (induction ts arbitrary: k)
    case (Cons t ts)
    let ?k = "if length t \<ge> 2 \<and> t ! 0 = ''p'' then wrapFor c now R (t ! 1) k else k"
    have a: "bell_step c now k ?k" "knock_inv X c fl ?k" using one [OF Cons.prems] Cons.prems bell_refl by simp_all
    then have "bell_ok c ?k" by (simp add: bell_step_def)
    from bell_trans [OF a(1) Cons.IH [OF a(2) this]] show ?case by simp
  qed (simp add: bell_refl)
  then show ?thesis using inv ok bell_refl [OF ok] by (simp add: stored_def)
qed

lemma kstep_bell:
  assumes step: "kstep c now s s'" and inv: "ksys_inv c s" and ok: "bell_ok c (kn s)"
  shows "bell_step c now (kn s) (kn s')"
proof -
  have ki: "knock_inv {} c (in_flight (workers s)) (kn s)" using inv by (simp add: ksys_inv_def)
  note rest = rests_bell [OF _ ok]
  show ?thesis using step
  proof cases
    case (fired due t R)
    then show ?thesis using fire_bell [OF ki ok] by simp
  next
    case (wrap R ev)
    then show ?thesis using stored_bell [OF ki ok] by simp
  next
    case (busy e decoy key k)
    then have "rests (kn s) k" by (auto simp: send_room_def rs.fr_add rs.fr_done rs.fr_refl split: if_splits)
    then show ?thesis using busy rest by simp
  next
    case (posting e decoy key k)
    then have "rests (kn s) k" by (auto simp: send_room_def rests_def trails_def split: if_splits)
    then show ?thesis using posting rest by simp
  next
    case (posted e decoy key code err)
    have "rests (kn s) (upd_q f (kn s))" for f by (simp add: rests_def trails_def)
    then have "rests (kn s) (send_over e key (kn s))" unfolding send_over_def by (rule rs.fr_done)
    then show ?thesis using posted rest by simp
  next
    case (idle k)
    then show ?thesis using rest rs.fr_next [of "kn s" now] by simp
  next
    case (handed_out e decoy k)
    then show ?thesis using rest rs.fr_next [of "kn s" now] by simp
  next
    case (kept e decoy code err R k)
    then show ?thesis using rest rs.fr_result [of "kn s" c now R e decoy code err] by simp
  next
    case (refused e decoy code err R k)
    then show ?thesis using rest rs.fr_result [of "kn s" c now R e decoy code err] by simp
  qed (use rest in \<open>auto simp: rs.fr_check rs.fr_take_begin rs.fr_take_resume rs.fr_forgetting rs.fr_tick_settle
      rs.fr_tick_chunk rs.fr_done rs.fr_gone rs.fr_refl\<close>)
qed

lemma kreach_bell: "kreach c now s \<Longrightarrow> bell_ok c (kn s)"
proof (induction rule: kreach.induct)
  case (start Rs now rows)
  have "bell_ok c (newKnocker c now)" by (simp add: bell_ok_def newKnocker_def new_ep_def trails_def)
  from rests_bell [OF rs.fr_load this] show ?case by (simp add: bell_step_def)
next
  case (step now s now' s')
  then show ?case using kstep_bell [OF step.hyps(3) kreach_inv [OF step.hyps(1)]] by (simp add: bell_step_def)
qed



end
