(* ===== verification/Knock_Rules.thy ===== *)
theory Knock_Rules
  imports Knock_Floor
begin

text \<open>
  What one registration or forget does (\<open>take\<close>, \<open>takeForget\<close>, \<open>checkLocked\<close> of \<open>relay-live/knock.go\<close>): seen from outside
  the knocker is a map from addresses to their registration and the forgets it keeps. The detailed operation
  implements the operation on that map; it takes only what is newer than what it keeps; and it keeps the caps.
\<close>

section \<open>The map of registrations\<close>

type_synonym reg_view = "(key \<rightharpoonup> string \<times> unix \<times> unix) \<times> (key \<rightharpoonup> unix)"

definition view :: "knocker \<Rightarrow> reg_view" where
  "view k = (reg_book k, forgets k)"

text \<open>What a registration or a forget that is taken does to the map.\<close>

definition spec_take :: "key \<Rightarrow> string \<Rightarrow> unix \<Rightarrow> reg_view \<Rightarrow> reg_view" where
  "spec_take key content m = (\<lambda>(book, fg).
     if content \<noteq> [] then (book(key \<mapsto> (content, m, m + 30 * 24 * 3600)), fg(key := None))
     else if book key = None then (book, fg) else (book(key := None), fg(key \<mapsto> m)))"

lemma view_frame [simp]:
  "view (upd_dom i f k) = view k" "view (upd_share n h k) = view k" "view (upd_q q k) = view k"
  "view (shareOf c now d k) = view k" "view (store_put key ep m1 m2 m3 del k) = view k"
  "view (snd (domainLocked c now d k)) = view k" "view (snd (checkLocked c now ev k)) = view k"
  by (simp_all add: view_def reg_book_def fun_eq_iff store_put_def)

lemma book_frame [simp]:
  "reg_book (k\<lparr>forgets := fg\<rparr>) = reg_book k" "reg_book (upd_share n h k) = reg_book k" "reg_book (shareOf c now d k) = reg_book k"
  by (simp_all add: reg_book_def fun_eq_iff)

lemma view_ep: "(\<And>p. ep_url (g p) = ep_url p) \<Longrightarrow> view (upd_ep e g k) = view k"
  by (auto simp: view_def reg_book_def fun_eq_iff intro!: option.map_cong)

lemma setLocked_view:
  assumes "knock_inv X c fl k"
  shows "view (setLocked c now R key u m ex k) = ((reg_book k)(key \<mapsto> (u, m, ex)), forgets k)"
  using setLocked_inv [OF assms, of now R key u m ex] by (simp add: view_def)

lemma ttl_unix: "to_unix (of_unix m + knockTTL) = m + 30 * 24 * 3600"
proof -
  have "of_unix m + knockTTL = (m + 30 * 24 * 3600) * second"
    by (simp add: of_unix_def knockTTL_def duration_defs algebra_simps)
  then show ?thesis by (simp add: to_unix_def duration_defs)
qed

lemma take_keep_view:
  assumes inv: "knock_inv X c fl k" and "evContent ev \<noteq> []"
  shows "view (take_keep c now R ev unchecked k) =
    spec_take (knockKey (lib c) (pubKey ev)) (evContent ev) (createdAt ev) (view k)"
proof -
  let ?key = "knockKey (lib c) (pubKey ev)"
  let ?k = "k\<lparr>forgets := (forgets k)(?key := None)\<rparr>"
  let ?k1 = "setLocked c now R ?key (evContent ev) (createdAt ev) (to_unix (of_unix (createdAt ev) + knockTTL)) ?k"
  have "knock_inv X c fl ?k" using inv by simp
  from setLocked_view [OF this, of now R ?key "evContent ev" "createdAt ev"]
  have v: "view ?k1 = spec_take ?key (evContent ev) (createdAt ev) (view k)"
    using assms(2) by (simp add: ttl_unix spec_take_def view_def)
  show ?thesis using v unfolding take_keep_def Let_def case_prod_beta by (simp add: view_ep)
qed

lemma drop_view: "view (dropLocked c now key k) = ((reg_book k)(key := None), forgets k)"
  by (simp add: view_def dropLocked_book)

lemma book_none: "reg_book k key = None \<longleftrightarrow> regs k key = None"
  by (simp add: reg_book_def)

lemma take_begin_view:
  assumes inv: "knock_inv X c fl k" and ne: "evContent ev \<noteq> []"
    and out: "take_begin c now R newReg ev k l = (st, k', l')"
  shows "view k' = (if st = TakeAnswer Taken
    then spec_take (knockKey (lib c) (pubKey ev)) (evContent ev) (createdAt ev) (view k) else view k)"
proof -
  obtain a k1 where a: "checkLocked c now ev k = (a, k1)" by (cases "checkLocked c now ev k")
  let ?k2 = "shareOf c now (knockDomainOf (lib c) (host_of (lib c) (evContent ev))) k1"
  have k1: "knock_inv X c fl k1" "view k1 = view k"
    using checkLocked_inv(1) [OF inv, of now ev] view_frame(7) [of c now ev k] a by simp_all
  then have k2: "knock_inv X c fl ?k2" by (simp add: shareOf_inv)
  note keep = take_keep_view [OF k2 ne] take_keep_view [OF _ ne, of X c fl "upd_share n (\<lambda>s. s\<lparr>fresh := b\<rparr>) ?k2" for n b]
  show ?thesis using out a k1(2) k2 unfolding take_begin_def Let_def
    by (auto simp: case_prod_beta keep split: answer.splits if_splits)
qed

lemma take_resume_view:
  assumes inv: "knock_inv X c fl k" and ne: "evContent ev \<noteq> []"
    and out: "take_resume c now R ev took ans k = (a, k')"
  shows "view k' = (if a = Taken
    then spec_take (knockKey (lib c) (pubKey ev)) (evContent ev) (createdAt ev) (view k) else view k)"
proof -
  note keep = take_keep_view [OF inv ne] take_keep_view [OF checkLocked_inv(1) [OF inv] ne]
  show ?thesis using out unfolding take_resume_def Let_def
    by (auto simp: case_prod_beta keep split: answer.splits if_splits)
qed

lemma forget_view:
  assumes "forget_begin c now ev k = (None, k1)" and "forget_finish c now ev written k1 = (a, k')" and "evContent ev = []"
  shows "view k' = (if a = Taken
    then spec_take (knockKey (lib c) (pubKey ev)) [] (createdAt ev) (view k) else view k)"
proof -
  let ?key = "knockKey (lib c) (pubKey ev)"
  obtain b x where b: "checkLocked c now ev k = (b, x)" by (cases "checkLocked c now ev k")
  then have "regs x = regs k" using checkLocked_sel(1) [of c now ev k] by simp
  then have k1: "k1 = snd (checkLocked c now ev k)" and there: "regs k ?key \<noteq> None"
    using assms(1) b by (auto simp: forget_begin_def split: answer.splits if_splits)
  have v: "view k1 = view k" unfolding k1 by simp
  have "reg_book k ?key \<noteq> None" using there by (simp add: book_none)
  moreover have "reg_book k1 = reg_book k" "forgets k1 = forgets k" using v by (simp_all add: view_def)
  ultimately show ?thesis using assms(2) v unfolding forget_finish_def Let_def
    by (auto simp: view_def spec_take_def dropLocked_book split: if_splits option.splits)
qed

lemma knock_take_view:
  assumes inv: "knock_inv X c fl k" and out: "knock_take c now R newReg look written ev k l = (a, k', l')"
  shows "view k' = (if a = Taken
    then spec_take (knockKey (lib c) (pubKey ev)) (evContent ev) (createdAt ev) (view k) else view k)"
proof (cases "evContent ev = []")
  case True
  let ?key = "knockKey (lib c) (pubKey ev)"
  obtain b k1 where b: "forget_begin c now ev k = (b, k1)" by (cases "forget_begin c now ev k")
  show ?thesis
  proof (cases b)
    case None
    then show ?thesis using out b True forget_view [of c now ev k k1 written a k']
      by (auto simp: knock_take_def split: prod.splits)
  next
    case (Some x)
    obtain d y where d: "checkLocked c now ev k = (d, y)" by (cases "checkLocked c now ev k")
    then have y: "view y = view k" "regs y = regs k"
      using view_frame(7) [of c now ev k] checkLocked_sel(1) [of c now ev k] by simp_all
    have "k' = y" "a = Taken \<Longrightarrow> regs k ?key = None"
      using out b Some d y(2) True by (auto simp: knock_take_def forget_begin_def split: answer.splits if_splits)
    then show ?thesis using y(1) True book_none [of k ?key] by (auto simp: spec_take_def view_def)
  qed
next
  case ne: False
  obtain st k1 l1 where b: "take_begin c now R newReg ev k l = (st, k1, l1)" by (cases "take_begin c now R newReg ev k l")
  have k1: "knock_inv X c fl k1" by (rule take_begin_inv(1) [OF inv b])
  note first = take_begin_view [OF inv ne b]
  show ?thesis
  proof (cases st)
    case (TakeAnswer x)
    then show ?thesis using out b first ne by (simp add: knock_take_def)
  next
    case (TakeLookup host took)
    obtain d y where d: "take_resume c now R ev took (look host) k1 = (d, y)"
      by (cases "take_resume c now R ev took (look host) k1")
    then show ?thesis using out b first ne TakeLookup take_resume_view [OF k1 ne d] by (simp add: knock_take_def)
  qed
qed

text \<open>C13. A registration or a forget does to the knocker what it does to the map of registrations: answered as taken
  it puts its endpoint, its time and its month in the map and removes the forget, or it removes the entry and
  keeps the forget; refused it changes nothing. Endpoints, servers, shares, queue and timers underneath
  never show.\<close>

theorem take_refines_map:
  assumes "kreach c now s" and "knock_take c now' R newReg look written ev (kn s) l = (a, k', l')"
  shows "view k' = (if a = Taken
    then spec_take (knockKey (lib c) (pubKey ev)) (evContent ev) (createdAt ev) (view (kn s)) else view (kn s))"
  by (rule knock_take_view [OF kreach_knock [OF assms(1)] assms(2)])

text \<open>The relay of the example with nothing registered, and what a first registration makes of it.\<close>

definition example_empty :: ksys where
  "example_empty = \<lparr>kn = newKnocker example_cfg (of_unix 2000), workers = [], lookups = []\<rparr>"

lemma example_empty_reach: "kreach example_cfg (of_unix 2000) example_empty"
proof -
  have "example_empty = \<lparr>kn = knock_load example_cfg (of_unix 2000) (\<lambda>_. example_rnd) [] (newKnocker example_cfg (of_unix 2000)),
    workers = [], lookups = []\<rparr>" by (simp add: example_empty_def knock_load_def)
  then show ?thesis using kreach.start [of "\<lambda>_. example_rnd" example_cfg "of_unix 2000" "[]"] by simp
qed

lemma example_take_run:
  "knock_take example_cfg (of_unix 2000) example_rnd (\<lambda>l. (True, l)) (\<lambda>_. ([], True)) [] example_reg (kn example_empty) () =
     (Taken, example_kept, ())"
  using example_taken by (cases example_take) (simp add: example_kept_def example_take_def example_empty_def)

theorem take_refines_map_witness:
  "kreach example_cfg (of_unix 2000) example_empty \<and>
   view example_kept = spec_take (knockKey example_lib example_addr) ''https://push.example.org/1'' 2000 (view (kn example_empty))"
  using take_refines_map [OF example_empty_reach example_take_run] example_empty_reach
  by (simp add: example_reg_def example_cfg_def)

section \<open>Newer wins\<close>

lemma checkLocked_newer:
  assumes "checkLocked c now ev k = (Taken, k1)"
  shows "of_unix (createdAt ev) \<ge> now - knockSkew \<and> of_unix (createdAt ev) \<le> now + knockSkew"
    and "keptLocked (knockKey (lib c) (pubKey ev)) k = Some (m, f) \<Longrightarrow>
      m < createdAt ev \<or> m = createdAt ev \<and> evContent ev = [] \<and> \<not> f"
  using assms by (auto simp: checkLocked_def Let_def split: if_splits option.splits prod.splits)

lemma knock_take_checked:
  assumes "knock_take c now R newReg look written ev k l = (Taken, k', l')"
  shows "\<exists>k1. checkLocked c now ev k = (Taken, k1)"
  using assms
  by (cases "checkLocked c now ev k"; cases "fst (checkLocked c now ev k)")
    (auto simp: knock_take_def forget_begin_def take_begin_def split: if_splits)

text \<open>What is taken is newer than what is kept for its address, or a forget of the same second as the registration
  that is kept; and its time is within the window around now. So of two registrations the newer stays whatever order they
  come in, and one from before a forget that is kept is refused.\<close>

theorem take_only_newer:
  assumes "knock_take c now R newReg look written ev k l = (Taken, k', l')"
  shows "now - knockSkew \<le> of_unix (createdAt ev) \<and> of_unix (createdAt ev) \<le> now + knockSkew \<and>
    (\<forall>m f. keptLocked (knockKey (lib c) (pubKey ev)) k = Some (m, f) \<longrightarrow>
       m < createdAt ev \<or> m = createdAt ev \<and> evContent ev = [] \<and> \<not> f)"
  using knock_take_checked [OF assms] checkLocked_newer by blast

theorem take_only_newer_witness:
  "of_unix 2000 - knockSkew \<le> of_unix (createdAt example_reg) \<and> of_unix (createdAt example_reg) \<le> of_unix 2000 + knockSkew"
  using take_only_newer [OF example_take_run] by blast

section \<open>The caps\<close>

text \<open>An endpoint's server is the one its url names.\<close>

definition named :: "knock_cfg \<Rightarrow> knocker \<Rightarrow> bool" where
  "named c k \<longleftrightarrow> (\<forall>e < en k. ep_domain (eh k e) = domain_of (lib c) (ep_url (eh k e)))"

definition keeps_names :: "knock_cfg \<Rightarrow> knocker \<Rightarrow> knocker \<Rightarrow> bool" where
  "keeps_names c k k' \<longleftrightarrow> (named c k \<longrightarrow> named c k')"

interpretation nm: knock_frame_bell "keeps_names c" c for c
proof (unfold_locales, goal_cases)
  case (17 k k1 u' now)
  then show ?case by (auto simp: keeps_names_def named_def new_ep_def less_Suc_eq)
qed (auto simp: keeps_names_def named_def store_put_def store_putSweep_def store_proven_def after_def)

lemma kstep_named:
  assumes "kstep c now s s'"
  shows "keeps_names c (kn s) (kn s')"
  using assms
proof cases
  case (fired due t R)
  have "keeps_names c (kn s) ((kn s)\<lparr>timers := remove1 (due, t) (timers (kn s))\<rparr>)" by (intro nm.fr_timers nm.fr_refl)
  from nm.fr_fire [OF this] show ?thesis by (simp add: fired(1))
next
  case (busy e decoy key k)
  then show ?thesis by (auto simp: send_room_def nm.fr_add nm.fr_done nm.fr_refl split: if_splits)
next
  case (posting e decoy key k)
  then show ?thesis by (auto simp: send_room_def keeps_names_def named_def split: if_splits)
next
  case (posted e decoy key code err)
  have "keeps_names c (kn s) (upd_q f (kn s))" for f by (simp add: keeps_names_def named_def)
  from nm.fr_done [OF this] show ?thesis by (simp add: posted(1) send_over_def)
next
  case (idle k)
  then show ?thesis using nm.fr_next [of c "kn s" now] by simp
next
  case (handed_out e decoy k)
  then show ?thesis using nm.fr_next [of c "kn s" now] by simp
next
  case (kept e decoy code err R k)
  then show ?thesis using nm.fr_result [of c "kn s" now R e decoy code err] by simp
next
  case (refused e decoy code err R k)
  then show ?thesis using nm.fr_result [of c "kn s" now R e decoy code err] by simp
qed (auto simp: nm.fr_check nm.fr_take_begin nm.fr_take_resume nm.fr_forgetting nm.fr_stored nm.fr_tick_settle
    nm.fr_tick_chunk nm.fr_done nm.fr_gone nm.fr_refl)

lemma kreach_named: "kreach c now s \<Longrightarrow> named c (kn s)"
proof (induction rule: kreach.induct)
  case (start Rs now rows)
  have "named c (newKnocker c now)" by (simp add: named_def newKnocker_def)
  then show ?case using nm.fr_load [of c "newKnocker c now" now Rs rows] by (simp add: keeps_names_def)
next
  case (step now s now' s')
  then show ?case using kstep_named [OF step.hyps(3)] by (simp add: keeps_names_def)
qed

text \<open>The counts of a share, read off the map: the addresses registered on it and the endpoints they name.\<close>

definition book_regs :: "(string \<Rightarrow> bool) \<Rightarrow> (key \<rightharpoonup> string \<times> unix \<times> unix) \<Rightarrow> key set" where
  "book_regs P book = {key. \<exists>u m ex. book key = Some (u, m, ex) \<and> P u}"

definition book_eps :: "(string \<Rightarrow> bool) \<Rightarrow> (key \<rightharpoonup> string \<times> unix \<times> unix) \<Rightarrow> string set" where
  "book_eps P book = {u. P u \<and> (\<exists>key m ex. book key = Some (u, m, ex))}"

lemma book_counts:
  assumes links: "links_ok {} k" and nm: "named c k"
  shows "count_map (\<lambda>r. Q (ep_domain (eh k (rep r)))) (regs k) = int (card (book_regs (\<lambda>u. Q (domain_of (lib c) u)) (reg_book k)))"
    and "count_map (\<lambda>e. Q (ep_domain (eh k e))) (eps k) = int (card (book_eps (\<lambda>u. Q (domain_of (lib c) u)) (reg_book k)))"
    and "finite (book_regs P (reg_book k))" and "finite (book_eps P (reg_book k))"
    and "eps k u \<noteq> None \<longleftrightarrow> (\<exists>key m ex. reg_book k key = Some (u, m, ex))"
    and "eps k u = Some e \<Longrightarrow> ep_keys (eh k e) = {key. \<exists>m ex. reg_book k key = Some (u, m, ex)}"
proof -
  have dom: "ep_domain (eh k e) = domain_of (lib c) (ep_url (eh k e))" if "live k e" for e
    using nm linksD(1) [OF links] that unfolding named_def live_def by blast
  have lv: "live k (rep r)" if "regs k key = Some r" for key r using links that unfolding links_ok_def by blast
  have fin: "finite (dom (regs k))" using links by (simp add: links_ok_def)
  have "book_regs P (reg_book k) = {key. \<exists>r. regs k key = Some r \<and> P (ep_url (eh k (rep r)))}" for P
    by (auto simp: book_regs_def reg_book_def)
  note br = this
  show "count_map (\<lambda>r. Q (ep_domain (eh k (rep r)))) (regs k) = int (card (book_regs (\<lambda>u. Q (domain_of (lib c) u)) (reg_book k)))"
    unfolding count_map_def br using dom [OF lv]
    by (intro arg_cong [where f = "\<lambda>x. int (card x)"] Collect_cong ex_cong1 conj_cong) simp_all
  show fr: "finite (book_regs P (reg_book k))" for P
    by (rule finite_subset [OF _ fin]) (auto simp: br)
  have eps: "eps k u \<noteq> None \<longleftrightarrow> (\<exists>key m ex. reg_book k key = Some (u, m, ex))" for u
  proof
    assume "eps k u \<noteq> None"
    then obtain e where e: "eps k u = Some e" by auto
    then obtain key r where "regs k key = Some r" "rep r = e" using linksD(3,4) [OF links e] by blast
    then show "\<exists>key m ex. reg_book k key = Some (u, m, ex)" using linksD(2) [OF links e] by (auto simp: reg_book_def)
  next
    assume "\<exists>key m ex. reg_book k key = Some (u, m, ex)"
    then obtain key r where "regs k key = Some r" "ep_url (eh k (rep r)) = u" by (auto simp: reg_book_def)
    then show "eps k u \<noteq> None" using lv by (auto simp: live_def)
  qed
  then show "eps k u \<noteq> None \<longleftrightarrow> (\<exists>key m ex. reg_book k key = Some (u, m, ex))" .
  have de: "ep_domain (eh k e) = domain_of (lib c) u" if "eps k u = Some e" for u e
    using dom [of e] linksD(2) [OF links that] that by (simp add: live_def)
  have "(\<exists>e. eps k u = Some e \<and> Q (ep_domain (eh k e))) \<longleftrightarrow> Q (domain_of (lib c) u) \<and> eps k u \<noteq> None" for u
    using de [of u] by (cases "eps k u") auto
  then have "{u. \<exists>e. eps k u = Some e \<and> Q (ep_domain (eh k e))} = {u. Q (domain_of (lib c) u) \<and> eps k u \<noteq> None}"
    by simp
  then show "count_map (\<lambda>e. Q (ep_domain (eh k e))) (eps k) = int (card (book_eps (\<lambda>u. Q (domain_of (lib c) u)) (reg_book k)))"
    unfolding count_map_def book_eps_def eps by simp
  have "finite (dom (eps k))" using links by (simp add: links_ok_def)
  moreover have "book_eps P (reg_book k) = {u. P u \<and> eps k u \<noteq> None}" unfolding book_eps_def eps ..
  then have "book_eps P (reg_book k) \<subseteq> dom (eps k)" by auto
  ultimately show "finite (book_eps P (reg_book k))" by (rule finite_subset [rotated])
  show "ep_keys (eh k e) = {key. \<exists>m ex. reg_book k key = Some (u, m, ex)}" if e: "eps k u = Some e"
  proof -
    have "rep r = e \<longleftrightarrow> ep_url (eh k (rep r)) = u" if "regs k key = Some r" for key r
      using lv [OF that] linksD(2) [OF links e] e unfolding live_def by (metis option.inject)
    then have "(\<exists>r. regs k key = Some r \<and> rep r = e) \<longleftrightarrow> (\<exists>m ex. reg_book k key = Some (u, m, ex))" for key
      by (cases "regs k key") (auto simp: reg_book_def)
    then show ?thesis unfolding linksD(3) [OF links e] by simp
  qed
qed

text \<open>What the check found room for.\<close>

lemma checkLocked_room:
  assumes "checkLocked c now ev k = (Taken, k1)" and "evContent ev \<noteq> []"
    and "\<And>r. regs k (knockKey (lib c) (pubKey ev)) = Some r \<Longrightarrow> eps k (evContent ev) \<noteq> Some (rep r)"
  defines "d \<equiv> domain_of (lib c) (evContent ev)"
  shows "check_room c (knockKey (lib c) (pubKey ev)) (evContent ev) d (shareOf c now d k) = Taken"
  using assms by (auto simp: checkLocked_def Let_def split: if_splits option.splits prod.splits)

lemma share_full_less: "\<not> share_full reg n mx \<Longrightarrow> 0 \<le> n \<Longrightarrow> n + 1 \<le> (mx :: int)"
  unfolding share_full_def by (simp split: if_splits)

lemma check_room_caps:
  assumes "check_room c key u d k = Taken" and "0 \<le> sh_regs (the_share c d k)" and "0 \<le> sh_eps (the_share c d k)"
  shows "sh_regs (the_share c d k) + 1 \<le> regCap (the_share c d k)"
    and "eps k u = None \<Longrightarrow> sh_eps (the_share c d k) + 1 \<le> epCap (the_share c d k)"
    and "eps k u = Some e \<Longrightarrow> card (ep_keys (eh k e)) < maxRegsPerEP"
    and "share_name c d = [] \<Longrightarrow> domains k d = Some i \<Longrightarrow> d_regs (dh k i) < serverRegs c"
    and "share_name c d = [] \<Longrightarrow> eps k u = None \<Longrightarrow> domains k d = Some i \<Longrightarrow> d_eps (dh k i) < serverEPs c"
proof -
  note room = assms(1) [unfolded check_room_def Let_def]
  have "\<not> share_full (regs k key \<noteq> None) (sh_regs (the_share c d k)) (regCap (the_share c d k))"
    using room by (auto split: option.splits if_splits)
  then show "sh_regs (the_share c d k) + 1 \<le> regCap (the_share c d k)" using assms(2) by (rule share_full_less)
  show "sh_eps (the_share c d k) + 1 \<le> epCap (the_share c d k)" if "eps k u = None"
  proof (rule share_full_less [OF _ assms(3)])
    show "\<not> share_full (regs k key \<noteq> None) (sh_eps (the_share c d k)) (epCap (the_share c d k))"
      using room that by (auto split: if_splits)
  qed
  show "eps k u = Some e \<Longrightarrow> card (ep_keys (eh k e)) < maxRegsPerEP" using room by (auto split: if_splits)
  show "share_name c d = [] \<Longrightarrow> domains k d = Some i \<Longrightarrow> d_regs (dh k i) < serverRegs c"
    using room by (auto split: option.splits if_splits)
  show "share_name c d = [] \<Longrightarrow> eps k u = None \<Longrightarrow> domains k d = Some i \<Longrightarrow> d_eps (dh k i) < serverEPs c"
    using room by (auto split: option.splits if_splits)
qed

lemma book_grows:
  "book_regs P (book(key \<mapsto> (u, m, ex))) \<subseteq> insert key (book_regs P book)"
  "book_eps P (book(key \<mapsto> (u, m, ex))) \<subseteq> insert u (book_eps P book)"
  by (auto simp: book_regs_def book_eps_def split: if_splits)

lemma card_grows:
  assumes "A \<subseteq> insert x B" and "finite B"
  shows "int (card A) \<le> int (card B) + 1"
proof -
  have "card A \<le> card (insert x B)" using assms by (intro card_mono) simp_all
  also have "\<dots> \<le> card B + 1" using assms(2) by (simp add: card_insert_if)
  finally show ?thesis by simp
qed

lemma knock_take_inv:
  assumes inv: "knock_inv X c fl k" and out: "knock_take c now R newReg look written ev k l = (a, k', l')"
  shows "knock_inv X c fl k'" and "keeps_names c k k'"
proof -
  have "knock_inv X c fl k' \<and> keeps_names c k k'"
  proof (cases "evContent ev = []")
    case True
    obtain b k1 where b: "forget_begin c now ev k = (b, k1)" by (cases "forget_begin c now ev k")
    have k1: "knock_inv X c fl k1" "keeps_names c k k1"
      using forget_inv(1) [OF inv, of now ev] nm.fr_forgetting(1) [of c k now ev] b by simp_all
    show ?thesis
      using out True b k1 forget_inv(2) [OF k1(1), of now ev written] nm.fr_forgetting(2) [of c k1 now ev written]
      by (cases b) (auto simp: knock_take_def keeps_names_def split: prod.splits)
  next
    case False
    obtain st k1 l1 where b: "take_begin c now R newReg ev k l = (st, k1, l1)" by (cases "take_begin c now R newReg ev k l")
    have k1: "knock_inv X c fl k1" "keeps_names c k k1"
      using take_begin_inv(1) [OF inv b] nm.fr_take_begin [OF b] by simp_all
    show ?thesis
    proof (cases st)
      case (TakeAnswer x)
      then show ?thesis using out b k1 False by (simp add: knock_take_def)
    next
      case (TakeLookup host took)
      have "shares k1 (share_name c (knockDomainOf (lib c) (host_of (lib c) (evContent ev)))) \<noteq> None"
        using take_begin_inv(2) [OF inv b] TakeLookup by blast
      from take_resume_inv [OF k1(1) this, of now R took "look host"]
      show ?thesis using out b False TakeLookup k1(2) nm.fr_take_resume [of c k1 now R ev took "look host"]
        by (auto simp: knock_take_def keeps_names_def split: prod.splits)
    qed
  qed
  then show "knock_inv X c fl k'" "keeps_names c k k'" by blast+
qed

text \<open>The room the check found, counted on the map.\<close>

lemma room_on_map:
  assumes inv: "knock_inv {} c fl k" and nm: "named c k" and out: "checkLocked c now ev k = (Taken, k1)"
    and ne: "evContent ev \<noteq> []"
    and moved: "\<And>m ex. reg_book k (knockKey (lib c) (pubKey ev)) \<noteq> Some (evContent ev, m, ex)"
    and pos: "0 < serverRegs c" "0 < serverEPs c"
  defines "d \<equiv> domain_of (lib c) (evContent ev)"
  defines "P \<equiv> \<lambda>u. share_name c (domain_of (lib c) u) = share_name c d" and "D \<equiv> \<lambda>u. domain_of (lib c) u = d"
  shows "int (card (book_regs P (reg_book k))) + 1 \<le> (if share_name c d \<noteq> [] then pushHostRegs c else sharedRegs c)"
    and "eps k (evContent ev) = None \<Longrightarrow>
      int (card (book_eps P (reg_book k))) + 1 \<le> (if share_name c d \<noteq> [] then pushHostEPs c else sharedEPs c)"
    and "card {key. \<exists>m ex. reg_book k key = Some (evContent ev, m, ex)} < maxRegsPerEP"
    and "share_name c d = [] \<Longrightarrow> int (card (book_regs D (reg_book k))) + 1 \<le> serverRegs c"
    and "share_name c d = [] \<Longrightarrow> eps k (evContent ev) = None \<Longrightarrow> int (card (book_eps D (reg_book k))) + 1 \<le> serverEPs c"
proof -
  let ?u = "evContent ev" and ?s = "share_name c d"
  have links: "links_ok {} k" using inv by (simp add: knock_inv_def reg_ok_def)
  note bc = book_counts [OF links nm]
  let ?k = "shareOf c now d k"
  let ?sh = "the_share c d ?k"
  have ok: "reg_ok {} c ?k" using shareOf_inv [OF inv] by (simp add: knock_inv_def)
  have there: "shares ?k ?s = Some ?sh" by (rule the_share_shareOf)
  have "share_ok c ?k ?s ?sh" using ok there by (simp add: reg_ok_def shares_ok_def)
  then have sh: "sh_regs ?sh = s_regs c k ?s" "sh_eps ?sh = s_eps c k ?s"
    "regCap ?sh = (if ?s \<noteq> [] then pushHostRegs c else sharedRegs c)"
    "epCap ?sh = (if ?s \<noteq> [] then pushHostEPs c else sharedEPs c)"
    by (simp_all add: share_ok_def s_regs_def s_eps_def)
  have srv: "d_regs (dh k i) = n_regs k d" "d_eps (dh k i) = n_eps k d" if "domains k d = Some i" for i
    using ok that by (simp_all add: reg_ok_def servers_ok_def n_regs_def n_eps_def)
  have none: "n_regs k d = 0" "n_eps k d = 0" if "domains k d = None"
    using missing_server_counts [OF links, of c d] that ok inv by (simp_all add: knock_inv_def reg_ok_def)
  have "eps k ?u \<noteq> Some (rep r)" if "regs k (knockKey (lib c) (pubKey ev)) = Some r" for r
    using moved [of "made r" "expires r"] that linksD(2) [OF links, of ?u "rep r"] by (auto simp: reg_book_def)
  then have room: "check_room c (knockKey (lib c) (pubKey ev)) ?u d ?k = Taken"
    unfolding d_def by (rule checkLocked_room [OF out ne])
  have counts: "s_regs c k ?s = int (card (book_regs P (reg_book k)))" "s_eps c k ?s = int (card (book_eps P (reg_book k)))"
    "n_regs k d = int (card (book_regs D (reg_book k)))" "n_eps k d = int (card (book_eps D (reg_book k)))"
    unfolding s_regs_def s_eps_def n_regs_def n_eps_def P_def D_def
    using bc(1) [of "\<lambda>x. share_name c x = ?s"] bc(2) [of "\<lambda>x. share_name c x = ?s"] bc(1) [of "\<lambda>x. x = d"] bc(2) [of "\<lambda>x. x = d"]
    by simp_all
  note caps = check_room_caps [OF room, unfolded sh counts, simplified]
  show "int (card (book_regs P (reg_book k))) + 1 \<le> (if ?s \<noteq> [] then pushHostRegs c else sharedRegs c)"
    using caps(1) by simp
  show "eps k ?u = None \<Longrightarrow> int (card (book_eps P (reg_book k))) + 1 \<le> (if ?s \<noteq> [] then pushHostEPs c else sharedEPs c)"
    using caps(2) by simp
  show "card {key. \<exists>m ex. reg_book k key = Some (?u, m, ex)} < maxRegsPerEP"
  proof (cases "eps k ?u")
    case None
    then have "{key. \<exists>m ex. reg_book k key = Some (?u, m, ex)} = {}" using bc(5) [of ?u] by blast
    then show ?thesis by (simp add: maxRegsPerEP_def)
  next
    case (Some e)
    then show ?thesis using caps(3) [of e] bc(6) [OF Some] by simp
  qed
  show "int (card (book_regs D (reg_book k))) + 1 \<le> serverRegs c" if "?s = []"
    using caps(4) that srv(1) none(1) pos(1) unfolding counts by (cases "domains k d") auto
  show "int (card (book_eps D (reg_book k))) + 1 \<le> serverEPs c" if "?s = []" "eps k ?u = None"
    using caps(5) that srv(2) none(2) pos(2) unfolding counts by (cases "domains k d") auto
qed

text \<open>Taking a registration that is new or moves never takes a share or a server past what it may hold: the
  addresses of its share and, with a new endpoint, the share's endpoints stay within the share's caps, an endpoint has at
  most 256 addresses, and a server outside the list stays within its own caps.\<close>

theorem take_keeps_caps:
  assumes "kreach c now s" and "knock_take c now' R newReg look written ev (kn s) l = (Taken, k', l')"
    and "evContent ev = u" and "u \<noteq> []" and "\<And>m ex. reg_book (kn s) (knockKey (lib c) (pubKey ev)) \<noteq> Some (u, m, ex)"
    and "0 < serverRegs c" and "0 < serverEPs c" and "d = domain_of (lib c) u"
    and "shares k' (share_name c d) = Some sh" and "domains k' d = Some i" and "eps k' u = Some e"
  shows "sh_regs sh \<le> regCap sh \<and> (eps (kn s) u = None \<longrightarrow> sh_eps sh \<le> epCap sh) \<and> card (ep_keys (eh k' e)) \<le> 256 \<and>
    (share_name c d = [] \<longrightarrow> d_regs (dh k' i) \<le> serverRegs c \<and> (eps (kn s) u = None \<longrightarrow> d_eps (dh k' i) \<le> serverEPs c))"
proof -
  let ?k = "kn s" and ?key = "knockKey (lib c) (pubKey ev)" and ?s = "share_name c d"
  have inv: "knock_inv {} c (in_flight (workers s)) ?k" by (rule kreach_knock [OF assms(1)])
  have nm: "named c ?k" by (rule kreach_named [OF assms(1)])
  have inv': "knock_inv {} c (in_flight (workers s)) k'" and nm': "named c k'"
    using knock_take_inv [OF inv assms(2)] nm by (simp_all add: keeps_names_def)
  have links: "links_ok {} ?k" and links': "links_ok {} k'" and ok': "reg_ok {} c k'"
    using inv inv' by (simp_all add: knock_inv_def reg_ok_def)
  obtain k1 where check: "checkLocked c now' ev ?k = (Taken, k1)" using knock_take_checked [OF assms(2)] by blast
  note room = room_on_map [OF inv nm check, unfolded assms(3), OF assms(4-7), folded assms(8)]
  obtain m ex where book: "reg_book k' = (reg_book ?k)(?key \<mapsto> (u, m, ex))"
    using knock_take_view [OF inv assms(2)] assms(3,4) by (auto simp: view_def spec_take_def)
  note bc = book_counts [OF links nm] and bc' = book_counts [OF links' nm']
  have grow: "int (card (book_regs P (reg_book k'))) \<le> int (card (book_regs P (reg_book ?k))) + 1"
    "int (card (book_eps P (reg_book k'))) \<le> int (card (book_eps P (reg_book ?k))) + 1" for P
    unfolding book using bc(3,4) [of P] book_grows by (blast intro: card_grows)+
  have "share_ok c k' ?s sh" using ok' assms(9) by (simp add: reg_ok_def shares_ok_def)
  then have sh: "sh_regs sh = int (card (book_regs (\<lambda>u. share_name c (domain_of (lib c) u) = ?s) (reg_book k')))"
    "sh_eps sh = int (card (book_eps (\<lambda>u. share_name c (domain_of (lib c) u) = ?s) (reg_book k')))"
    "regCap sh = (if ?s \<noteq> [] then pushHostRegs c else sharedRegs c)"
    "epCap sh = (if ?s \<noteq> [] then pushHostEPs c else sharedEPs c)"
    using bc'(1,2) [of "\<lambda>x. share_name c x = ?s"] by (simp_all add: share_ok_def s_regs_def s_eps_def)
  have srv: "d_regs (dh k' i) = int (card (book_regs (\<lambda>u. domain_of (lib c) u = d) (reg_book k')))"
    "d_eps (dh k' i) = int (card (book_eps (\<lambda>u. domain_of (lib c) u = d) (reg_book k')))"
    using ok' assms(10) bc'(1,2) [of "\<lambda>x. x = d"] by (simp_all add: reg_ok_def servers_ok_def n_regs_def n_eps_def)
  have "ep_keys (eh k' e) \<subseteq> insert ?key {x. \<exists>m ex. reg_book ?k x = Some (u, m, ex)}"
    unfolding bc'(6) [OF assms(11)] book by auto
  moreover have "{x. \<exists>m ex. reg_book ?k x = Some (u, m, ex)} = book_regs (\<lambda>v. v = u) (reg_book ?k)" by (auto simp: book_regs_def)
  then have "finite {x. \<exists>m ex. reg_book ?k x = Some (u, m, ex)}" using bc(3) by simp
  ultimately have "card (ep_keys (eh k' e)) \<le> 256" using card_grows room(3) by (fastforce simp: maxRegsPerEP_def)
  moreover have "sh_regs sh \<le> regCap sh" using room(1) grow(1) unfolding sh by (meson order_trans)
  moreover have "eps ?k u = None \<longrightarrow> sh_eps sh \<le> epCap sh" using room(2) grow(2) unfolding sh by (meson order_trans)
  moreover have "?s = [] \<longrightarrow> d_regs (dh k' i) \<le> serverRegs c" using room(4) grow(1) unfolding srv by (meson order_trans)
  moreover have "?s = [] \<longrightarrow> eps ?k u = None \<longrightarrow> d_eps (dh k' i) \<le> serverEPs c"
    using room(5) grow(2) unfolding srv by (meson order_trans)
  ultimately show ?thesis by blast
qed

lemma example_kept_there:
  "\<exists>sh i e. shares example_kept ''example.org'' = Some sh \<and> domains example_kept ''example.org'' = Some i \<and>
     eps example_kept ''https://push.example.org/1'' = Some e"
proof -
  let ?u = "''https://push.example.org/1''"
  have inv: "knock_inv {} example_cfg (in_flight (workers example_empty)) (kn example_empty)"
    by (rule kreach_knock [OF example_empty_reach])
  have kept: "knock_inv {} example_cfg (in_flight (workers example_empty)) example_kept" and nm: "named example_cfg example_kept"
    using knock_take_inv [OF inv example_take_run] kreach_named [OF example_empty_reach] by (simp_all add: keeps_names_def)
  then have ok: "links_ok {} example_kept" "servers_ok example_cfg example_kept" "shares_ok example_cfg example_kept"
    by (simp_all add: knock_inv_def reg_ok_def)
  obtain m ex where "reg_book example_kept (knockKey example_lib example_addr) = Some (?u, m, ex)"
    using knock_take_view [OF inv example_take_run]
    by (auto simp: view_def spec_take_def example_reg_def example_cfg_def)
  then obtain r where "regs example_kept (knockKey example_lib example_addr) = Some r" "ep_url (eh example_kept (rep r)) = ?u"
    by (auto simp: reg_book_def)
  then obtain e where e: "eps example_kept ?u = Some e" using ok(1) unfolding links_ok_def live_def by metis
  have "e < en example_kept" "ep_url (eh example_kept e) = ?u" using ok(1) e by (simp_all add: links_ok_def)
  then have "ep_domain (eh example_kept e) = ''example.org''"
    using nm example_domain by (simp add: named_def example_cfg_def)
  then show ?thesis using ok(2,3) e by (fastforce simp: servers_ok_def shares_ok_def share_name_def example_cfg_def)
qed

theorem take_keeps_caps_witness:
  "\<exists>sh i e. shares example_kept ''example.org'' = Some sh \<and> domains example_kept ''example.org'' = Some i \<and>
     eps example_kept ''https://push.example.org/1'' = Some e \<and> sh_regs sh \<le> regCap sh \<and>
     card (ep_keys (eh example_kept e)) \<le> 256"
proof -
  obtain sh i e where k: "shares example_kept ''example.org'' = Some sh" "domains example_kept ''example.org'' = Some i"
    "eps example_kept ''https://push.example.org/1'' = Some e" using example_kept_there by blast
  have "reg_book (kn example_empty) = Map.empty"
    by (rule ext) (simp add: reg_book_def example_empty_def newKnocker_def)
  then show ?thesis
    using take_keeps_caps [OF example_empty_reach example_take_run _ _ _ _ _ refl, of "''https://push.example.org/1''" sh i e] k
    by (simp add: example_reg_def example_domain share_name_def example_cfg_def)
qed

end
