(* ===== verification/Knock_Store.thy ===== *)
theory Knock_Store
  imports Knock_Rules
begin

text \<open>
  The table of the registrations on disk (\<open>relay-live/knock_store.go\<close>): its rows and what each statement does to
  them, the writer of the queued writes and the one of the forgets, and the load after a restart. A transaction
  goes through or leaves the table as it was; whether it does is an argument.
\<close>

section \<open>The table\<close>

record trow =
  tr_ep :: string
  tr_made :: unix
  tr_expires :: unix
  tr_born :: unix
  tr_proven :: bool

type_synonym table = "key \<rightharpoonup> trow"

text \<open>The three statements of \<open>write\<close>.\<close>

definition exec_proven :: "string \<Rightarrow> table \<Rightarrow> table" where
  "exec_proven ep t = (\<lambda>key. map_option (\<lambda>r. if tr_ep r = ep then r\<lparr>tr_proven := True\<rparr> else r) (t key))"

definition exec_put :: "knockOp \<Rightarrow> table \<Rightarrow> table" where
  "exec_put op t =
     (let new = \<lparr>tr_ep = op_ep op, tr_made = op_made op, tr_expires = op_expires op, tr_born = op_born op, tr_proven = op_delivered op\<rparr>
      in case t (op_key op) of
           None \<Rightarrow> t(op_key op \<mapsto> new)
         | Some r \<Rightarrow>
             if op_made op > tr_made r
             then t(op_key op \<mapsto> new\<lparr>tr_proven := (if tr_ep r = op_ep op then tr_proven r \<or> op_delivered op else op_delivered op)\<rparr>)
             else t)"

definition exec_op :: "knockOp \<Rightarrow> table \<Rightarrow> table" where
  "exec_op op t =
     (if op_proven op then exec_proven (op_ep op) t
      else if op_made op = 0 then t(op_key op := None)
      else exec_put op t)"

definition write_batch :: "bool \<Rightarrow> knockOp list \<Rightarrow> table \<Rightarrow> table" where
  "write_batch ok batch t = (if ok then foldl (\<lambda>t op. exec_op op t) t batch else t)"

text \<open>One turn of the writer: what waits, at most 512, in one transaction.\<close>

definition writer_turn :: "bool \<Rightarrow> knockOp list \<Rightarrow> table \<Rightarrow> knockOp list \<times> table" where
  "writer_turn ok ch t = (drop 512 ch, write_batch ok (take 512 ch) t)"

section \<open>The forgets\<close>

record forgetReq =
  fr_key :: key
  fr_made :: unix
  fr_expires :: unix

definition knockForgetWaiters :: nat where "knockForgetWaiters = 1000"

definition exec_forget :: "forgetReq \<Rightarrow> table \<Rightarrow> table" where
  "exec_forget f t =
     (case t (fr_key f) of
        None \<Rightarrow> t(fr_key f \<mapsto> \<lparr>tr_ep = [], tr_made = fr_made f, tr_expires = fr_expires f, tr_born = 0, tr_proven = False\<rparr>)
      | Some r \<Rightarrow> if fr_made f \<ge> tr_made r
                  then t(fr_key f \<mapsto> r\<lparr>tr_ep := [], tr_made := fr_made f, tr_expires := fr_expires f\<rparr>) else t)"

definition writeForgets :: "bool \<Rightarrow> forgetReq list \<Rightarrow> table \<Rightarrow> bool \<times> table" where
  "writeForgets ok batch t = (if ok then (True, foldl (\<lambda>t f. exec_forget f t) t batch) else (False, t))"

text \<open>One turn of \<open>forgetWriter\<close>: the requests that wait in one transaction, each answered with how it went.\<close>

definition forget_turn :: "bool \<Rightarrow> forgetReq list \<Rightarrow> table \<Rightarrow> (forgetReq \<times> bool) list \<times> forgetReq list \<times> table" where
  "forget_turn ok fch t =
     (let batch = take knockForgetWaiters fch; (done, t) = writeForgets ok batch t
      in (map (\<lambda>f. (f, done)) batch, drop knockForgetWaiters fch, t))"

text \<open>What a caller of \<open>writeForget\<close> sees after it has asked.\<close>

datatype forget_wait = Answered bool | Stopping | Late

definition writeForget_answer :: "nat \<Rightarrow> forget_wait \<Rightarrow> string" where
  "writeForget_answer others w =
     (if others + 1 > knockForgetWaiters then ''rate-limited: too many forgets at once, try later''
      else case w of
        Answered True \<Rightarrow> []
      | Answered False \<Rightarrow> ''error: the relay could not keep this, try again''
      | Stopping \<Rightarrow> ''error: the relay could not keep this, try again''
      | Late \<Rightarrow> ''error: the relay could not keep this, try again'')"

section \<open>The newer wins\<close>

text \<open>A registration or a forget for one address, as it reaches the table.\<close>

datatype row_write = PutW knockOp | ForgetW forgetReq

primrec exec_write :: "table \<Rightarrow> row_write \<Rightarrow> table" where
  "exec_write t (PutW op) = exec_put op t"
| "exec_write t (ForgetW f) = exec_forget f t"

primrec write_key :: "row_write \<Rightarrow> key" where
  "write_key (PutW op) = op_key op"
| "write_key (ForgetW f) = fr_key f"

text \<open>What counts when two are compared: the time, and at the same second a forget over a registration.\<close>

primrec write_rank :: "row_write \<Rightarrow> int" where
  "write_rank (PutW op) = 2 * op_made op"
| "write_rank (ForgetW f) = 2 * fr_made f + 1"

primrec write_row :: "row_write \<Rightarrow> string \<times> unix \<times> unix" where
  "write_row (PutW op) = (op_ep op, op_made op, op_expires op)"
| "write_row (ForgetW f) = ([], fr_made f, fr_expires f)"

definition row_of :: "trow \<Rightarrow> string \<times> unix \<times> unix" where
  "row_of r = (tr_ep r, tr_made r, tr_expires r)"

primrec real_write :: "row_write \<Rightarrow> bool" where
  "real_write (PutW op) \<longleftrightarrow> op_ep op \<noteq> []"
| "real_write (ForgetW f) \<longleftrightarrow> True"

lemma exec_write_other: "write_key w \<noteq> key \<Longrightarrow> exec_write t w key = t key"
  by (cases w) (auto simp: exec_put_def exec_forget_def Let_def split: option.split)

text \<open>One write against the row that is there, which came from a write itself.\<close>

lemma exec_write_row:
  assumes "write_key w = key" and "real_write w"
  shows "t key = None \<Longrightarrow> \<exists>r. exec_write t w key = Some r \<and> row_of r = write_row w"
    and "t key = Some r \<Longrightarrow> row_of r = write_row v \<Longrightarrow> real_write v \<Longrightarrow>
      \<exists>r'. exec_write t w key = Some r' \<and>
        (write_rank v \<le> write_rank w \<and> row_of r' = write_row w \<or> write_rank w \<le> write_rank v \<and> row_of r' = write_row v)"
  using assms by (cases w; cases v; force simp: exec_put_def exec_forget_def row_of_def Let_def)+

lemma writes_max:
  assumes "ws \<noteq> []" and "\<And>w. w \<in> set ws \<Longrightarrow> write_key w = key \<and> real_write w" and "t key = None"
  shows "\<exists>r w. foldl exec_write t ws key = Some r \<and> w \<in> set ws \<and> row_of r = write_row w \<and> (\<forall>v \<in> set ws. write_rank v \<le> write_rank w)"
  using assms(1,2)
proof (induction ws rule: rev_induct)
  case (snoc x xs)
  have x: "write_key x = key" "real_write x" using snoc.prems by simp_all
  show ?case
  proof (cases "xs = []")
    case True
    then show ?thesis using exec_write_row(1) [OF x, of t] assms(3) by auto
  next
    case False
    then obtain r w where w: "foldl exec_write t xs key = Some r" "w \<in> set xs" "row_of r = write_row w"
      "\<forall>v \<in> set xs. write_rank v \<le> write_rank w" using snoc by auto
    have "real_write w" using w(2) snoc.prems by simp
    with exec_write_row(2) [OF x, of "foldl exec_write t xs" r w] w(1,3)
    obtain r' where r': "foldl exec_write t (xs @ [x]) key = Some r'"
      "write_rank w \<le> write_rank x \<and> row_of r' = write_row x \<or> write_rank x \<le> write_rank w \<and> row_of r' = write_row w" by auto
    from r'(2) show ?thesis
    proof
      assume a: "write_rank w \<le> write_rank x \<and> row_of r' = write_row x"
      then have "\<forall>v \<in> set (xs @ [x]). write_rank v \<le> write_rank x" using w(4) order_trans by fastforce
      then show ?thesis using a r'(1) by (intro exI [of _ r'] exI [of _ x]) simp
    next
      assume a: "write_rank x \<le> write_rank w \<and> row_of r' = write_row w"
      then show ?thesis using r'(1) w(2,4) by (intro exI [of _ r'] exI [of _ w]) simp
    qed
  qed
qed simp

text \<open>C23. Of the registrations and forgets of one address the newest stays in the table, a forget over a registration of
  the same second, whatever order the two connections write them in.\<close>

theorem table_keeps_newest:
  assumes "ws \<noteq> []" and "\<And>w. w \<in> set ws \<Longrightarrow> write_key w = key \<and> real_write w" and "t key = None"
  shows "\<exists>r w. foldl exec_write t ws key = Some r \<and> w \<in> set ws \<and> row_of r = write_row w \<and>
    write_rank w = Max (write_rank ` set ws)"
proof -
  obtain r w where w: "foldl exec_write t ws key = Some r" "w \<in> set ws" "row_of r = write_row w"
    "\<forall>v \<in> set ws. write_rank v \<le> write_rank w" using writes_max [where t = t and key = key, OF assms] by blast
  then have "Max (write_rank ` set ws) = write_rank w" by (intro Max_eqI) auto
  then show ?thesis using w by metis
qed

definition put_at :: "unix \<Rightarrow> knockOp" where
  "put_at m = \<lparr>op_key = ''k'', op_ep = ''https://push.example.org/1'', op_made = m, op_expires = m + 2592000, op_born = m,
     op_proven = False, op_delivered = False\<rparr>"

definition forget_at :: "unix \<Rightarrow> forgetReq" where
  "forget_at m = \<lparr>fr_key = ''k'', fr_made = m, fr_expires = m + 7200\<rparr>"

definition delete_key :: knockOp where
  "delete_key = \<lparr>op_key = ''k'', op_ep = [], op_made = 0, op_expires = 0, op_born = 0, op_proven = False, op_delivered = False\<rparr>"

theorem table_keeps_newest_witness:
  "\<exists>r. foldl exec_write Map.empty [ForgetW (forget_at 5), PutW (put_at 3), PutW (put_at 5)] ''k'' = Some r \<and> tr_ep r = [] \<and> tr_made r = 5"
proof -
  let ?ws = "[ForgetW (forget_at 5), PutW (put_at 3), PutW (put_at 5)]"
  have h: "write_key w = ''k'' \<and> real_write w" if "w \<in> set ?ws" for w using that by (auto simp: put_at_def forget_at_def)
  obtain r w where r: "foldl exec_write Map.empty ?ws ''k'' = Some r" "w \<in> set ?ws" "row_of r = write_row w"
    "write_rank w = Max (write_rank ` set ?ws)"
    using table_keeps_newest [of ?ws "''k''" Map.empty] h by blast
  then have "w = ForgetW (forget_at 5)" by (auto simp: put_at_def forget_at_def)
  then have "tr_ep r = [] \<and> tr_made r = 5" using r(3) by (simp add: row_of_def forget_at_def)
  then show ?thesis using r(1) by blast
qed



section \<open>The load after a restart\<close>

text \<open>The rows of a table, in the order the query gives them.\<close>

definition table_rows :: "table \<Rightarrow> knock_row list \<Rightarrow> bool" where
  "table_rows t rows \<longleftrightarrow> distinct (map row_addr rows) \<and>
     (\<forall>key. t key = map_of (map (\<lambda>r. (row_addr r, \<lparr>tr_ep = row_ep r, tr_made = row_made r, tr_expires = row_expires r, tr_born = row_born r,
        tr_proven = row_proven r\<rparr>)) rows) key)"

text \<open>What a row makes of the map of registrations and forgets.\<close>

definition load_spec :: "knock_cfg \<Rightarrow> reg_view \<Rightarrow> knock_row \<Rightarrow> reg_view" where
  "load_spec c = (\<lambda>(book, fg) row.
     if length (row_addr row) \<noteq> 32 then (book, fg)
     else if row_ep row = [] then (book, fg(row_addr row \<mapsto> row_made row))
     else if \<not> endpointOK (lib c) (onions c) (ports c) (row_ep row) then (book, fg)
     else (book(row_addr row \<mapsto> (row_ep row, row_made row, row_expires row)), fg))"

lemma view_decoyLocked [simp]: "view (decoyLocked c now R e k) = view k"
  by (simp add: decoyLocked_def decoyAfterLocked_def after_def view_def) (auto simp: reg_book_def fun_eq_iff intro!: option.map_cong)

lemma view_settled [simp]: "view (settledLocked c now e k) = view k"
  unfolding view_def by (intro prod_eqI) (auto intro!: reg_book_cong simp: settled_eh_other)

lemma view_first: "regs k key = Some r \<Longrightarrow> view (k\<lparr>regs := (regs k)(key \<mapsto> r\<lparr>rfirst := n\<rparr>)\<rparr>) = view k"
  by (auto simp: view_def reg_book_def fun_eq_iff)

lemma load_row_view:
  assumes "knock_inv X c fl k"
  shows "view (load_row c now Rs k (n, row)) = load_spec c (view k) row"
proof -
  let ?k = "setLocked c now (Rs n) (row_addr row) (row_ep row) (row_made row) (row_expires row) k"
  obtain r where r: "regs ?k (row_addr row) = Some r" using setLocked_inv [OF assms] by blast
  have v: "view (?k\<lparr>regs := (regs ?k)(row_addr row \<mapsto> (the (regs ?k (row_addr row)))\<lparr>rfirst := 0\<rparr>)\<rparr>) = view ?k"
    using view_first [OF r] r by simp
  have "view ?k = ((reg_book k)(row_addr row \<mapsto> (row_ep row, row_made row, row_expires row)), forgets k)"
    by (rule setLocked_view [OF assms])
  then show ?thesis using v
    by (simp add: load_row_def load_spec_def Let_def view_ep) (simp add: view_def)
qed

lemma load_view:
  assumes "knock_inv X c fl k"
  shows "view (knock_load c now Rs rows k) = foldl (load_spec c) (view k) (filter (\<lambda>r. row_expires r > to_unix now) rows)"
proof -
  have "knock_inv X c fl k \<Longrightarrow> view (foldl (load_row c now Rs) k (List.enumerate n xs)) = foldl (load_spec c) (view k) xs" for n xs
  proof (induction xs arbitrary: k n)
    case (Cons x xs)
    have "knock_inv X c fl (load_row c now Rs k (n, x))" by (rule load_row_inv [OF Cons.prems])
    then show ?case using Cons.IH [of _ "Suc n"] load_row_view [OF Cons.prems, of now Rs n x] by simp
  qed simp
  then show ?thesis using assms by (simp add: knock_load_def)
qed

lemma load_spec_other:
  "row_addr row \<noteq> key \<Longrightarrow> fst (load_spec c v row) key = fst v key \<and> snd (load_spec c v row) key = snd v key"
  by (auto simp: load_spec_def split: prod.split)

lemma load_specs_other:
  "key \<notin> row_addr ` set rows \<Longrightarrow>
     fst (foldl (load_spec c) v rows) key = fst v key \<and> snd (foldl (load_spec c) v rows) key = snd v key"
  by (induction rows arbitrary: v) (auto simp: load_spec_other)

lemma load_specs_row:
  assumes "row \<in> set rows" and "distinct (map row_addr rows)"
  shows "fst (foldl (load_spec c) v rows) (row_addr row) = fst (load_spec c v row) (row_addr row) \<and>
    snd (foldl (load_spec c) v rows) (row_addr row) = snd (load_spec c v row) (row_addr row)"
proof -
  obtain xs ys where rows: "rows = xs @ row # ys" using assms(1) by (meson split_list)
  have no: "row_addr row \<notin> row_addr ` set xs" "row_addr row \<notin> row_addr ` set ys" using assms(2) by (auto simp: rows)
  let ?v = "foldl (load_spec c) v xs"
  have "fst (load_spec c ?v row) (row_addr row) = fst (load_spec c v row) (row_addr row) \<and>
    snd (load_spec c ?v row) (row_addr row) = snd (load_spec c v row) (row_addr row)"
    using load_specs_other [OF no(1), of c v] by (auto simp: load_spec_def split: prod.split)
  then show ?thesis using load_specs_other [OF no(2), of c "load_spec c ?v row"] by (simp add: rows)
qed

text \<open>What a start reads for one address.\<close>

lemma load_of_table:
  fixes c :: knock_cfg and Rs :: "nat \<Rightarrow> rnd"
  assumes "table_rows t rows" and "t key = Some r" and "to_unix now < tr_expires r" and "length key = 32"
  defines "k \<equiv> knock_load c now Rs rows (newKnocker c now)"
  shows "tr_ep r = [] \<Longrightarrow> reg_book k key = None \<and> forgets k key = Some (tr_made r)"
    and "tr_ep r \<noteq> [] \<Longrightarrow> endpointOK (lib c) (onions c) (ports c) (tr_ep r) \<Longrightarrow>
      reg_book k key = Some (tr_ep r, tr_made r, tr_expires r)"
proof -
  let ?rows = "filter (\<lambda>r. row_expires r > to_unix now) rows" and ?v = "(Map.empty, Map.empty) :: reg_view"
  let ?tr = "\<lambda>r. \<lparr>tr_ep = row_ep r, tr_made = row_made r, tr_expires = row_expires r, tr_born = row_born r, tr_proven = row_proven r\<rparr>"
  have "map_of (map (\<lambda>r. (row_addr r, ?tr r)) rows) key = Some r" using assms(1,2) unfolding table_rows_def by metis
  then obtain row where row: "row \<in> set rows" "row_addr row = key" "r = ?tr row" by (auto dest!: map_of_SomeD)
  have "row \<in> set ?rows" "distinct (map row_addr ?rows)"
    using row assms(1,3) by (auto simp: table_rows_def distinct_map_filter)
  note at = load_specs_row [OF this, of c ?v]
  have "view (newKnocker c now) = ?v" by (simp add: view_def newKnocker_def reg_book_def fun_eq_iff)
  then have v: "(reg_book k, forgets k) = foldl (load_spec c) ?v ?rows"
    unfolding k_def using load_view [OF newKnocker_inv] by (metis view_def)
  show "tr_ep r = [] \<Longrightarrow> reg_book k key = None \<and> forgets k key = Some (tr_made r)"
    using at row assms(4) v [symmetric] by (simp add: load_spec_def)
  show "tr_ep r \<noteq> [] \<Longrightarrow> endpointOK (lib c) (onions c) (ports c) (tr_ep r) \<Longrightarrow>
      reg_book k key = Some (tr_ep r, tr_made r, tr_expires r)"
    using at row assms(4) v [symmetric] by (simp add: load_spec_def)
qed

section \<open>From the answer to the next start\<close>

text \<open>The write a registration that is taken leaves for the table.\<close>

definition reg_op :: "key \<Rightarrow> nevent \<Rightarrow> unix \<Rightarrow> bool \<Rightarrow> knockOp" where
  "reg_op key ev b del = \<lparr>op_key = key, op_ep = evContent ev, op_made = createdAt ev, op_expires = createdAt ev + 30 * 24 * 3600,
     op_born = b, op_proven = False, op_delivered = del\<rparr>"

definition queues_write :: "key \<Rightarrow> nevent \<Rightarrow> knocker \<Rightarrow> knocker \<Rightarrow> bool" where
  "queues_write key ev k k' \<longleftrightarrow>
     (length (store_ch k) < store_cap \<longrightarrow> (\<exists>b del. store_ch k' = store_ch k @ [reg_op key ev b del]))"

lemma take_keep_queues:
  assumes inv: "knock_inv X c fl k" and "store_ch k = store_ch k0"
  shows "queues_write (knockKey (lib c) (pubKey ev)) ev k0 (take_keep c now R ev unchecked k)"
proof -
  let ?key = "knockKey (lib c) (pubKey ev)" and ?ex = "to_unix (of_unix (createdAt ev) + knockTTL)"
  let ?k1 = "setLocked c now R ?key (evContent ev) (createdAt ev) ?ex (k\<lparr>forgets := (forgets k)(?key := None)\<rparr>)"
  have "knock_inv X c fl (k\<lparr>forgets := (forgets k)(?key := None)\<rparr>)" using inv by simp
  from setLocked_inv [OF this, of now R ?key "evContent ev" "createdAt ev" ?ex]
  have ch: "store_ch ?k1 = store_ch k0" and bk: "reg_book ?k1 ?key = Some (evContent ev, createdAt ev, ?ex)"
    using assms(2) by simp_all
  then have "expires (the (regs ?k1 ?key)) = ?ex" by (auto simp: reg_book_def)
  then show ?thesis using ch unfolding queues_write_def take_keep_def Let_def case_prod_beta
    by (auto simp: store_put_def reg_op_def ttl_unix)
qed

lemma take_begin_queues:
  assumes inv: "knock_inv X c fl k" and out: "take_begin c now R newReg ev k l = (st, k', l')"
  shows "st = TakeAnswer Taken \<Longrightarrow> queues_write (knockKey (lib c) (pubKey ev)) ev k k'"
    and "st \<noteq> TakeAnswer Taken \<Longrightarrow> store_ch k' = store_ch k"
proof -
  obtain a k1 where a: "checkLocked c now ev k = (a, k1)" by (cases "checkLocked c now ev k")
  let ?k2 = "shareOf c now (knockDomainOf (lib c) (host_of (lib c) (evContent ev))) k1"
  have ch: "store_ch (snd (checkLocked c now ev k)) = store_ch k"
    by (auto simp: checkLocked_def Let_def split: option.split)
  have k1: "knock_inv X c fl k1" "store_ch k1 = store_ch k"
    using checkLocked_inv(1) [OF inv, of now ev] ch a by simp_all
  then have k2: "knock_inv X c fl ?k2" by (simp add: shareOf_inv)
  note keep = take_keep_queues [OF k2, of k] take_keep_queues [of X c fl "upd_share n (\<lambda>s. s\<lparr>fresh := b\<rparr>) ?k2" k for n b]
  show "st = TakeAnswer Taken \<Longrightarrow> queues_write (knockKey (lib c) (pubKey ev)) ev k k'"
    using out a k1 k2 unfolding take_begin_def Let_def
    by (auto simp: case_prod_beta keep split: answer.splits if_splits)
  show "st \<noteq> TakeAnswer Taken \<Longrightarrow> store_ch k' = store_ch k"
    using out a k1 unfolding take_begin_def Let_def
    by (auto simp: case_prod_beta split: answer.splits if_splits)
qed

lemma knock_take_queues:
  assumes inv: "knock_inv X c fl k" and out: "knock_take c now R newReg look written ev k l = (Taken, k', l')" and ne: "evContent ev \<noteq> []"
  shows "queues_write (knockKey (lib c) (pubKey ev)) ev k k'"
proof -
  obtain st k1 l1 where b: "take_begin c now R newReg ev k l = (st, k1, l1)" by (cases "take_begin c now R newReg ev k l")
  have k1: "knock_inv X c fl k1" by (rule take_begin_inv(1) [OF inv b])
  show ?thesis
  proof (cases st)
    case (TakeAnswer x)
    then show ?thesis using out b ne take_begin_queues(1) [OF inv b] by (simp add: knock_take_def)
  next
    case (TakeLookup host took)
    have same: "store_ch k1 = store_ch k" using take_begin_queues(2) [OF inv b] TakeLookup by simp
    have ch: "store_ch (snd (checkLocked c now ev k1)) = store_ch k1"
      by (auto simp: checkLocked_def Let_def split: option.split)
    obtain d y where d: "take_resume c now R ev took (look host) k1 = (d, y)" by (cases "take_resume c now R ev took (look host) k1")
    then have "y = k'" "d = Taken" using out b ne TakeLookup by (simp_all add: knock_take_def)
    then show ?thesis using d same ch k1 take_keep_queues [OF k1] take_keep_queues [OF checkLocked_inv(1) [OF k1, of now ev]]
      unfolding take_resume_def Let_def by (auto simp: case_prod_beta split: answer.splits if_splits)
  qed
qed

text \<open>C24. A registration that is answered as taken and written is there after a restart, for the whole of its month: its
  write is queued while there is room, the table takes it over anything older, and a start reads it back.\<close>

theorem registration_survives_restart:
  assumes "kreach c now s" and "knock_take c now' R newReg look ans ev (kn s) l = (Taken, k', l')" and "evContent ev \<noteq> []"
    and "key = knockKey (lib c) (pubKey ev)" and "length key = 32" and "createdAt ev \<noteq> 0"
    and "length (store_ch (kn s)) < store_cap"
    and "\<And>r. write_batch True (store_ch (kn s)) t key = Some r \<Longrightarrow> tr_made r < createdAt ev"
    and "table_rows (write_batch True (store_ch k') t) rows" and "to_unix later < createdAt ev + 30 * 24 * 3600"
  shows "reg_book (knock_load c later Rs rows (newKnocker c later)) key = Some (evContent ev, createdAt ev, createdAt ev + 30 * 24 * 3600)"
proof -
  let ?t = "write_batch True (store_ch (kn s)) t" and ?t' = "write_batch True (store_ch k') t"
  obtain k1 where check: "checkLocked c now' ev (kn s) = (Taken, k1)" using knock_take_checked [OF assms(2)] by blast
  have ok: "endpointOK (lib c) (onions c) (ports c) (evContent ev)"
    using check assms(3) by (auto simp: checkLocked_def Let_def split: if_splits)
  obtain b del where ch: "store_ch k' = store_ch (kn s) @ [reg_op key ev b del]"
    using knock_take_queues [OF kreach_knock [OF assms(1)] assms(2,3)] assms(4,7) by (auto simp: queues_write_def)
  have "?t' = exec_put (reg_op key ev b del) ?t" using assms(6) by (simp add: ch write_batch_def exec_op_def reg_op_def)
  then obtain r where r: "?t' key = Some r" "row_of r = (evContent ev, createdAt ev, createdAt ev + 30 * 24 * 3600)"
    using assms(8) by (cases "?t key") (auto simp: exec_put_def reg_op_def row_of_def Let_def)
  show ?thesis using load_of_table(2) [OF assms(9) r(1) _ assms(5), of later c Rs] r(2) assms(3,10) ok by (simp add: row_of_def)
qed

theorem registration_survives_restart_witness:
  "\<exists>rows. table_rows (write_batch True (store_ch example_kept) Map.empty) rows \<and>
     reg_book (knock_load example_cfg (of_unix 3000) (\<lambda>_. example_rnd) rows (newKnocker example_cfg (of_unix 3000)))
       (knockKey example_lib example_addr) = Some (''https://push.example.org/1'', 2000, 2594000)"
proof -
  let ?key = "knockKey example_lib example_addr"
  have lib: "lib example_cfg = example_lib" "pubKey example_reg = example_addr" by (simp_all add: example_cfg_def example_reg_def)
  have ev: "evContent example_reg = ''https://push.example.org/1''" "createdAt example_reg = 2000" by (simp_all add: example_reg_def)
  have none: "store_ch (kn example_empty) = []" by (simp add: example_empty_def newKnocker_def)
  obtain b del where ch: "store_ch example_kept = [reg_op ?key example_reg b del]"
    using knock_take_queues [OF kreach_knock [OF example_empty_reach] example_take_run] none
    by (auto simp: queues_write_def store_cap_def lib ev)
  let ?row = "\<lparr>row_addr = ?key, row_ep = ''https://push.example.org/1'', row_made = 2000, row_expires = 2594000, row_born = b, row_proven = del\<rparr>"
  have rows: "table_rows (write_batch True (store_ch example_kept) Map.empty) [?row]"
    by (simp add: table_rows_def ch write_batch_def exec_op_def exec_put_def reg_op_def ev)
  have "reg_book (knock_load example_cfg (of_unix 3000) (\<lambda>_. example_rnd) [?row] (newKnocker example_cfg (of_unix 3000))) ?key =
      Some (evContent example_reg, createdAt example_reg, createdAt example_reg + 30 * 24 * 3600)"
    by (rule registration_survives_restart [OF example_empty_reach example_take_run _ _ example_key _ _ _ rows])
      (simp_all add: lib ev none store_cap_def write_batch_def)
  then show ?thesis using rows ev by auto
qed

end
