(* ===== verification/Utf8.thy ===== *)
theory Utf8
  imports Prelude
begin

text \<open>
  The text handling of the Go library that looks at runes and not at bytes: package \<open>unicode/utf8\<close> (a
  \<open>range\<close> over a string, \<open>WriteRune\<close>), the spaces and control characters of package \<open>unicode\<close>, and the
  strings of \<open>encoding/json\<close>. A rune is a natural number.
\<close>

section \<open>Runes\<close>

definition runeError :: nat where "runeError = 0xFFFD"

definition cont_byte :: "nat \<Rightarrow> bool" where
  "cont_byte b \<longleftrightarrow> 0x80 \<le> b \<and> b \<le> 0xBF"

text \<open>\<open>utf8.DecodeRune\<close>: the first rune and its width; an encoding that is not valid is one byte of error.\<close>

fun decode_rune :: "nat list \<Rightarrow> nat \<times> nat" where
  "decode_rune [] = (runeError, 0)"
| "decode_rune (a # s) =
     (if a < 0x80 then (a, 1)
      else case s of
        b # t \<Rightarrow>
          if 0xC2 \<le> a \<and> a \<le> 0xDF \<and> cont_byte b then ((a - 0xC0) * 64 + (b - 0x80), 2)
          else (case t of
            c # u \<Rightarrow>
              if 0xE0 \<le> a \<and> a \<le> 0xEF \<and> cont_byte b \<and> cont_byte c \<and> (a = 0xE0 \<longrightarrow> 0xA0 \<le> b) \<and> (a = 0xED \<longrightarrow> b \<le> 0x9F)
              then ((a - 0xE0) * 4096 + (b - 0x80) * 64 + (c - 0x80), 3)
              else (case u of
                d # _ \<Rightarrow>
                  if 0xF0 \<le> a \<and> a \<le> 0xF4 \<and> cont_byte b \<and> cont_byte c \<and> cont_byte d \<and> (a = 0xF0 \<longrightarrow> 0x90 \<le> b)
                     \<and> (a = 0xF4 \<longrightarrow> b \<le> 0x8F)
                  then ((a - 0xF0) * 262144 + (b - 0x80) * 4096 + (c - 0x80) * 64 + (d - 0x80), 4)
                  else (runeError, 1)
              | [] \<Rightarrow> (runeError, 1))
          | [] \<Rightarrow> (runeError, 1))
      | [] \<Rightarrow> (runeError, 1))"

lemma decode_rune_width: "s \<noteq> [] \<Longrightarrow> 0 < snd (decode_rune s)"
  by (cases s) (auto split: list.splits)

text \<open>A \<open>range\<close> over a string: its runes, each with the bytes it stands for.\<close>

function rune_parts :: "nat list \<Rightarrow> (nat \<times> nat list) list" where
  "rune_parts s =
     (if s = [] then [] else let (r, w) = decode_rune s in (r, take w s) # rune_parts (drop w s))"
  by auto
termination
proof (relation "measure length")
  fix s :: "nat list" and x r w
  assume "s \<noteq> []" "x = decode_rune s" "(r, w) = x"
  then have "0 < w" using decode_rune_width [of s] by (metis snd_conv)
  then show "(drop w s, s) \<in> measure length" using \<open>s \<noteq> []\<close> by simp
qed simp

declare rune_parts.simps [simp del]

definition bytes_of :: "string \<Rightarrow> nat list" where "bytes_of = map of_char"

definition runes :: "string \<Rightarrow> nat list" where
  "runes s = map fst (rune_parts (bytes_of s))"

text \<open>\<open>utf8.AppendRune\<close>, for the runes a \<open>range\<close> gives.\<close>

definition rune_bytes :: "nat \<Rightarrow> nat list" where
  "rune_bytes r =
     (if r < 0x80 then [r]
      else if r < 0x800 then [0xC0 + r div 64, 0x80 + r mod 64]
      else if r < 0x10000 then [0xE0 + r div 4096, 0x80 + r div 64 mod 64, 0x80 + r mod 64]
      else [0xF0 + r div 262144, 0x80 + r div 4096 mod 64, 0x80 + r div 64 mod 64, 0x80 + r mod 64])"

definition rune_string :: "nat list \<Rightarrow> string" where
  "rune_string rs = map char_of (concat (map rune_bytes rs))"

text \<open>The runes that can be encoded: no surrogates, at most U+10FFFF.\<close>

definition rune_ok :: "nat \<Rightarrow> bool" where
  "rune_ok r \<longleftrightarrow> r < 0x110000 \<and> \<not> (0xD800 \<le> r \<and> r \<le> 0xDFFF)"

text \<open>What is decoded is encoded back to the same bytes, and the other way round.\<close>

lemma decode_rune_bytes:
  assumes "rune_ok r"
  shows "decode_rune (rune_bytes r @ s) = (r, length (rune_bytes r))"
proof -
  define q1 q2 q3 d0 d1 d2 where d: "q1 = r div 64" "q2 = q1 div 64" "q3 = q2 div 64" "d0 = r mod 64" "d1 = q1 mod 64"
    "d2 = q2 mod 64"
  have r: "r = q1 * 64 + d0" "q1 = q2 * 64 + d1" "q2 = q3 * 64 + d2" "d0 < 64" "d1 < 64" "d2 < 64" by (simp_all add: d)
  have dv: "r div 4096 = q2" "r div 262144 = q3" using div_mult2_eq [of r 64 64] div_mult2_eq [of r 64 4096]
      div_mult2_eq [of "r div 64" 64 64] by (simp_all add: d)
  consider (one) "r < 0x80" | (two) "0x80 \<le> r" "r < 0x800" | (three) "0x800 \<le> r" "r < 0x10000"
    | (four) "0x10000 \<le> r" by linarith
  then show ?thesis
  proof cases
    case one
    then show ?thesis by (simp add: rune_bytes_def)
  next
    case two
    then have "2 \<le> q1" "q1 \<le> 31" using r by linarith+
    moreover have "rune_bytes r = [0xC0 + q1, 0x80 + d0]" using two by (simp add: rune_bytes_def d)
    moreover have "q1 * 64 + d0 = r" using r by linarith
    ultimately show ?thesis using r(4) by (simp add: cont_byte_def)
  next
    case three
    then have q: "q2 \<le> 15" "q2 = 0 \<longrightarrow> 32 \<le> d1" using r by linarith+
    have "q2 = 13 \<longrightarrow> d1 \<le> 31" using assms r(1,2,4,5) unfolding rune_ok_def by linarith
    moreover have "rune_bytes r = [0xE0 + q2, 0x80 + d1, 0x80 + d0]" using three by (simp add: rune_bytes_def dv) (simp add: d)
    moreover have "q2 * 4096 + d1 * 64 + d0 = r" using r by linarith
    ultimately show ?thesis using q r(4,5) by (simp add: cont_byte_def)
  next
    case four
    then have "q3 \<le> 4" "q3 = 0 \<longrightarrow> 16 \<le> d2" "q3 = 4 \<longrightarrow> d2 \<le> 15" using r assms unfolding rune_ok_def by linarith+
    moreover have "rune_bytes r = [0xF0 + q3, 0x80 + d2, 0x80 + d1, 0x80 + d0]"
      using four by (simp add: rune_bytes_def dv) (simp add: d)
    moreover have "q3 * 262144 + d2 * 4096 + d1 * 64 + d0 = r" using r by linarith
    ultimately show ?thesis using r(4-6) by (simp add: cont_byte_def)
  qed
qed

lemma rune_bytes_small: "rune_ok r \<Longrightarrow> b \<in> set (rune_bytes r) \<Longrightarrow> b < 256"
  by (auto simp: rune_bytes_def rune_ok_def split: if_splits)

lemma rune_parts_step:
  assumes "rune_ok r"
  shows "rune_parts (rune_bytes r @ s) = (r, rune_bytes r) # rune_parts s"
proof -
  have "rune_bytes r \<noteq> []" by (simp add: rune_bytes_def)
  then show ?thesis by (subst rune_parts.simps) (simp add: decode_rune_bytes [OF assms])
qed

lemma rune_parts_all:
  "list_all rune_ok rs \<Longrightarrow> rune_parts (concat (map rune_bytes rs)) = map (\<lambda>r. (r, rune_bytes r)) rs"
  by (induction rs) (simp_all add: rune_parts_step rune_parts.simps [of "[]"])

lemma runes_rune_string:
  assumes "list_all rune_ok rs"
  shows "runes (rune_string rs) = rs"
proof -
  have "\<And>b. b \<in> set (concat (map rune_bytes rs)) \<Longrightarrow> b < 256" using assms rune_bytes_small by (auto simp: list_all_iff)
  then have "bytes_of (rune_string rs) = concat (map rune_bytes rs)"
    unfolding bytes_of_def rune_string_def map_map by (intro map_idI) (simp add: of_char_char_of)
  then show ?thesis using rune_parts_all [OF assms] by (simp add: runes_def comp_def)
qed

text \<open>Every rune of a \<open>range\<close> can be encoded.\<close>

lemma rune_ok_error: "rune_ok runeError"
  by (simp add: rune_ok_def runeError_def)

lemma rune_ok_two: "x \<le> 31 \<Longrightarrow> y \<le> 63 \<Longrightarrow> rune_ok (x * 64 + y)"
  by (simp add: rune_ok_def)

lemma rune_ok_three:
  assumes "x \<le> 15" and "y \<le> 63" and "z \<le> 63" and "x = 13 \<longrightarrow> y \<le> 31"
  shows "rune_ok (x * 4096 + y * 64 + z)"
proof -
  consider "x \<le> 12" | "x = 13" | "14 \<le> x" by linarith
  then show ?thesis using assms by cases (simp_all add: rune_ok_def)
qed

lemma rune_ok_four:
  assumes "x \<le> 4" and "y \<le> 63" and "z \<le> 63" and "v \<le> 63" and "x = 0 \<longrightarrow> 16 \<le> y" and "x = 4 \<longrightarrow> y \<le> 15"
  shows "rune_ok (x * 262144 + y * 4096 + z * 64 + v)"
proof -
  consider "x = 0" | "1 \<le> x" "x \<le> 3" | "x = 4" using assms(1) by linarith
  then show ?thesis using assms by cases (simp_all add: rune_ok_def)
qed

lemma decode_rune_ok: "rune_ok (fst (decode_rune s))"
proof (cases s)
  case (Cons a t)
  consider "a < 0x80" | "0x80 \<le> a" "t = []" | b u where "0x80 \<le> a" "t = b # u" by (cases t; cases "a < 0x80") auto
  then show ?thesis
  proof cases
    case 3
    show ?thesis
    proof (cases "0xC2 \<le> a \<and> a \<le> 0xDF \<and> cont_byte b")
      case True
      then have "rune_ok ((a - 0xC0) * 64 + (b - 0x80))" by (intro rune_ok_two) (auto simp: cont_byte_def)
      then show ?thesis using 3 Cons True by simp
    next
      case False
      show ?thesis
      proof (cases u)
        case u: (Cons c v)
        show ?thesis
        proof (cases "0xE0 \<le> a \<and> a \<le> 0xEF \<and> cont_byte b \<and> cont_byte c \<and> (a = 0xE0 \<longrightarrow> 0xA0 \<le> b) \<and> (a = 0xED \<longrightarrow> b \<le> 0x9F)")
          case True
          then have "rune_ok ((a - 0xE0) * 4096 + (b - 0x80) * 64 + (c - 0x80))"
            by (intro rune_ok_three) (auto simp: cont_byte_def)
          then show ?thesis using 3 Cons u True False by simp
        next
          case no: False
          have "rune_ok ((a - 0xF0) * 262144 + (b - 0x80) * 4096 + (c - 0x80) * 64 + (d - 0x80))"
            if "0xF0 \<le> a \<and> a \<le> 0xF4 \<and> cont_byte b \<and> cont_byte c \<and> cont_byte d \<and> (a = 0xF0 \<longrightarrow> 0x90 \<le> b)
                     \<and> (a = 0xF4 \<longrightarrow> b \<le> 0x8F)" for d
            using that by (intro rune_ok_four) (auto simp: cont_byte_def)
          then show ?thesis using 3 Cons u no False rune_ok_error by (auto split: list.splits)
        qed
      qed (use 3 Cons False rune_ok_error in auto)
    qed
  qed (use Cons rune_ok_error in \<open>simp_all add: rune_ok_def\<close>)
qed (simp add: rune_ok_error)

lemma rune_parts_ok: "list_all rune_ok (map fst (rune_parts s))"
proof (induction s rule: rune_parts.induct)
  case (1 s)
  then show ?case using decode_rune_ok [of s]
    by (cases "decode_rune s"; subst rune_parts.simps) auto
qed

lemma runes_ok: "list_all rune_ok (runes s)"
  unfolding runes_def by (rule rune_parts_ok)

section \<open>Spaces and control characters\<close>

text \<open>\<open>unicode.IsSpace\<close> and \<open>unicode.IsControl\<close>.\<close>

definition IsSpace :: "nat \<Rightarrow> bool" where
  "IsSpace r \<longleftrightarrow> 9 \<le> r \<and> r \<le> 13 \<or> r = 0x20 \<or> r = 0x85 \<or> r = 0xA0 \<or> r = 0x1680 \<or> 0x2000 \<le> r \<and> r \<le> 0x200A
     \<or> r = 0x2028 \<or> r = 0x2029 \<or> r = 0x202F \<or> r = 0x205F \<or> r = 0x3000"

definition IsControl :: "nat \<Rightarrow> bool" where
  "IsControl r \<longleftrightarrow> r < 0x20 \<or> 0x7F \<le> r \<and> r < 0xA0"

section \<open>Trimming and fields\<close>

text \<open>\<open>strings.TrimSpace\<close> and \<open>strings.Fields\<close> on any text.\<close>

definition trim_parts :: "(nat \<times> nat list) list \<Rightarrow> (nat \<times> nat list) list" where
  "trim_parts ps = rev (dropWhile (\<lambda>p. IsSpace (fst p)) (rev (dropWhile (\<lambda>p. IsSpace (fst p)) ps)))"

definition parts_string :: "(nat \<times> nat list) list \<Rightarrow> string" where
  "parts_string ps = map char_of (concat (map snd ps))"

definition TrimSpaceU :: "string \<Rightarrow> string" where
  "TrimSpaceU s = parts_string (trim_parts (rune_parts (bytes_of s)))"

fun fields_of :: "(nat \<times> nat list) list \<Rightarrow> (nat \<times> nat list) list \<Rightarrow> (nat \<times> nat list) list list" where
  "fields_of cur [] = (if cur = [] then [] else [cur])"
| "fields_of cur (p # ps) =
     (if IsSpace (fst p) then (if cur = [] then fields_of [] ps else cur # fields_of [] ps) else fields_of (cur @ [p]) ps)"

definition FieldsU :: "string \<Rightarrow> string list" where
  "FieldsU s = map parts_string (fields_of [] (rune_parts (bytes_of s)))"

lemma rune_parts_ascii: "list_all (\<lambda>b. b < 0x80) bs \<Longrightarrow> rune_parts bs = map (\<lambda>b. (b, [b])) bs"
  by (induction bs) (simp_all add: rune_parts.simps [of "[]"] rune_parts.simps [of "_ # _"])

text \<open>On plain text the fields are what stands between the spaces.\<close>

fun fields_char :: "string \<Rightarrow> string \<Rightarrow> string list" where
  "fields_char cur [] = (if cur = [] then [] else [cur])"
| "fields_char cur (c # s) =
     (if IsSpace (of_char c) then (if cur = [] then fields_char [] s else cur # fields_char [] s) else fields_char (cur @ [c]) s)"

definition ascii :: "string \<Rightarrow> bool" where
  "ascii s \<longleftrightarrow> list_all (\<lambda>c. of_char c < (0x80 :: nat)) s"

lemma parts_string_bytes: "parts_string (map (\<lambda>b. (b, [b])) (map of_char s)) = s"
  by (induction s) (simp_all add: parts_string_def)

lemma fields_of_ascii:
  "map parts_string (fields_of (map (\<lambda>b. (b, [b])) (map of_char cur)) (map (\<lambda>b. (b, [b])) (map of_char s))) = fields_char cur s"
proof (induction s arbitrary: cur)
  case Nil
  then show ?case using parts_string_bytes [of cur] by simp
next
  case (Cons c s)
  have "map (\<lambda>b. (b, [b])) (map of_char cur) @ [(of_char c, [of_char c])] = map (\<lambda>b. (b, [b])) (map of_char (cur @ [c]))" by simp
  then show ?case using Cons.IH [of "[]"] Cons.IH [of "cur @ [c]"] parts_string_bytes [of cur] by (simp del: map_map)
qed

lemma FieldsU_ascii: "ascii s \<Longrightarrow> FieldsU s = fields_char [] s"
  using fields_of_ascii [of "[]" s] rune_parts_ascii [of "map of_char s"]
  by (simp add: FieldsU_def bytes_of_def ascii_def list_all_iff)

text \<open>A word has no space in it.\<close>

definition word_text :: "string \<Rightarrow> bool" where
  "word_text w \<longleftrightarrow> w \<noteq> [] \<and> list_all (\<lambda>c. \<not> IsSpace (of_char c)) w"

lemma fields_char_word: "list_all (\<lambda>c. \<not> IsSpace (of_char c)) w \<Longrightarrow> fields_char cur (w @ s) = fields_char (cur @ w) s"
  by (induction w arbitrary: cur) auto

lemma fields_char_sep: "word_text w \<Longrightarrow> fields_char [] (w @ CHR '' '' # s) = w # fields_char [] s"
  by (simp add: word_text_def fields_char_word IsSpace_def)

lemma fields_char_last: "word_text w \<Longrightarrow> fields_char [] w = [w]"
  using fields_char_word [of w "[]" "[]"] by (simp add: word_text_def)

lemma fields_char_words:
  "list_all (\<lambda>c. \<not> IsSpace (of_char c)) cur \<Longrightarrow> w \<in> set (fields_char cur s) \<Longrightarrow>
     word_text w \<and> set w \<subseteq> set cur \<union> set s"
  by (induction cur s rule: fields_char.induct) (fastforce simp: word_text_def split: if_splits)+

section \<open>Strings of \<open>encoding/json\<close>\<close>

text \<open>One part of a string as \<open>json.Marshal\<close> writes it, html characters escaped.\<close>

definition json_u :: "nat \<Rightarrow> string" where
  "json_u n = CHR 0x5C # ''u'' @ [hex_digit (n div 4096 mod 16), hex_digit (n div 256 mod 16), hex_digit (n div 16 mod 16), hex_digit (n mod 16)]"

definition json_part :: "nat \<times> nat list \<Rightarrow> string" where
  "json_part = (\<lambda>(r, bs).
     if r < 0x80 then
       (if r = 0x22 \<or> r = 0x5C then [CHR 0x5C, char_of r]
        else if r = 8 then CHR 0x5C # ''b'' else if r = 9 then CHR 0x5C # ''t'' else if r = 10 then CHR 0x5C # ''n''
        else if r = 12 then CHR 0x5C # ''f'' else if r = 13 then CHR 0x5C # ''r''
        else if r < 0x20 \<or> r = 0x3C \<or> r = 0x3E \<or> r = 0x26 then json_u r
        else [char_of r])
     else if r = runeError \<and> length bs = 1 then json_u runeError
     else if r = 0x2028 \<or> r = 0x2029 then json_u r
     else map char_of bs)"

definition json_string :: "string \<Rightarrow> string" where
  "json_string s = ''\"'' @ concat (map json_part (rune_parts (bytes_of s))) @ ''\"''"

fun json_list :: "string list \<Rightarrow> string" where
  "json_list [] = ''[]''"
| "json_list (x # xs) = ''['' @ x @ concat (map (\<lambda>y. '','' @ y) xs) @ '']''"

end
