(* ===== verification/Relay_Limits.thy ===== *)
theory Relay_Limits
  imports Knock_Registry Utf8 "HOL-Library.Word"
begin

text \<open>
  What the live relay takes (\<open>relay-live/limits.go\<close> and the hooks \<open>applyKnocks\<close> of \<open>relay-live/knock.go\<close>): the
  budgets of the connections, the checks of a wrap and of a filter, the bytes taken for everyone together and
  the reading of the free space. A connection is a number, and a context without one is \<open>None\<close>; the file
  system's answer is a parameter. The handlers of the relay library that call the hooks
  (\<open>relay-live/third_party/khatru\<close>) are modelled as far as they decide what reaches the store.
\<close>

section \<open>The constants\<close>

definition eventsPerSec :: rat where "eventsPerSec = 10"
definition eventBurst :: rat where "eventBurst = 500"
definition reqsPerSec :: rat where "reqsPerSec = 2"
definition reqBurst :: rat where "reqBurst = 100"
definition maxIDs :: nat where "maxIDs = 20"
definition maxAddrs :: nat where "maxAddrs = 10"
definition knocksPerSec :: rat where "knocksPerSec = 1"
definition knockBurst :: rat where "knockBurst = 20"
definition regsPerSec :: rat where "regsPerSec = 1 / 30"
definition regBurst :: rat where "regBurst = 20"
definition maxTags :: nat where "maxTags = 8"
definition maxTagLen :: nat where "maxTagLen = 4"
definition futureSlack :: nanos where "futureSlack = 2 * hour"
definition wrapTTL :: nanos where "wrapTTL = 14 * 24 * hour"
definition minFreeBytes :: "64 word" where "minFreeBytes = 2147483648"
definition diskRecheck :: int where "diskRecheck = 33554432"
definition rowOverhead :: int where "rowOverhead = 512"
definition walPages :: int where "walPages = 32768"

lemmas limit_consts = eventsPerSec_def eventBurst_def reqsPerSec_def reqBurst_def maxIDs_def maxAddrs_def knocksPerSec_def
  knockBurst_def regsPerSec_def regBurst_def maxTags_def maxTagLen_def futureSlack_def wrapTTL_def minFreeBytes_def
  diskRecheck_def rowOverhead_def walPages_def

section \<open>The budgets\<close>

type_synonym ws = nat

record budget =
  b_events :: bucket
  b_reqs :: bucket
  b_knocks :: bucket
  b_regs :: bucket

record limits =
  conns :: "ws \<rightharpoonup> budget"
  maxConns :: nat
  lstored :: bucket
  dataDir :: string
  diskLow :: bool
  written :: int

definition new_budget :: "nanos \<Rightarrow> budget" where
  "new_budget now = \<lparr>b_events = newBucket now eventsPerSec eventBurst, b_reqs = newBucket now reqsPerSec reqBurst,
     b_knocks = newBucket now knocksPerSec knockBurst, b_regs = newBucket now regsPerSec regBurst\<rparr>"

text \<open>\<open>applyLimits\<close>, with what the environment says of the bytes a minute and the sockets.\<close>

definition applyLimits :: "nanos \<Rightarrow> rat \<Rightarrow> nat \<Rightarrow> string \<Rightarrow> limits" where
  "applyLimits now storedPerMin mx dir =
     \<lparr>conns = Map.empty, maxConns = mx, lstored = newBucket now (storedPerMin / 60) (storedPerMin * 4), dataDir = dir,
      diskLow = False, written = 0\<rparr>"

definition full :: "limits \<Rightarrow> bool" where
  "full l \<longleftrightarrow> card (dom (conns l)) \<ge> maxConns l"

definition connect :: "nanos \<Rightarrow> ws option \<Rightarrow> limits \<Rightarrow> limits" where
  "connect now wo l = (case wo of None \<Rightarrow> l | Some w \<Rightarrow> l\<lparr>conns := (conns l)(w \<mapsto> new_budget now)\<rparr>)"

definition disconnect :: "ws option \<Rightarrow> limits \<Rightarrow> limits" where
  "disconnect wo l = (case wo of None \<Rightarrow> l | Some w \<Rightarrow> l\<lparr>conns := (conns l)(w := None)\<rparr>)"

text \<open>The budget of a connection the relay saw open.\<close>

definition budget_of :: "ws option \<Rightarrow> limits \<Rightarrow> (ws \<times> budget) option" where
  "budget_of wo l = (case wo of None \<Rightarrow> None | Some w \<Rightarrow> map_option (Pair w) (conns l w))"

definition limits_take :: "nanos \<Rightarrow> ws option \<Rightarrow> bool \<Rightarrow> limits \<Rightarrow> bool \<times> limits" where
  "limits_take now wo evs l =
     (case budget_of wo l of
        None \<Rightarrow> (False, l)
      | Some (w, b) \<Rightarrow>
          if evs then let (ok, k) = take1 (b_events b) now in (ok, l\<lparr>conns := (conns l)(w \<mapsto> b\<lparr>b_events := k\<rparr>)\<rparr>)
          else let (ok, k) = take1 (b_reqs b) now in (ok, l\<lparr>conns := (conns l)(w \<mapsto> b\<lparr>b_reqs := k\<rparr>)\<rparr>))"

definition takeKnock :: "nanos \<Rightarrow> ws option \<Rightarrow> limits \<Rightarrow> bool \<times> limits" where
  "takeKnock now wo l =
     (case budget_of wo l of
        None \<Rightarrow> (False, l)
      | Some (w, b) \<Rightarrow> let (ok, k) = take1 (b_knocks b) now in (ok, l\<lparr>conns := (conns l)(w \<mapsto> b\<lparr>b_knocks := k\<rparr>)\<rparr>))"

definition takeNewReg :: "nanos \<Rightarrow> ws option \<Rightarrow> limits \<Rightarrow> bool \<times> limits" where
  "takeNewReg now wo l =
     (case budget_of wo l of
        None \<Rightarrow> (False, l)
      | Some (w, b) \<Rightarrow> let (ok, k) = take1 (b_regs b) now in (ok, l\<lparr>conns := (conns l)(w \<mapsto> b\<lparr>b_regs := k\<rparr>)\<rparr>))"

section \<open>The free space\<close>

text \<open>\<open>freeBytes\<close> of what \<open>Statfs\<close> says: blocks and their size, or nothing when it fails.\<close>

definition freeBytes :: "(64 word \<times> 64 word) option \<Rightarrow> 64 word" where
  "freeBytes st = (case st of None \<Rightarrow> - 1 | Some (bavail, bsize) \<Rightarrow> bavail * bsize)"

definition noteWritten :: "(64 word \<times> 64 word) option \<Rightarrow> int \<Rightarrow> limits \<Rightarrow> limits" where
  "noteWritten st n l =
     (if dataDir l = [] then l
      else if written l + n < diskRecheck then l\<lparr>written := written l + n\<rparr>
      else l\<lparr>written := 0, diskLow := freeBytes st < minFreeBytes\<rparr>)"

text \<open>One turn of \<open>watchDisk\<close>.\<close>

definition watch_turn :: "(64 word \<times> 64 word) option \<Rightarrow> limits \<Rightarrow> limits" where
  "watch_turn st l = l\<lparr>written := 0, diskLow := freeBytes st < minFreeBytes\<rparr>"

section \<open>What is taken\<close>

definition storedSize :: "nevent \<Rightarrow> int" where
  "storedSize ev = rowOverhead + int (length (evContent ev))
     + int (length (json_list (map (\<lambda>t. json_list (map json_string t)) (evTags ev))))"

text \<open>The loop over the tags: how many addresses, or why the wrap is refused.\<close>

fun count_addrs :: "string list list \<Rightarrow> nat \<Rightarrow> string + nat" where
  "count_addrs [] n = Inr n"
| "count_addrs (t # ts) n =
     (if length t > maxTagLen then Inl ''invalid: a tag is too long''
      else if t \<noteq> [] \<and> hd t = ''p'' then
        (if length t < 2 \<or> \<not> isKey (t ! 1) then Inl ''invalid: bad p tag'' else count_addrs ts (n + 1))
      else count_addrs ts n)"

text \<open>The checks of a wrap up to its size.\<close>

definition wrap_check :: "nanos \<Rightarrow> limits \<Rightarrow> nevent \<Rightarrow> answer" where
  "wrap_check now l ev =
     (if evKind ev \<noteq> wrapKind then Refused ''blocked: this relay only keeps gift wraps''
      else if length (evTags ev) > maxTags then Refused ''invalid: too many tags''
      else case count_addrs (evTags ev) 0 of
        Inl msg \<Rightarrow> Refused msg
      | Inr addrs \<Rightarrow>
          if addrs \<noteq> 1 then Refused ''invalid: a wrap goes to one address''
          else if of_unix (createdAt ev) > now + futureSlack then Refused ''invalid: created_at is in the future''
          else if of_unix (createdAt ev) < now - wrapTTL then Refused ''invalid: older than this relay keeps''
          else if diskLow l then Refused ''error: the relay is full, try later''
          else Taken)"

text \<open>The bytes of a wrap, out of what is taken from everyone together.\<close>

definition wrap_take :: "nanos \<Rightarrow> (64 word \<times> 64 word) option \<Rightarrow> nevent \<Rightarrow> limits \<Rightarrow> answer \<times> limits" where
  "wrap_take now st ev l =
     (let (ok, b) = takeN (lstored l) now (of_int (storedSize ev)); l = l\<lparr>lstored := b\<rparr>
      in if \<not> ok then (Refused ''rate-limited: the relay is busy, try later'', l)
         else (Taken, noteWritten st (storedSize ev + walPages) l))"

text \<open>
  \<open>event\<close>: \<open>t1\<close>, \<open>t2\<close> and \<open>t3\<close> are its readings of the clock. A registration goes to the knocker when there is
  one, whose new registrations come out of this connection's budget.
\<close>

definition limits_event ::
  "knock_cfg \<Rightarrow> rnd \<Rightarrow> (string \<Rightarrow> string \<times> bool) \<Rightarrow> string \<Rightarrow> nanos \<times> nanos \<times> nanos \<Rightarrow> (64 word \<times> 64 word) option \<Rightarrow> ws option
     \<Rightarrow> nevent \<Rightarrow> limits \<Rightarrow> knocker option \<Rightarrow> answer \<times> limits \<times> knocker option" where
  "limits_event c R look written_ans = (\<lambda>(t1, t2, t3) st wo ev l ko.
     case limits_take t1 wo True l of
       (False, l) \<Rightarrow> (Refused ''rate-limited: slow down'', l, ko)
     | (True, l) \<Rightarrow>
         (case ko of
            Some k \<Rightarrow>
              if evKind ev = knockKind
              then let (a, k, l) = knock_take c t2 R (takeNewReg t3 wo) look written_ans ev k l in (a, l, Some k)
              else (case wrap_check t2 l ev of
                      Refused msg \<Rightarrow> (Refused msg, l, ko)
                    | Taken \<Rightarrow> let (a, l) = wrap_take t3 st ev l in (a, l, ko))
          | None \<Rightarrow>
              (case wrap_check t2 l ev of
                 Refused msg \<Rightarrow> (Refused msg, l, ko)
               | Taken \<Rightarrow> let (a, l) = wrap_take t3 st ev l in (a, l, ko))))"

section \<open>What may be asked for\<close>

definition filterOK :: "nfilter \<Rightarrow> bool" where
  "filterOK f =
     (if fSearch f \<noteq> [] \<or> length (fAuthors f) > 0 then False
      else if length (fIDs f) > 0 then
        (if length (fIDs f) > maxIDs \<or> length (fKinds f) > 0 \<or> length (fTags f) > 0 then False
         else list_all isKey (fIDs f))
      else if length (fKinds f) \<noteq> 1 \<or> hd (fKinds f) \<noteq> wrapKind \<or> length (fTags f) \<noteq> 1 then False
      else case map_of (fTags f) ''p'' of
        None \<Rightarrow> False
      | Some ps \<Rightarrow> if length ps = 0 \<or> length ps > maxAddrs then False else list_all isKey ps)"

definition limitZero :: "nanos \<Rightarrow> ws option \<Rightarrow> nfilter \<Rightarrow> limits \<Rightarrow> nfilter \<times> limits" where
  "limitZero now wo f l =
     (if \<not> fLimitZero f then (f, l)
      else if filterOK f then
        (case limits_take now wo False l of
           (True, l) \<Rightarrow> (f, l)
         | (False, l) \<Rightarrow> (f\<lparr>fLimitZero := False\<rparr>, l))
      else (f\<lparr>fLimitZero := False\<rparr>, l))"

definition limits_filter :: "nanos \<Rightarrow> ws option \<Rightarrow> nfilter \<Rightarrow> limits \<Rightarrow> answer \<times> limits" where
  "limits_filter now wo f l =
     (case limits_take now wo False l of
        (False, l) \<Rightarrow> (Refused ''rate-limited: slow down'', l)
      | (True, l) \<Rightarrow> (if \<not> filterOK f then Refused ''blocked: ask for wraps by address'' else Taken, l))"

text \<open>\<open>noDeletionLookups\<close> around the store's query: an error for the library's own lookups on a connection.\<close>

definition noDeletionLookups :: "(nfilter \<Rightarrow> 'r) \<Rightarrow> bool \<Rightarrow> ws option \<Rightarrow> nfilter \<Rightarrow> string + 'r" where
  "noDeletionLookups q internal wo f =
     (if internal \<and> wo \<noteq> None then Inl ''this relay deletes nothing on request'' else Inr (q f))"

text \<open>
  \<open>handleRequest\<close> of the relay library with these hooks: a request is refused, listens only, or asks the store with
  its filter and listens.
\<close>

datatype req_outcome = ReqRefused string | ReqLive nfilter | ReqQuery nfilter

definition handleRequest :: "nanos \<times> nanos \<Rightarrow> ws option \<Rightarrow> nfilter \<Rightarrow> limits \<Rightarrow> req_outcome \<times> limits" where
  "handleRequest = (\<lambda>(t1, t2) wo f l.
     let (f, l) = limitZero t1 wo f l
     in if fLimitZero f then (ReqLive f, l)
        else case limits_filter t2 wo f l of
          (Refused msg, l) \<Rightarrow> (ReqRefused msg, l)
        | (Taken, l) \<Rightarrow> (ReqQuery f, l))"

section \<open>The hooks of the knocks\<close>

text \<open>\<open>OnEventSaved\<close>: a saved wrap knocks, out of its connection's budget.\<close>

definition on_saved :: "knock_cfg \<Rightarrow> rnd \<Rightarrow> nanos \<times> nanos \<Rightarrow> ws option \<Rightarrow> nevent \<Rightarrow> limits \<Rightarrow> knocker \<Rightarrow> limits \<times> knocker" where
  "on_saved c R = (\<lambda>(t1, t2) wo ev l k.
     if evKind ev = wrapKind
     then (case takeKnock t1 wo l of (True, l) \<Rightarrow> (l, stored c t2 R ev k) | (False, l) \<Rightarrow> (l, k))
     else (l, k))"

definition prevent_broadcast :: "nevent \<Rightarrow> bool" where
  "prevent_broadcast ev \<longleftrightarrow> evKind ev = knockKind"

section \<open>What is taken, exactly\<close>

definition p_tag :: "string list \<Rightarrow> bool" where
  "p_tag t \<longleftrightarrow> t \<noteq> [] \<and> hd t = ''p''"

text \<open>The loop over the tags, as one condition on them.\<close>

lemma count_addrs_exact:
  "count_addrs ts n = Inr m \<longleftrightarrow>
     (\<forall>t \<in> set ts. length t \<le> maxTagLen \<and> (p_tag t \<longrightarrow> 2 \<le> length t \<and> isKey (t ! 1))) \<and> m = n + length (filter p_tag ts)"
  by (induction ts n rule: count_addrs.induct) (auto simp: p_tag_def)

definition wrap_ok :: "nanos \<Rightarrow> nevent \<Rightarrow> bool" where
  "wrap_ok now ev \<longleftrightarrow> evKind ev = wrapKind \<and> length (evTags ev) \<le> maxTags \<and>
     (\<forall>t \<in> set (evTags ev). length t \<le> maxTagLen) \<and>
     (\<exists>t. filter p_tag (evTags ev) = [t] \<and> 2 \<le> length t \<and> isKey (t ! 1)) \<and>
     now - wrapTTL \<le> of_unix (createdAt ev) \<and> of_unix (createdAt ev) \<le> now + futureSlack"

lemma one_element: "length xs = 1 \<longleftrightarrow> (\<exists>x. xs = [x])"
  by (cases xs) auto

lemma filter_one:
  assumes "filter P xs = [t]"
  shows "(\<forall>x \<in> set xs. P x \<longrightarrow> Q x) \<longleftrightarrow> Q t"
proof -
  have "{x \<in> set xs. P x} = {t}" using assms by (metis empty_set list.simps(15) set_filter)
  then show ?thesis by auto
qed

lemma wrap_check_exact: "wrap_check now l ev = Taken \<longleftrightarrow> wrap_ok now ev \<and> \<not> diskLow l"
proof -
  have one: "count_addrs ts 0 = Inr 1 \<longleftrightarrow> (\<forall>t \<in> set ts. length t \<le> maxTagLen) \<and>
      (\<exists>t. filter p_tag ts = [t] \<and> 2 \<le> length t \<and> isKey (t ! 1))" for ts
    using filter_one [of p_tag ts _ "\<lambda>t. 2 \<le> length t \<and> isKey (t ! 1)"]
    unfolding count_addrs_exact by (metis (no_types, lifting) add_0 one_element)
  have "wrap_check now l ev = Taken \<longleftrightarrow> evKind ev = wrapKind \<and> length (evTags ev) \<le> maxTags \<and>
      count_addrs (evTags ev) 0 = Inr 1 \<and> now - wrapTTL \<le> of_unix (createdAt ev) \<and>
      of_unix (createdAt ev) \<le> now + futureSlack \<and> \<not> diskLow l"
    by (auto simp: wrap_check_def split: sum.splits)
  then show ?thesis unfolding wrap_ok_def one by blast
qed


definition wrap_event :: nevent where
  "wrap_event = \<lparr>evID = ''w'', pubKey = ''k'', createdAt = 2000, evKind = wrapKind,
     evTags = [[''p'', replicate 64 CHR ''a''], [''expiration'', ''2100'']], evContent = ''hello''\<rparr>"

definition one_socket :: limits where
  "one_socket = connect (of_unix 2000) (Some 1) (applyLimits (of_unix 2000) 60000 10 ''data'')"

lemma wrap_event_ok: "wrap_ok (of_unix 2000) wrap_event"
proof -
  have "isKey (replicate 64 CHR ''a'')" by code_simp
  moreover have "filter p_tag (evTags wrap_event) = [[''p'', replicate 64 CHR ''a'']]"
    by (simp add: wrap_event_def p_tag_def)
  moreover have "evKind wrap_event = wrapKind" "length (evTags wrap_event) \<le> maxTags" "\<forall>t \<in> set (evTags wrap_event). length t \<le> maxTagLen"
    "createdAt wrap_event = 2000"
    by (simp_all add: wrap_event_def limit_consts)
  ultimately show ?thesis by (simp add: wrap_ok_def limit_consts duration_defs)
qed

lemma wrap_event_size: "storedSize wrap_event = 613"
  by code_simp


end
