(* ===== verification/Relay_Flow.thy ===== *)
theory Relay_Flow
  imports Relay_Limits
begin

text \<open>
  The limits over time: what goes through in any run of the hooks, whichever connections call them and in
  whatever order the lock lets them in; what a request may read; and how far the free space can fall.
\<close>

section \<open>Everything the hooks take\<close>

text \<open>The limits with what they let through: the bytes of wraps since the start, and for each connection what it got since
  it opened.\<close>

record flow =
  fl :: limits
  fl_bytes :: rat
  fl_since :: "ws \<Rightarrow> nanos"
  fl_events :: "ws \<Rightarrow> rat"
  fl_reqs :: "ws \<Rightarrow> rat"
  fl_knocks :: "ws \<Rightarrow> rat"
  fl_regs :: "ws \<Rightarrow> rat"

definition plus_at :: "ws \<Rightarrow> bool \<Rightarrow> (ws \<Rightarrow> rat) \<Rightarrow> ws \<Rightarrow> rat" where
  "plus_at w g f = f(w := f w + (if g then 1 else 0))"

text \<open>One section under the lock. The clock is read inside it, so the instants of a run never go back.\<close>

inductive flow_step :: "nanos \<Rightarrow> flow \<Rightarrow> flow \<Rightarrow> bool" where
  opened: "flow_step now s (s\<lparr>fl := connect now (Some w) (fl s), fl_since := (fl_since s)(w := now), fl_events := (fl_events s)(w := 0),
     fl_reqs := (fl_reqs s)(w := 0), fl_knocks := (fl_knocks s)(w := 0), fl_regs := (fl_regs s)(w := 0)\<rparr>)"
| closed: "flow_step now s (s\<lparr>fl := disconnect (Some w) (fl s)\<rparr>)"
| event: "limits_take now (Some w) True (fl s) = (g, l) \<Longrightarrow>
     flow_step now s (s\<lparr>fl := l, fl_events := plus_at w g (fl_events s)\<rparr>)"
| request: "limits_take now (Some w) False (fl s) = (g, l) \<Longrightarrow>
     flow_step now s (s\<lparr>fl := l, fl_reqs := plus_at w g (fl_reqs s)\<rparr>)"
| knock: "takeKnock now (Some w) (fl s) = (g, l) \<Longrightarrow>
     flow_step now s (s\<lparr>fl := l, fl_knocks := plus_at w g (fl_knocks s)\<rparr>)"
| new_reg: "takeNewReg now (Some w) (fl s) = (g, l) \<Longrightarrow>
     flow_step now s (s\<lparr>fl := l, fl_regs := plus_at w g (fl_regs s)\<rparr>)"
| bytes: "wrap_take now st ev (fl s) = (a, l) \<Longrightarrow>
     flow_step now s (s\<lparr>fl := l, fl_bytes := fl_bytes s + (if a = Taken then of_int (storedSize ev) else 0)\<rparr>)"
| watched: "flow_step now s (s\<lparr>fl := watch_turn st (fl s)\<rparr>)"

inductive flow_run :: "nanos \<Rightarrow> limits \<Rightarrow> nanos \<Rightarrow> flow \<Rightarrow> bool" for t0 l0 where
  start: "flow_run t0 l0 t0 \<lparr>fl = l0, fl_bytes = 0, fl_since = (\<lambda>_. t0), fl_events = (\<lambda>_. 0), fl_reqs = (\<lambda>_. 0),
     fl_knocks = (\<lambda>_. 0), fl_regs = (\<lambda>_. 0)\<rparr>"
| step: "flow_run t0 l0 now s \<Longrightarrow> now \<le> now' \<Longrightarrow> flow_step now' s s' \<Longrightarrow> flow_run t0 l0 now' s'"

text \<open>A bucket with its account: what it granted since it was made, and at what rate it fills.\<close>

definition book_ok :: "rat \<Rightarrow> rat \<Rightarrow> nanos \<Rightarrow> nanos \<Rightarrow> rat \<Rightarrow> bucket \<Rightarrow> bool" where
  "book_ok per burst t0 now G b \<longleftrightarrow> relay_bucket.accounted burst t0 G b \<and> blast b \<le> now \<and> perSec b = per"

lemma book_new: "0 \<le> per \<Longrightarrow> 0 \<le> burst \<Longrightarrow> book_ok per burst now now 0 (newBucket now per burst)"
  by (simp add: book_ok_def newBucket_accounted) (simp add: newBucket_def)

lemma book_take:
  assumes "book_ok per burst t0 now G b" and "now \<le> now'" and "0 \<le> n"
  shows "book_ok per burst t0 now' (G + (if fst (takeN b now' n) then n else 0)) (snd (takeN b now' n))"
proof -
  have b: "blast b \<le> now'" using assms by (simp add: book_ok_def)
  show ?thesis using relay_bucket.accounted_ask [OF _ b assms(3)] assms(1) by (simp add: book_ok_def)
qed

lemma book_later: "book_ok per burst t0 now G b \<Longrightarrow> now \<le> now' \<Longrightarrow> book_ok per burst t0 now' G b"
  by (auto simp: book_ok_def)

lemma book_bound: "book_ok per burst t0 now G b \<Longrightarrow> G \<le> burst + seconds (now - t0) * per"
  using relay_bucket.accounted_bound [of burst t0 G b now] by (simp add: book_ok_def)

definition budget_ok :: "nanos \<Rightarrow> flow \<Rightarrow> ws \<Rightarrow> budget \<Rightarrow> bool" where
  "budget_ok now s w b \<longleftrightarrow>
     book_ok eventsPerSec eventBurst (fl_since s w) now (fl_events s w) (b_events b) \<and>
     book_ok reqsPerSec reqBurst (fl_since s w) now (fl_reqs s w) (b_reqs b) \<and>
     book_ok knocksPerSec knockBurst (fl_since s w) now (fl_knocks s w) (b_knocks b) \<and>
     book_ok regsPerSec regBurst (fl_since s w) now (fl_regs s w) (b_regs b)"

definition flow_ok :: "rat \<Rightarrow> rat \<Rightarrow> nanos \<Rightarrow> nanos \<Rightarrow> flow \<Rightarrow> bool" where
  "flow_ok per burst t0 now s \<longleftrightarrow> book_ok per burst t0 now (fl_bytes s) (lstored (fl s)) \<and>
     (\<forall>w b. conns (fl s) w = Some b \<longrightarrow> budget_ok now s w b)"

lemma budget_later: "budget_ok now s w b \<Longrightarrow> now \<le> now' \<Longrightarrow> budget_ok now' s w b"
  by (auto simp: budget_ok_def intro: book_later)

lemma budget_new:
  "fl_since s w = now \<Longrightarrow> fl_events s w = 0 \<Longrightarrow> fl_reqs s w = 0 \<Longrightarrow> fl_knocks s w = 0 \<Longrightarrow> fl_regs s w = 0 \<Longrightarrow>
     budget_ok now s w (new_budget now)"
  by (simp add: budget_ok_def new_budget_def book_new limit_consts)

text \<open>The four ways a budget is drawn on only differ in the bucket.\<close>

lemma drawn:
  assumes "budget_of (Some w) l = Some (w', b)"
  shows "w' = w" and "conns l w = Some b"
  using assms by (auto simp: budget_of_def)

definition same_but :: "ws \<Rightarrow> flow \<Rightarrow> flow \<Rightarrow> bool" where
  "same_but w s s' \<longleftrightarrow> fl_since s' = fl_since s \<and> (\<forall>v. v \<noteq> w \<longrightarrow>
     fl_events s' v = fl_events s v \<and> fl_reqs s' v = fl_reqs s v \<and> fl_knocks s' v = fl_knocks s v \<and> fl_regs s' v = fl_regs s v)"

lemma draw_ok:
  assumes "flow_ok per burst t0 now s" and "conns (fl s) w = Some b" and "budget_ok now s' w b'" and "same_but w s s'"
    and "fl_bytes s' = fl_bytes s" and "fl s' = (fl s)\<lparr>conns := (conns (fl s))(w \<mapsto> b')\<rparr>"
  shows "flow_ok per burst t0 now s'"
  using assms by (auto simp: flow_ok_def same_but_def budget_ok_def)

lemma plus_at_none [simp]: "plus_at w False f = f"
  by (simp add: plus_at_def)

lemma book_take1:
  "book_ok per burst t0 now G b \<Longrightarrow> take1 b now = (g, b') \<Longrightarrow> book_ok per burst t0 now (G + (if g then 1 else 0)) b'"
  unfolding take1_def using book_take [OF _ order_refl, of per burst t0 now G b 1] by simp

lemma storedSize_nonneg: "0 \<le> storedSize ev"
  by (simp add: storedSize_def rowOverhead_def)

lemma noteWritten_frame [simp]: "conns (noteWritten st n l) = conns l" "lstored (noteWritten st n l) = lstored l"
  by (simp_all add: noteWritten_def)

lemma flow_later: "flow_ok per burst t0 now s \<Longrightarrow> now \<le> now' \<Longrightarrow> flow_ok per burst t0 now' s"
  by (auto simp: flow_ok_def intro: book_later budget_later)

lemma take_ok:
  assumes "flow_ok per burst t0 now s" and "limits_take now (Some w) evs (fl s) = (g, l)"
    and "s' = (if evs then s\<lparr>fl := l, fl_events := plus_at w g (fl_events s)\<rparr> else s\<lparr>fl := l, fl_reqs := plus_at w g (fl_reqs s)\<rparr>)"
  shows "flow_ok per burst t0 now s'"
proof (cases "conns (fl s) w")
  case None
  then show ?thesis using assms by (simp add: limits_take_def budget_of_def flow_ok_def budget_ok_def)
next
  case (Some b)
  have b: "budget_ok now s w b" using assms(1) Some by (simp add: flow_ok_def)
  show ?thesis
  proof (cases evs)
    case True
    obtain k where k: "take1 (b_events b) now = (g, k)" and l: "l = (fl s)\<lparr>conns := (conns (fl s))(w \<mapsto> b\<lparr>b_events := k\<rparr>)\<rparr>"
      using assms(2) Some True by (auto simp: limits_take_def budget_of_def split: prod.splits)
    have "budget_ok now (s\<lparr>fl := l, fl_events := plus_at w g (fl_events s)\<rparr>) w (b\<lparr>b_events := k\<rparr>)"
      using b book_take1 [OF _ k] by (simp add: budget_ok_def plus_at_def)
    then have "flow_ok per burst t0 now (s\<lparr>fl := l, fl_events := plus_at w g (fl_events s)\<rparr>)"
      by (rule draw_ok [OF assms(1) Some]) (simp_all add: same_but_def plus_at_def l)
    then show ?thesis using assms(3) True by simp
  next
    case False
    obtain k where k: "take1 (b_reqs b) now = (g, k)" and l: "l = (fl s)\<lparr>conns := (conns (fl s))(w \<mapsto> b\<lparr>b_reqs := k\<rparr>)\<rparr>"
      using assms(2) Some False by (auto simp: limits_take_def budget_of_def split: prod.splits)
    have "budget_ok now (s\<lparr>fl := l, fl_reqs := plus_at w g (fl_reqs s)\<rparr>) w (b\<lparr>b_reqs := k\<rparr>)"
      using b book_take1 [OF _ k] by (simp add: budget_ok_def plus_at_def)
    then have "flow_ok per burst t0 now (s\<lparr>fl := l, fl_reqs := plus_at w g (fl_reqs s)\<rparr>)"
      by (rule draw_ok [OF assms(1) Some]) (simp_all add: same_but_def plus_at_def l)
    then show ?thesis using assms(3) False by simp
  qed
qed

lemma takeKnock_ok:
  assumes "flow_ok per burst t0 now s" and "takeKnock now (Some w) (fl s) = (g, l)"
  shows "flow_ok per burst t0 now (s\<lparr>fl := l, fl_knocks := plus_at w g (fl_knocks s)\<rparr>)"
proof (cases "conns (fl s) w")
  case None
  then show ?thesis using assms by (simp add: takeKnock_def budget_of_def flow_ok_def budget_ok_def)
next
  case (Some b)
  have b: "budget_ok now s w b" using assms(1) Some by (simp add: flow_ok_def)
  obtain k where k: "take1 (b_knocks b) now = (g, k)" and l: "l = (fl s)\<lparr>conns := (conns (fl s))(w \<mapsto> b\<lparr>b_knocks := k\<rparr>)\<rparr>"
    using assms(2) Some by (auto simp: takeKnock_def budget_of_def split: prod.splits)
  have "budget_ok now (s\<lparr>fl := l, fl_knocks := plus_at w g (fl_knocks s)\<rparr>) w (b\<lparr>b_knocks := k\<rparr>)"
    using b book_take1 [OF _ k] by (simp add: budget_ok_def plus_at_def)
  then have "flow_ok per burst t0 now (s\<lparr>fl := l, fl_knocks := plus_at w g (fl_knocks s)\<rparr>)"
    by (rule draw_ok [OF assms(1) Some]) (simp_all add: same_but_def plus_at_def l)
  then show ?thesis .
qed

lemma takeNewReg_ok:
  assumes "flow_ok per burst t0 now s" and "takeNewReg now (Some w) (fl s) = (g, l)"
  shows "flow_ok per burst t0 now (s\<lparr>fl := l, fl_regs := plus_at w g (fl_regs s)\<rparr>)"
proof (cases "conns (fl s) w")
  case None
  then show ?thesis using assms by (simp add: takeNewReg_def budget_of_def flow_ok_def budget_ok_def)
next
  case (Some b)
  have b: "budget_ok now s w b" using assms(1) Some by (simp add: flow_ok_def)
  obtain k where k: "take1 (b_regs b) now = (g, k)" and l: "l = (fl s)\<lparr>conns := (conns (fl s))(w \<mapsto> b\<lparr>b_regs := k\<rparr>)\<rparr>"
    using assms(2) Some by (auto simp: takeNewReg_def budget_of_def split: prod.splits)
  have "budget_ok now (s\<lparr>fl := l, fl_regs := plus_at w g (fl_regs s)\<rparr>) w (b\<lparr>b_regs := k\<rparr>)"
    using b book_take1 [OF _ k] by (simp add: budget_ok_def plus_at_def)
  then have "flow_ok per burst t0 now (s\<lparr>fl := l, fl_regs := plus_at w g (fl_regs s)\<rparr>)"
    by (rule draw_ok [OF assms(1) Some]) (simp_all add: same_but_def plus_at_def l)
  then show ?thesis .
qed

lemma flow_step_ok:
  assumes "flow_step now s s'" and "flow_ok per burst t0 now s"
  shows "flow_ok per burst t0 now s'"
  using assms(1)
proof cases
  case (opened w)
  then show ?thesis using assms(2) budget_new [of s' w now] by (auto simp: flow_ok_def connect_def budget_ok_def)
next
  case (closed w)
  then show ?thesis using assms(2) by (auto simp: flow_ok_def disconnect_def budget_ok_def)
next
  case (bytes st ev a l)
  have "book_ok per burst t0 now (fl_bytes s') (lstored (fl s'))"
    using bytes assms(2) book_take [OF _ order_refl, of per burst t0 now "fl_bytes s" "lstored (fl s)" "of_int (storedSize ev)"] storedSize_nonneg
    by (auto simp: flow_ok_def wrap_take_def split_beta Let_def split: if_splits)
  moreover have "conns (fl s') = conns (fl s)" using bytes by (auto simp: wrap_take_def split_beta Let_def split: if_splits)
  ultimately show ?thesis using assms(2) bytes by (auto simp: flow_ok_def budget_ok_def)
next
  case (watched st)
  then show ?thesis using assms(2) by (auto simp: flow_ok_def watch_turn_def budget_ok_def)
next
  case (event w g l)
  then show ?thesis using take_ok [OF assms(2), of w True g l s'] by simp
next
  case (request w g l)
  then show ?thesis using take_ok [OF assms(2), of w False g l s'] by simp
next
  case (knock w g l)
  then show ?thesis using takeKnock_ok [OF assms(2), of w g l] by simp
next
  case (new_reg w g l)
  then show ?thesis using takeNewReg_ok [OF assms(2), of w g l] by simp
qed

lemma flow_run_ok:
  assumes "flow_run t0 l0 now s" and "book_ok per burst t0 t0 0 (lstored l0)" and "conns l0 = Map.empty"
  shows "flow_ok per burst t0 now s \<and> t0 \<le> now"
  using assms
proof (induction rule: flow_run.induct)
  case (step now s now' s')
  then show ?case using flow_step_ok flow_later by (meson order_trans)
qed (simp add: flow_ok_def)



section \<open>What a request may read\<close>

text \<open>By id alone, or gift wraps to named addresses.\<close>

definition names_what_it_wants :: "nfilter \<Rightarrow> bool" where
  "names_what_it_wants f \<longleftrightarrow> fSearch f = [] \<and> fAuthors f = [] \<and>
     (fIDs f \<noteq> [] \<and> length (fIDs f) \<le> 20 \<and> (\<forall>i \<in> set (fIDs f). isKey i) \<and> fKinds f = [] \<and> fTags f = [] \<or>
      fIDs f = [] \<and> fKinds f = [wrapKind] \<and>
        (\<exists>ps. fTags f = [(''p'', ps)] \<and> ps \<noteq> [] \<and> length ps \<le> 10 \<and> (\<forall>p \<in> set ps. isKey p)))"

lemma filterOK_exact: "filterOK f \<longleftrightarrow> names_what_it_wants f"
proof (cases "fIDs f = []")
  case True
  have k: "(length (fKinds f) \<noteq> 1 \<or> hd (fKinds f) \<noteq> wrapKind \<or> b) \<longleftrightarrow> fKinds f \<noteq> [wrapKind] \<or> b" for b
    by (cases "fKinds f") auto
  have t: "length (fTags f) = 1 \<and> map_of (fTags f) ''p'' = Some ps \<longleftrightarrow> fTags f = [(''p'', ps)]" for ps
    by (cases "fTags f") (auto split: if_splits)
  have "filterOK f \<longleftrightarrow> fSearch f = [] \<and> fAuthors f = [] \<and> fKinds f = [wrapKind] \<and>
      (\<exists>ps. (length (fTags f) = 1 \<and> map_of (fTags f) ''p'' = Some ps) \<and> ps \<noteq> [] \<and> length ps \<le> 10 \<and> (\<forall>p \<in> set ps. isKey p))"
    using True unfolding filterOK_def k by (auto simp: limit_consts list_all_iff split: option.splits)
  then show ?thesis using True unfolding t names_what_it_wants_def by blast
next
  case False
  then show ?thesis by (auto simp: filterOK_def names_what_it_wants_def limit_consts list_all_iff)
qed


section \<open>The floor of the free space\<close>

text \<open>A run on a disk: a taken wrap costs at most what is counted for it, every reading of the free space sees what is
  free, and between the steps space may be freed.\<close>

inductive disk_run :: "int \<Rightarrow> limits \<Rightarrow> int \<Rightarrow> bool" for most where
  start: "dataDir l \<noteq> [] \<Longrightarrow> unat (freeBytes st) = nat free \<Longrightarrow> 2147483648 \<le> free \<Longrightarrow> disk_run most (watch_turn st l) free"
| wrap: "disk_run most l free \<Longrightarrow> wrap_check now l ev = Taken \<Longrightarrow> wrap_take now' st ev l = (Taken, l') \<Longrightarrow>
     storedSize ev + walPages \<le> most \<Longrightarrow> free - (storedSize ev + walPages) \<le> free' \<Longrightarrow> 0 \<le> free' \<Longrightarrow>
     unat (freeBytes st) = nat free' \<Longrightarrow> disk_run most l' free'"
| watch: "disk_run most l free \<Longrightarrow> unat (freeBytes st) = nat free \<Longrightarrow> disk_run most (watch_turn st l) free"
| freed: "disk_run most l free \<Longrightarrow> free \<le> free' \<Longrightarrow> disk_run most l free'"

lemma min_free_reading:
  assumes "unat (freeBytes st) = nat free" and "0 \<le> free"
  shows "freeBytes st < minFreeBytes \<longleftrightarrow> free < 2147483648"
proof -
  have "freeBytes st < minFreeBytes \<longleftrightarrow> unat (freeBytes st) < unat minFreeBytes" by (rule word_less_nat_alt)
  moreover have "unat minFreeBytes = 2147483648" by (simp add: minFreeBytes_def)
  ultimately show ?thesis using assms by linarith
qed

lemma disk_run_inv:
  assumes "disk_run most l free" and "0 \<le> most"
  shows "dataDir l \<noteq> [] \<and> 0 \<le> free \<and> 0 \<le> written l \<and> written l < diskRecheck \<and>
    (diskLow l \<or> 2147483648 \<le> free + written l) \<and> 2147483648 - diskRecheck - most \<le> free"
  using assms
proof (induction rule: disk_run.induct)
  case (wrap l free now ev now' st l' free')
  have low: "\<not> diskLow l" using wrap(2) by (simp add: wrap_check_exact)
  have "l' = noteWritten st (storedSize ev + walPages) (l\<lparr>lstored := snd (takeN (lstored l) now' (of_int (storedSize ev)))\<rparr>)"
    using wrap(3) by (auto simp: wrap_take_def split_beta Let_def split: if_splits)
  then show ?case using wrap low storedSize_nonneg [of ev] min_free_reading [of st free']
    by (auto simp: noteWritten_def diskRecheck_def walPages_def)
qed (auto simp: watch_turn_def min_free_reading diskRecheck_def)

text \<open>However fast wraps come in, the free space never falls further below the two gigabytes than the 32 megabytes after
  which it is read again and one wrap: of a relay that started above them, whose wraps cost the disk no more than is
  counted for them.\<close>

theorem disk_floor_kept:
  assumes "disk_run most l free" and "0 \<le> most"
  shows "2147483648 - 33554432 - most \<le> free"
  using disk_run_inv [OF assms] by (simp add: diskRecheck_def)

theorem disk_floor_kept_witness:
  "disk_run 100000 (watch_turn (Some (1048576, 4096)) one_socket) 4294967296 \<and> (2147483648 - 33554432 - 100000 :: int) \<le> 4294967296"
proof -
  have "disk_run 100000 (watch_turn (Some (1048576, 4096)) one_socket) 4294967296"
    by (rule disk_run.start) (simp_all add: one_socket_def connect_def applyLimits_def freeBytes_def)
  then show ?thesis using disk_floor_kept [of 100000] by fastforce
qed


end
