(* ===== verification/Retention.thy ===== *)
theory Retention
  imports Relay_Limits Strconv
begin

text \<open>
  How long the relays keep a wrap: the sweep of the live relay (\<open>relay-live/retention.go\<close>), and what the relay of the
  direct messages takes, serves and sweeps (\<open>dmrelay/main.go\<close>, \<open>dmrelay/retention.go\<close>). The tables are lists of
  rows; the answer of the second relay's store and the tag lookup of the nostr library are parameters.
\<close>

section \<open>The sweep of the live relay\<close>

definition sweepBatch :: nat where "sweepBatch = 500"

text \<open>A row: its id and the time on the wrap. The delete takes the oldest rows that are due, at most a batch.\<close>

type_synonym row = "nat \<times> stamp"

definition due_batch :: "unix \<Rightarrow> row list \<Rightarrow> row list" where
  "due_batch due rows = take sweepBatch (sort_key snd (filter (\<lambda>r. snd r \<le> due) rows))"

definition delete_batch :: "unix \<Rightarrow> row list \<Rightarrow> row list" where
  "delete_batch due rows = filter (\<lambda>r. fst r \<notin> fst ` set (due_batch due rows)) rows"

text \<open>One turn of the loop: when it runs, the rows saved since the last one, whether the delete or the count of its rows
  fails, and whether the sweep is called off in the pause after it.\<close>

record turn =
  t_now :: nanos
  t_saved :: "row list"
  t_exec_err :: bool
  t_rows_err :: bool
  t_stop :: bool

text \<open>\<open>None\<close> is a sweep that is still going when the turns are over.\<close>

fun sweep :: "turn list \<Rightarrow> row list \<Rightarrow> nat \<Rightarrow> (nat \<times> row list) option" where
  "sweep [] rows tot = None"
| "sweep (t # ts) rows tot =
     (let rows = rows @ t_saved t; due = to_unix (t_now t - wrapTTL)
      in if t_exec_err t then Some (tot, rows)
         else let n = length (due_batch due rows); rows = delete_batch due rows
              in if t_rows_err t then Some (tot, rows)
                 else if n < sweepBatch then Some (tot + n, rows)
                 else if t_stop t then Some (tot + n, rows)
                 else sweep ts rows (tot + n))"

lemma due_batch_due: "r \<in> set (due_batch due rows) \<Longrightarrow> r \<in> set rows \<and> snd r \<le> due"
  by (auto simp: due_batch_def dest!: in_set_takeD)

lemma short_batch_all: "length (due_batch due rows) < sweepBatch \<Longrightarrow> set (due_batch due rows) = {r \<in> set rows. snd r \<le> due}"
  by (simp add: due_batch_def)

definition ids_unique :: "row list \<Rightarrow> bool" where
  "ids_unique rows \<longleftrightarrow> distinct (map fst rows)"

lemma delete_batch_keeps: "ids_unique rows \<Longrightarrow> r \<in> set rows \<Longrightarrow> due < snd r \<Longrightarrow> r \<in> set (delete_batch due rows)"
proof -
  assume u: "ids_unique rows" and r: "r \<in> set rows" and y: "due < snd r"
  have "fst r \<notin> fst ` set (due_batch due rows)"
  proof
    assume "fst r \<in> fst ` set (due_batch due rows)"
    then obtain q where q: "q \<in> set (due_batch due rows)" "fst q = fst r" by auto
    have "q = r" using u r due_batch_due [OF q(1)] q(2) by (simp add: ids_unique_def distinct_map inj_on_def)
    then show False using due_batch_due [OF q(1)] y by simp
  qed
  then show ?thesis using r by (simp add: delete_batch_def)
qed

lemma ids_unique_filter: "ids_unique rows \<Longrightarrow> ids_unique (filter P rows)"
  by (simp add: ids_unique_def distinct_map_filter)

text \<open>The ids of the turns' new rows never repeat one in the table.\<close>

fun fresh_turns :: "turn list \<Rightarrow> row list \<Rightarrow> bool" where
  "fresh_turns [] rows \<longleftrightarrow> ids_unique rows"
| "fresh_turns (t # ts) rows \<longleftrightarrow> ids_unique (rows @ t_saved t) \<and> fresh_turns ts (rows @ t_saved t)"

lemma fresh_turns_filter: "fresh_turns ts rows \<Longrightarrow> fresh_turns ts (filter P rows)"
proof (induction ts arbitrary: rows P)
  case (Cons t ts)
  have u: "ids_unique (rows @ t_saved t)" and f: "fresh_turns ts (rows @ t_saved t)" using Cons.prems by simp_all
  let ?Q = "\<lambda>r. r \<in> set (t_saved t) \<or> P r"
  have "r \<notin> set (t_saved t)" if "r \<in> set rows" for r using u that by (force simp: ids_unique_def)
  then have "filter ?Q rows = filter P rows" by (auto intro: filter_cong)
  moreover have "filter ?Q (t_saved t) = t_saved t" by (simp add: filter_id_conv)
  ultimately have "filter ?Q (rows @ t_saved t) = filter P rows @ t_saved t" by simp
  then show ?case using ids_unique_filter [OF u, of ?Q] Cons.IH [OF f, of ?Q] by simp
qed (simp add: ids_unique_filter)

text \<open>C21. The sweep only takes what is older than fourteen days: a row of the table whose time is later than that at the last
  turn is still there when the sweep ends, whatever fails and whatever is saved meanwhile.\<close>

theorem sweep_keeps_young:
  assumes "sweep ts rows tot = Some (n, rows')" and "fresh_turns ts rows" and "\<And>t. t \<in> set ts \<Longrightarrow> t_now t \<le> T"
    and "r \<in> set rows" and "to_unix (T - wrapTTL) < snd r"
  shows "r \<in> set rows'"
  using assms
proof (induction ts arbitrary: rows tot)
  case (Cons t ts)
  let ?rows = "rows @ t_saved t" and ?due = "to_unix (t_now t - wrapTTL)"
  have "?due \<le> to_unix (T - wrapTTL)" using Cons.prems(3) by (intro to_unix_mono) simp
  then have young: "?due < snd r" using Cons.prems(5) by simp
  have kept: "r \<in> set (delete_batch ?due ?rows)" using Cons.prems(2,4) young by (intro delete_batch_keeps) simp_all
  have "fresh_turns ts (delete_batch ?due ?rows)" unfolding delete_batch_def using Cons.prems(2) by (intro fresh_turns_filter) simp
  then show ?case using Cons.IH [of "delete_batch ?due ?rows"] Cons.prems kept
    by (auto simp: Let_def split: if_splits)
qed simp

definition example_turn :: turn where
  "example_turn = \<lparr>t_now = wrapTTL + of_unix 100, t_saved = [], t_exec_err = False, t_rows_err = False, t_stop = False\<rparr>"

lemma example_sweep: "sweep [example_turn] [(1, 50), (2, 150)] 0 = Some (1, [(2, 150)])"
  by (simp add: example_turn_def due_batch_def delete_batch_def sweepBatch_def Let_def)

theorem sweep_keeps_young_witness: "sweep [example_turn] [(1, 50), (2, 150)] 0 = Some (1, [(2, 150)]) \<and> (2, 150) \<in> set [(2::nat, 150::int)]"
  using sweep_keeps_young [OF example_sweep, of "wrapTTL + of_unix 100" "(2, 150)"] example_sweep
  by (simp add: example_turn_def ids_unique_def)

lemma delete_batch_length:
  assumes "ids_unique rows"
  shows "length (delete_batch due rows) + length (due_batch due rows) = length rows"
proof -
  let ?B = "due_batch due rows"
  have inj: "inj_on fst (set rows)" and d: "distinct rows" using assms by (auto simp: ids_unique_def distinct_map)
  have sub: "set ?B \<subseteq> set rows" using due_batch_due by blast
  have dB: "distinct ?B" using d by (simp add: due_batch_def)
  have "fst r \<notin> fst ` set ?B \<longleftrightarrow> r \<notin> set ?B" if "r \<in> set rows" for r using inj_on_image_mem_iff [OF inj that sub] by blast
  then have "delete_batch due rows = filter (\<lambda>r. r \<notin> set ?B) rows" unfolding delete_batch_def by (intro filter_cong) simp_all
  moreover have "set (filter (\<lambda>r. r \<in> set ?B) rows) = set ?B" using sub by auto
  then have "length (filter (\<lambda>r. r \<in> set ?B) rows) = length ?B"
    using distinct_card [OF dB] distinct_card [OF distinct_filter [OF d, of "\<lambda>r. r \<in> set ?B"]] by metis
  ultimately show ?thesis using sum_length_filter_compl [of "\<lambda>r. r \<in> set ?B" rows] by simp
qed

text \<open>A sweep nothing disturbs ends: a batch takes 500 rows, so a turn more than there are full batches is enough. It
  reports what it took, and nothing older than fourteen days is left.\<close>

theorem sweep_ends_clean:
  assumes "\<And>t. t \<in> set ts \<Longrightarrow> \<not> t_exec_err t \<and> \<not> t_rows_err t \<and> \<not> t_stop t \<and> t_saved t = [] \<and> T \<le> t_now t"
    and "ids_unique rows" and "length rows div sweepBatch < length ts"
  shows "\<exists>n rows'. sweep ts rows tot = Some (tot + n, rows') \<and> n + length rows' = length rows \<and>
    (\<forall>r \<in> set rows'. to_unix (T - wrapTTL) < snd r)"
  using assms
proof (induction ts arbitrary: rows tot)
  case (Cons t ts)
  let ?due = "to_unix (t_now t - wrapTTL)"
  let ?n = "length (due_batch ?due rows)" and ?rows = "delete_batch ?due rows"
  have t: "\<not> t_exec_err t" "\<not> t_rows_err t" "\<not> t_stop t" "t_saved t = []" "T \<le> t_now t" using Cons.prems(1) by auto
  have len: "length ?rows + ?n = length rows" by (rule delete_batch_length [OF Cons.prems(2)])
  have due: "to_unix (T - wrapTTL) \<le> ?due" using t(5) by (intro to_unix_mono) simp
  show ?case
  proof (cases "?n < sweepBatch")
    case True
    have "?due < snd r" if "r \<in> set ?rows" for r
    proof (rule ccontr)
      assume "\<not> ?due < snd r"
      then have "r \<in> set (due_batch ?due rows)" using short_batch_all [OF True] that by (auto simp: delete_batch_def)
      then show False using that by (simp add: delete_batch_def)
    qed
    then show ?thesis using True t len due by (auto simp: Let_def intro: order_le_less_trans)
  next
    case False
    then have n: "?n = sweepBatch" by (simp add: due_batch_def)
    then have "length rows = sweepBatch + length ?rows" using len by simp
    then have "length ?rows div sweepBatch < length ts" using Cons.prems(3) by (simp add: sweepBatch_def)
    moreover have "ids_unique ?rows" using Cons.prems(2) by (simp add: delete_batch_def ids_unique_filter)
    ultimately obtain m rows' where "sweep ts ?rows (tot + sweepBatch) = Some (tot + sweepBatch + m, rows')"
      "m + length rows' = length ?rows" "\<forall>r \<in> set rows'. to_unix (T - wrapTTL) < snd r"
      using Cons.IH [of ?rows "tot + sweepBatch"] Cons.prems(1) by auto
    then show ?thesis using t n len
      by (intro exI [of _ "sweepBatch + m"] exI [of _ rows']) (simp add: Let_def)
  qed
qed simp

theorem sweep_ends_clean_witness:
  "\<exists>n rows'. sweep [example_turn] [(1, 50), (2, 150)] 0 = Some (n, rows') \<and> n + length rows' = 2 \<and>
     list_all (\<lambda>r. 100 < snd r) rows'"
  using sweep_ends_clean [of "[example_turn]" "wrapTTL + of_unix 100" "[(1, 50), (2, 150)]" 0]
  by (simp add: example_turn_def ids_unique_def sweepBatch_def list_all_iff numeral_2_eq_2)

section \<open>The relay of the direct messages\<close>

definition maxContentBytes :: nat where "maxContentBytes = 131072"
definition maxExpirySkew :: nanos where "maxExpirySkew = 2 * hour"
definition maxExpiry :: nanos where "maxExpiry = wrapTTL + 24 * hour + maxExpirySkew"
definition maxFutureSkew :: nanos where "maxFutureSkew = 15 * minute"
definition maxPastSkew :: nanos where "maxPastSkew = 3 * 24 * hour"
definition dmSweepBatch :: nat where "dmSweepBatch = 5000"

lemmas dm_consts = maxContentBytes_def maxExpirySkew_def maxExpiry_def maxFutureSkew_def maxPastSkew_def dmSweepBatch_def

text \<open>\<open>tagFind\<close> is \<open>Tags.Find\<close> of the nostr library: the first tag of that name with a value.\<close>

type_synonym tag_find = "string list list \<Rightarrow> string \<Rightarrow> string list option"

definition rejectEvent :: "tag_find \<Rightarrow> nanos \<Rightarrow> nevent \<Rightarrow> answer" where
  "rejectEvent tagFind now ev =
     (if evKind ev = 1059 then
        (if length (evContent ev) > maxContentBytes then Refused ''invalid: content too large''
         else if of_unix (createdAt ev) > now + maxFutureSkew then Refused ''invalid: created_at too far in the future''
         else if of_unix (createdAt ev) < now - maxPastSkew then Refused ''invalid: created_at too old''
         else if tagFind (evTags ev) ''p'' = None then Refused ''invalid: missing p tag''
         else case tagFind (evTags ev) ''expiration'' of
           None \<Rightarrow> Refused ''invalid: missing expiration tag''
         | Some e \<Rightarrow>
             (case ParseInt (e ! 1) of
                None \<Rightarrow> Refused ''invalid: bad expiration''
              | Some sec \<Rightarrow> if of_unix sec > now + maxExpiry then Refused ''invalid: bad expiration'' else Taken))
      else if evKind ev = 10050 then
        (if length (evContent ev) > 4096 then Refused ''invalid: content too large'' else Taken)
      else Refused ''blocked: kind not accepted here'')"

definition rejectFilter :: "string \<Rightarrow> nfilter \<Rightarrow> answer" where
  "rejectFilter authed f =
     (let touches1059 = fKinds f = [] \<or> 1059 \<in> set (fKinds f);
          only10050 = fKinds f \<noteq> [] \<and> list_all (\<lambda>k. k = 10050) (fKinds f)
      in if only10050 then Taken
         else if \<not> touches1059 then Refused ''blocked: kind not served here''
         else if authed = [] then Refused ''auth-required: gift wraps are only served to their owner''
         else case map_of (fTags f) ''p'' of
           None \<Rightarrow> Refused ''restricted: query must filter on your own p tag''
         | Some ps \<Rightarrow>
             if ps = [] then Refused ''restricted: query must filter on your own p tag''
             else if \<not> list_all (\<lambda>p. p = authed) ps then Refused ''restricted: can only query your own address''
             else Taken)"

definition expiredAt :: "tag_find \<Rightarrow> nevent \<Rightarrow> nanos option" where
  "expiredAt tagFind ev =
     (case tagFind (evTags ev) ''expiration'' of
        None \<Rightarrow> None
      | Some t \<Rightarrow> if length t < 2 then None else map_option of_unix (ParseInt (t ! 1)))"

definition dm_dead :: "tag_find \<Rightarrow> nanos \<Rightarrow> nevent \<Rightarrow> bool" where
  "dm_dead tagFind now ev \<longleftrightarrow>
     (case expiredAt tagFind ev of Some ex \<Rightarrow> ex < now | None \<Rightarrow> False) \<or> of_unix (createdAt ev) < now - wrapTTL"

text \<open>One pass: \<open>query\<close> is the store's answer to a kind and a limit, \<open>None\<close> when it fails, and \<open>delFails\<close> says which deletes do.
  The count is of what was due, deleted or not.\<close>

definition dm_sweep ::
  "tag_find \<Rightarrow> (int \<Rightarrow> nat \<Rightarrow> nevent list \<Rightarrow> nevent list option) \<Rightarrow> (nevent \<Rightarrow> bool) \<Rightarrow> nanos \<Rightarrow> nevent list \<Rightarrow> nat \<times> nevent list" where
  "dm_sweep tagFind query delFails now db =
     (case query 1059 dmSweepBatch db of
        None \<Rightarrow> (0, db)
      | Some evs \<Rightarrow>
          let dead = filter (dm_dead tagFind now) evs
          in (length dead, foldl (\<lambda>db ev. if delFails ev then db else filter (\<lambda>x. evID x \<noteq> evID ev) db) db dead))"

text \<open>What a filter asks for, as the protocol says: an event of its kinds that has a value of each of its tags.\<close>

definition filter_law :: "(nfilter \<Rightarrow> nevent \<Rightarrow> bool) \<Rightarrow> bool" where
  "filter_law matches \<longleftrightarrow> (\<forall>f ev. matches f ev \<longrightarrow>
     (fKinds f \<noteq> [] \<longrightarrow> evKind ev \<in> set (fKinds f)) \<and>
     (\<forall>(n, vs) \<in> set (fTags f). \<exists>t \<in> set (evTags ev). 2 \<le> length t \<and> t ! 0 = n \<and> t ! 1 \<in> set vs))"


definition nip01_matches :: "nfilter \<Rightarrow> nevent \<Rightarrow> bool" where
  "nip01_matches f ev \<longleftrightarrow> (fKinds f = [] \<or> evKind ev \<in> set (fKinds f)) \<and>
     list_all (\<lambda>(n, vs). list_ex (\<lambda>t. 2 \<le> length t \<and> t ! 0 = n \<and> t ! 1 \<in> set vs) (evTags ev)) (fTags f)"

definition own_filter :: nfilter where
  "own_filter = \<lparr>fIDs = [], fKinds = [1059], fAuthors = [], fTags = [(''p'', [''me''])], fSearch = [], fLimitZero = False\<rparr>"

definition own_wrap :: nevent where
  "own_wrap = \<lparr>evID = ''w'', pubKey = ''k'', createdAt = 0, evKind = 1059, evTags = [[''p'', ''me'']], evContent = []\<rparr>"


lemma filter_newest:
  "sorted_wrt (\<lambda>a b. f b \<le> f a) xs \<Longrightarrow> filter (\<lambda>e. m < f e) xs = takeWhile (\<lambda>e. m < (f e :: int)) xs"
proof (induction xs)
  case (Cons a xs)
  have "filter (\<lambda>e. m < f e) xs = []" if "\<not> m < f a"
  proof -
    have "\<not> m < f e" if "e \<in> set xs" for e using Cons.prems that \<open>\<not> m < f a\<close> by fastforce
    then show ?thesis by (simp add: filter_empty_conv)
  qed
  then show ?case using Cons by auto
qed simp

text \<open>C32. The sweep sees the newest 5,000 wraps only. With a store that answers a limit with the newest, as the
  protocol says, and that many live wraps newer than an expired one, a pass reports nothing and the expired wrap stays.\<close>

theorem dm_sweep_newest_only:
  assumes "query 1059 dmSweepBatch db = Some (take dmSweepBatch (rev (sort_key createdAt (filter (\<lambda>e. evKind e = 1059) db))))"
    and "old \<in> set db" and "L \<subseteq> {e \<in> set db. evKind e = 1059 \<and> createdAt old < createdAt e}"
    and "\<And>e. e \<in> set db \<Longrightarrow> evKind e = 1059 \<Longrightarrow> createdAt old < createdAt e \<Longrightarrow> \<not> dm_dead tagFind now e"
    and "dmSweepBatch \<le> card L"
  shows "dm_sweep tagFind query delFails now db = (0, db)"
proof -
  let ?ws = "filter (\<lambda>e. evKind e = 1059) db"
  let ?s = "rev (sort_key createdAt ?ws)" and ?young = "\<lambda>e. createdAt old < createdAt e"
  have sorted: "sorted_wrt (\<lambda>a b. createdAt b \<le> createdAt a) ?s"
    by (simp add: sorted_wrt_rev) (metis sorted_map sorted_sort_key)
  have "card L \<le> length (filter ?young ?s)"
  proof -
    have "L \<subseteq> set (filter ?young ?s)" using assms(3) by auto
    then have "card L \<le> card (set (filter ?young ?s))" by (intro card_mono) auto
    then show ?thesis using card_length [of "filter ?young ?s"] by linarith
  qed
  then have "dmSweepBatch \<le> length (takeWhile ?young ?s)" using assms(5) filter_newest [OF sorted] by simp
  then have "take dmSweepBatch ?s = take dmSweepBatch (takeWhile ?young ?s)"
    by (subst takeWhile_eq_take) (simp add: min_def)
  then have "\<not> dm_dead tagFind now e" if "e \<in> set (take dmSweepBatch ?s)" for e
    using that assms(4) by (auto dest!: in_set_takeD set_takeWhileD)
  then have "filter (dm_dead tagFind now) (take dmSweepBatch ?s) = []" by (simp add: filter_empty_conv)
  then show ?thesis using assms(1) by (simp add: dm_sweep_def)
qed


definition numbered_wrap :: "nat \<Rightarrow> nevent" where
  "numbered_wrap i = \<lparr>evID = show_nat i, pubKey = ''k'', createdAt = (if i = 0 then 0 else 2000000 + int i), evKind = 1059,
     evTags = [[''p'', ''me'']], evContent = []\<rparr>"

definition newest_of :: "int \<Rightarrow> nat \<Rightarrow> nevent list \<Rightarrow> nevent list option" where
  "newest_of kind n db = Some (take n (rev (sort_key createdAt (filter (\<lambda>e. evKind e = kind) db))))"

theorem dm_sweep_newest_only_witness:
  "dm_dead (\<lambda>_ _. None) (of_unix 2005000) (numbered_wrap 0) \<and>
   dm_sweep (\<lambda>_ _. None) newest_of (\<lambda>_. False) (of_unix 2005000) (map numbered_wrap [0..<5001]) = (0, map numbered_wrap [0..<5001])"
proof -
  let ?db = "map numbered_wrap [0..<5001]" and ?L = "numbered_wrap ` {1..<5001}"
  have t: "createdAt (numbered_wrap i) = (if i = 0 then 0 else 2000000 + int i)" "evKind (numbered_wrap i) = 1059" for i
    by (simp_all add: numbered_wrap_def)
  have "inj_on numbered_wrap {1..<5001}" using t(1) by (intro inj_onI) (metis add_left_cancel atLeastLessThan_iff not_one_le_zero of_nat_eq_iff)
  then have "card ?L = 5000" by (simp add: card_image)
  moreover have "?L \<subseteq> {e \<in> set ?db. evKind e = 1059 \<and> createdAt (numbered_wrap 0) < createdAt e}" by (auto simp: t)
  moreover have "\<not> dm_dead (\<lambda>_ _. None) (of_unix 2005000) e" if "createdAt (numbered_wrap 0) < createdAt e" "e \<in> set ?db" for e
    using that by (auto simp: t dm_dead_def expiredAt_def wrapTTL_def of_unix_def duration_defs split: if_splits)
  ultimately have "dm_sweep (\<lambda>_ _. None) newest_of (\<lambda>_. False) (of_unix 2005000) ?db = (0, ?db)"
    by (intro dm_sweep_newest_only [where old = "numbered_wrap 0" and L = ?L])
      (auto simp: newest_of_def dmSweepBatch_def simp del: upt_conv_Cons_Cons)
  then show ?thesis by (simp add: dm_dead_def t expiredAt_def wrapTTL_def of_unix_def duration_defs)
qed

end
