(* ===== verification/Handle_Text.thy ===== *)
theory Handle_Text
  imports Strconv Utf8
begin

text \<open>
  The handle registry's texts (\<open>server/handle/main.go\<close>): what a handle, an invite, a name and a query may look like, the
  messages an owner signs, and the words a key is known by. The url parser, sha-256, ed25519, the letters of unicode and
  the scan of a number are the library's; they are fields of \<open>hlib\<close>.
\<close>

section \<open>The library\<close>

record hurl =
  hScheme :: string
  hHost :: string
  hQuery :: "string \<Rightarrow> string"

record hlib =
  hParse :: "string \<Rightarrow> hurl option"
  hSha256 :: "string \<Rightarrow> string"
  hVerify :: "string \<Rightarrow> string \<Rightarrow> string \<Rightarrow> bool"
  hLower :: "string \<Rightarrow> string"
  hLetter :: "nat \<Rightarrow> bool"
  hDigit :: "nat \<Rightarrow> bool"
  hSscan :: "string \<Rightarrow> int option"
  wordList :: "string list"

section \<open>Handles and invites\<close>

definition handle_char :: "char \<Rightarrow> bool" where
  "handle_char c \<longleftrightarrow> c \<in> set ''abcdefghijklmnopqrstuvwxyz0123456789_''"

definition handleOK :: "string \<Rightarrow> bool" where
  "handleOK h \<longleftrightarrow> 3 \<le> length h \<and> length h \<le> 20 \<and> list_all handle_char h"

definition reserved :: "string list" where
  "reserved = [''admin'', ''kryfo'', ''support'', ''help'', ''root'', ''system'', ''official'', ''team'', ''security'', ''abuse'',
     ''handle'', ''api'', ''well'', ''static'', ''assets'', ''about'']"

definition maxInvite :: nat where "maxInvite = 1024"

definition invite_char :: "char \<Rightarrow> bool" where
  "invite_char c \<longleftrightarrow> (let n = of_char c :: nat in \<not> (n \<le> 32 \<or> n > 126 \<or> n = 34 \<or> n = 92))"

definition inviteOK :: "hlib \<Rightarrow> string \<Rightarrow> bool" where
  "inviteOK L s =
     (if s = [] \<or> length s > maxInvite then False
      else if \<not> list_all invite_char s then False
      else case hParse L s of
        None \<Rightarrow> False
      | Some u \<Rightarrow>
          if hScheme u \<noteq> ''kryfo'' \<or> hHost u \<noteq> ''share'' then False
          else let q = hQuery u
               in if q ''id'' = [] \<or> q ''onion'' = [] then False
                  else if q ''v'' = [] \<or> q ''v'' = ''1'' then q ''xpub'' \<noteq> []
                  else if q ''v'' = ''2'' \<or> q ''v'' = ''3'' then q ''bundle'' \<noteq> []
                  else False)"

section \<open>The words of a key\<close>

definition wordsOf :: "hlib \<Rightarrow> string \<Rightarrow> string" where
  "wordsOf L pubHex =
     (case hex_decode pubHex of
        None \<Rightarrow> []
      | Some pub \<Rightarrow>
          if length pub \<noteq> 32 \<or> length (wordList L) \<noteq> 2048 then []
          else let h = hSha256 L pub; b = (\<lambda>i. of_char (h ! i) :: nat);
                   bits = b 0 * 2 ^ 32 + b 1 * 2 ^ 24 + b 2 * 2 ^ 16 + b 3 * 2 ^ 8 + b 4; w = (\<lambda>n. wordList L ! (n mod 2048))
               in w (bits div 2 ^ 22) @ ''-'' @ w (bits div 2 ^ 11) @ ''-'' @ w bits)"

definition inviteIsKeys :: "hlib \<Rightarrow> string \<Rightarrow> string \<Rightarrow> bool" where
  "inviteIsKeys L invite pubHex =
     (case hParse L invite of
        None \<Rightarrow> False
      | Some u \<Rightarrow> let w = wordsOf L pubHex in w \<noteq> [] \<and> hQuery u ''id'' = w)"

definition fingerprint :: "string \<Rightarrow> string" where
  "fingerprint pub =
     (let p = map (\<lambda>c. let n = of_char c :: nat in if 97 \<le> n \<and> n \<le> 122 then char_of (n - 32) else c) pub
      in if length p < 8 then [] else take 4 p @ '' '' @ take 4 (drop 4 p))"

section \<open>What an owner signs\<close>

definition verifyMsg :: "hlib \<Rightarrow> string \<Rightarrow> string \<Rightarrow> string \<Rightarrow> bool" where
  "verifyMsg L pubHex sigHex msg =
     (case hex_decode pubHex of
        None \<Rightarrow> False
      | Some pub \<Rightarrow>
          if length pub \<noteq> 32 then False
          else case hex_decode sigHex of
            None \<Rightarrow> False
          | Some sg \<Rightarrow> if length sg \<noteq> 64 then False else hVerify L pub msg sg)"

definition verify_v1 :: "hlib \<Rightarrow> string \<Rightarrow> string \<Rightarrow> string \<Rightarrow> bool" where
  "verify_v1 L h pubHex sigHex = verifyMsg L pubHex sigHex (''kryfo-handle-v1:'' @ h)"

definition claimMsgV2 :: "hlib \<Rightarrow> string \<Rightarrow> string \<Rightarrow> int \<Rightarrow> string" where
  "claimMsgV2 L h invite ts = ''kryfo-handle-claim-v2:'' @ h @ '':'' @ hex_encode (hSha256 L invite) @ '':'' @ Itoa ts"

definition releaseMsgV2 :: "string \<Rightarrow> int \<Rightarrow> string" where
  "releaseMsgV2 h ts = ''kryfo-handle-release-v2:'' @ h @ '':'' @ Itoa ts"

definition listingMsg :: "string \<Rightarrow> bool \<Rightarrow> int \<Rightarrow> string \<Rightarrow> string" where
  "listingMsg h listed ts name =
     ''kryfo-handle-list-v1:'' @ h @ '':'' @ (if listed then ''1'' else ''0'') @ '':'' @ Itoa ts @ '':'' @ name"

text \<open>Seconds a signed change may be off the clock.\<close>

definition signSkew :: int where "signSkew = 600"
definition listingSkew :: int where "listingSkew = 600"

text \<open>\<open>checkSig\<close>: the time on a signed change, whether it carries one, and why it is refused; \<open>raw\<close> is the request's fields.\<close>

definition checkSig ::
  "hlib \<Rightarrow> bool \<Rightarrow> nanos \<Rightarrow> (string \<Rightarrow> string) \<Rightarrow> string \<Rightarrow> (int \<Rightarrow> string) \<Rightarrow> int \<times> bool \<times> string" where
  "checkSig L acceptV1 now raw h msgV2 =
     (if raw ''v'' = ''2'' then
        (case hSscan L (raw ''ts'') of
           None \<Rightarrow> (0, True, ''bad request'')
         | Some ts \<Rightarrow>
             if ts < to_unix now - signSkew \<or> ts > to_unix now + signSkew then (0, True, ''check the phone's clock'')
             else if \<not> verifyMsg L (raw ''pubkey'') (raw ''sig'') (msgV2 ts) then (0, True, ''signature does not match'')
             else (ts, True, []))
      else if raw ''v'' = [] \<or> raw ''v'' = ''1'' then
        (if \<not> acceptV1 then (0, False, ''update the app'')
         else if \<not> verify_v1 L h (raw ''pubkey'') (raw ''sig'') then (0, False, ''signature does not match'')
         else (0, False, []))
      else (0, False, ''bad request''))"

section \<open>Names and queries\<close>

definition nameMax :: nat where "nameMax = 40"

text \<open>A rune no name shows: a control character or one that turns the direction of the text.\<close>

definition hidden_rune :: "nat \<Rightarrow> bool" where
  "hidden_rune r \<longleftrightarrow> IsControl r \<or> r = 0x200E \<or> r = 0x200F \<or> 0x202A \<le> r \<and> r \<le> 0x202E \<or> 0x2066 \<le> r \<and> r \<le> 0x2069"

text \<open>The loop of \<open>cleanName\<close>: the runes so far, whether a space was last, and the count it stops at.\<close>

fun clean_runes :: "nat list \<Rightarrow> nat list \<Rightarrow> bool \<Rightarrow> nat \<Rightarrow> nat list" where
  "clean_runes [] b sp n = b"
| "clean_runes (r # rs) b sp n =
     (if IsSpace r then
        (if \<not> sp \<and> b \<noteq> [] then clean_runes rs (b @ [0x20]) True (n + 1) else clean_runes rs b True n)
      else if hidden_rune r then clean_runes rs b sp n
      else if n + 1 \<ge> nameMax then b @ [r]
      else clean_runes rs (b @ [r]) False (n + 1))"

definition cleanName :: "string \<Rightarrow> string" where
  "cleanName s = TrimSpaceU (rune_string (clean_runes (runes (TrimSpaceU s)) [] False 0))"

text \<open>The loop of \<open>searchQuery\<close>: how many runes and how many of them letters or digits, or nothing at another character.\<close>

fun query_runes :: "hlib \<Rightarrow> nat list \<Rightarrow> nat \<Rightarrow> nat \<Rightarrow> (nat \<times> nat) option" where
  "query_runes L [] n alnum = Some (n, alnum)"
| "query_runes L (r # rs) n alnum =
     (if hLetter L r \<or> hDigit L r then query_runes L rs (n + 1) (alnum + 1)
      else if r = 0x20 \<or> r = 0x5F \<or> r = 0x2D \<or> r = 0x2E then query_runes L rs (n + 1) alnum
      else None)"

definition join_words :: "string list \<Rightarrow> string" where
  "join_words ws = (case ws of [] \<Rightarrow> [] | w # ws \<Rightarrow> w @ concat (map (\<lambda>v. '' '' @ v) ws))"

definition searchQuery :: "hlib \<Rightarrow> string \<Rightarrow> string \<times> bool" where
  "searchQuery L raw =
     (let q = hLower L (TrimSpaceU raw);
          q = (if has_prefix q ''@'' then drop 1 q else q);
          q = join_words (FieldsU q)
      in case query_runes L (runes q) 0 0 of
           None \<Rightarrow> ([], False)
         | Some (n, alnum) \<Rightarrow> (q, n \<ge> 3 \<and> n \<le> 32 \<and> alnum \<ge> 3))"

section \<open>What a cleaned name looks like\<close>

definition trim_runes :: "nat list \<Rightarrow> nat list" where
  "trim_runes rs = rev (dropWhile IsSpace (rev (dropWhile IsSpace rs)))"

lemma trim_parts_map:
  "trim_parts (map (\<lambda>r. (r, f r)) rs) = map (\<lambda>r. (r, f r)) (trim_runes rs)"
  by (simp add: trim_parts_def trim_runes_def dropWhile_map rev_map comp_def)

lemma TrimSpaceU_rune_string:
  assumes "list_all rune_ok rs"
  shows "TrimSpaceU (rune_string rs) = rune_string (trim_runes rs)"
proof -
  have "b < 256" if "b \<in> set (concat (map rune_bytes rs))" for b using that assms rune_bytes_small by (auto simp: list_all_iff)
  then have "bytes_of (rune_string rs) = concat (map rune_bytes rs)"
    unfolding bytes_of_def rune_string_def map_map by (intro map_idI) (simp add: of_char_char_of)
  then have "rune_parts (bytes_of (rune_string rs)) = map (\<lambda>r. (r, rune_bytes r)) rs" using rune_parts_all [OF assms] by simp
  then show ?thesis by (simp add: TrimSpaceU_def trim_parts_map parts_string_def rune_string_def comp_def)
qed

text \<open>A run of runes with single spaces only, nothing hidden and no space in front.\<close>

fun single_spaced :: "nat list \<Rightarrow> bool" where
  "single_spaced (a # b # rs) \<longleftrightarrow> \<not> (IsSpace a \<and> IsSpace b) \<and> single_spaced (b # rs)"
| "single_spaced rs \<longleftrightarrow> True"

definition shown :: "nat list \<Rightarrow> bool" where
  "shown rs \<longleftrightarrow> single_spaced rs \<and> (\<forall>r \<in> set rs. rune_ok r \<and> \<not> hidden_rune r \<and> (IsSpace r \<longrightarrow> r = 0x20)) \<and> (rs \<noteq> [] \<longrightarrow> \<not> IsSpace (hd rs))"

lemma single_spaced_snoc: "single_spaced (xs @ [r]) \<longleftrightarrow> single_spaced xs \<and> (xs \<noteq> [] \<longrightarrow> \<not> (IsSpace (last xs) \<and> IsSpace r))"
  by (induction xs rule: single_spaced.induct) auto

lemma single_spaced_prefix: "single_spaced (xs @ ys) \<Longrightarrow> single_spaced xs"
  by (induction ys arbitrary: xs rule: rev_induct) (auto simp: single_spaced_snoc simp flip: append_assoc)

lemma space_facts: "IsSpace 0x20" "\<not> hidden_rune 0x20" "rune_ok 0x20"
  by (simp_all add: IsSpace_def hidden_rune_def IsControl_def rune_ok_def)

lemma clean_runes_shown:
  assumes "list_all rune_ok rs" and "shown b" and "b \<noteq> [] \<longrightarrow> (sp \<longleftrightarrow> IsSpace (last b))" and "n = length b" and "n < nameMax \<or> n = nameMax \<and> sp"
    and "b = [] \<longrightarrow> n < nameMax"
  shows "shown (clean_runes rs b sp n) \<and> length (clean_runes rs b sp n) \<le> nameMax + 1"
  using assms
proof (induction rs b sp n rule: clean_runes.induct)
  case (2 r rs b sp n)
  have add: "shown (b @ [q])" if "rune_ok q" "\<not> hidden_rune q" "IsSpace q \<longrightarrow> q = 0x20 \<and> b \<noteq> [] \<and> \<not> IsSpace (last b)" for q
    using "2.prems"(2) that by (auto simp: shown_def single_spaced_snoc hd_append)
  consider (skip) "IsSpace r" "sp \<or> b = []" | (space) "IsSpace r" "\<not> sp" "b \<noteq> []" | (hide) "\<not> IsSpace r" "hidden_rune r"
    | (stop) "\<not> IsSpace r" "\<not> hidden_rune r" "nameMax \<le> n + 1" | (go) "\<not> IsSpace r" "\<not> hidden_rune r" "n + 1 < nameMax"
    by linarith
  then show ?case
  proof cases
    case skip
    then show ?thesis using 2 by auto
  next
    case space
    have "Suc (length b) < nameMax \<or> Suc (length b) = nameMax" using "2.prems"(4,5) space by auto
    then show ?thesis using space 2 add [of "0x20"] space_facts by auto
  next
    case hide
    then show ?thesis using 2 by auto
  next
    case stop
    then show ?thesis using "2.prems" add [of r] by auto
  next
    case go
    then show ?thesis using 2 add [of r] by auto
  qed
qed (auto simp: nameMax_def)

lemma trim_shown:
  assumes "shown rs"
  shows "shown (trim_runes rs)" and "length (trim_runes rs) \<le> length rs" and "trim_runes rs \<noteq> [] \<Longrightarrow> \<not> IsSpace (last (trim_runes rs))"
proof -
  have "dropWhile IsSpace rs = rs" using assms by (cases rs) (auto simp: shown_def)
  then have t: "trim_runes rs = rev (dropWhile IsSpace (rev rs))" by (simp add: trim_runes_def)
  have "rev (takeWhile IsSpace (rev rs) @ dropWhile IsSpace (rev rs)) = rs" by simp
  then have "trim_runes rs @ rev (takeWhile IsSpace (rev rs)) = rs" unfolding t by (simp only: rev_append)
  then obtain ys where split: "rs = trim_runes rs @ ys" by metis
  have "single_spaced (trim_runes rs @ ys)" using assms split by (simp add: shown_def)
  then have "single_spaced (trim_runes rs)" by (rule single_spaced_prefix)
  moreover have sub: "set (trim_runes rs) \<subseteq> set rs" by (subst (2) split) simp
  moreover have "hd (trim_runes rs) = hd rs" if "trim_runes rs \<noteq> []" by (subst (2) split) (use that in simp)
  moreover have "rs \<noteq> []" if "trim_runes rs \<noteq> []" using sub that by auto
  ultimately show "shown (trim_runes rs)" using assms by (auto simp: shown_def)
  show "length (trim_runes rs) \<le> length rs" by (subst (2) split) simp
  show "\<not> IsSpace (last (trim_runes rs))" if "trim_runes rs \<noteq> []"
    using that hd_dropWhile [of IsSpace "rev rs"] unfolding t by (simp add: last_rev)
qed

lemma cleanName_shape:
  "shown (runes (cleanName s)) \<and> length (runes (cleanName s)) \<le> 41 \<and>
   (cleanName s = [] \<or> \<not> IsSpace (last (runes (cleanName s))))"
proof -
  let ?rs = "clean_runes (runes (TrimSpaceU s)) [] False 0"
  have sh: "shown ?rs" "length ?rs \<le> nameMax + 1"
    using clean_runes_shown [OF runes_ok, of "[]" False 0 "TrimSpaceU s"] by (simp_all add: shown_def nameMax_def)
  then have "list_all rune_ok ?rs" by (simp add: shown_def list_all_iff)
  then have c: "cleanName s = rune_string (trim_runes ?rs)" by (simp add: cleanName_def TrimSpaceU_rune_string)
  have ok: "list_all rune_ok (trim_runes ?rs)" using trim_shown(1) [OF sh(1)] by (simp add: shown_def list_all_iff)
  have r: "runes (cleanName s) = trim_runes ?rs" unfolding c by (rule runes_rune_string [OF ok])
  have len: "length (trim_runes ?rs) \<le> 41" using trim_shown(2) [OF sh(1)] sh(2) by (simp add: nameMax_def)
  have none: "cleanName s = []" if "trim_runes ?rs = []" using that c by (simp add: rune_string_def)
  show ?thesis unfolding r using trim_shown(1,3) [OF sh(1)] len none by blast
qed

text \<open>A name as search shows it has single spaces only, none at its ends, and no control character and nothing that turns
  the direction of the text, whatever was given; it has at most forty-one characters.\<close>

theorem cleanName_shown:
  "shown (runes (cleanName s)) \<and> length (runes (cleanName s)) \<le> 41 \<and>
   (cleanName s = [] \<or> \<not> IsSpace (last (runes (cleanName s))))"
  by (rule cleanName_shape)

text \<open>The forty-first: a space that comes fortieth is not counted against the limit, so one more rune follows it.\<close>

lemma clean_runes_plain:
  "\<not> IsSpace r \<Longrightarrow> \<not> hidden_rune r \<Longrightarrow> n + k < nameMax \<Longrightarrow> 0 < k \<Longrightarrow>
     clean_runes (replicate k r @ rs) b sp n = clean_runes rs (b @ replicate k r) False (n + k)"
proof (induction k arbitrary: b sp n)
  case (Suc k)
  then show ?case by (cases "k = 0") (simp_all add: replicate_append_same)
qed simp

theorem cleanName_forty_one: "length (runes (cleanName (rune_string (replicate 39 97 @ [32, 120])))) = 41"
proof -
  let ?rs = "replicate 39 (97::nat) @ [32, 120]"
  have ok: "list_all rune_ok ?rs" by (simp add: rune_ok_def list_all_iff)
  have plain: "\<not> IsSpace 97" "\<not> hidden_rune 97" "\<not> IsSpace 120" "\<not> hidden_rune 120" by (simp_all add: IsSpace_def hidden_rune_def IsControl_def)
  have trim: "trim_runes ?rs = ?rs" using plain by (simp add: trim_runes_def dropWhile_append)
  have "clean_runes ?rs [] False 0 = ?rs"
    using clean_runes_plain [OF plain(1,2), of 0 39 "[32, 120]" "[]" False] plain space_facts by (simp add: nameMax_def)
  then have "cleanName (rune_string ?rs) = rune_string ?rs"
    unfolding cleanName_def TrimSpaceU_rune_string [OF ok] trim runes_rune_string [OF ok] by (simp only: TrimSpaceU_rune_string [OF ok] trim)
  then show ?thesis by (simp only: runes_rune_string [OF ok]) simp
qed

section \<open>What is searched for\<close>

lemma query_runes_exact:
  "query_runes L rs n a = Some (n', a') \<longleftrightarrow>
     (\<forall>r \<in> set rs. hLetter L r \<or> hDigit L r \<or> r \<in> {0x20, 0x5F, 0x2D, 0x2E}) \<and> n' = n + length rs \<and>
     a' = a + length (filter (\<lambda>r. hLetter L r \<or> hDigit L r) rs)"
  by (induction L rs n a rule: query_runes.induct) auto

text \<open>A query that is searched for has three to thirty-two characters, at least three of them letters or digits and
  the rest single characters out of space, underscore, hyphen and dot: no wildcard passes, and no query shorter than
  three characters sweeps the list.\<close>

theorem searchQuery_narrow:
  assumes "searchQuery L raw = (q, True)"
  shows "3 \<le> length (runes q) \<and> length (runes q) \<le> 32 \<and>
    (\<forall>r \<in> set (runes q). hLetter L r \<or> hDigit L r \<or> r \<in> {0x20, 0x5F, 0x2D, 0x2E}) \<and>
    3 \<le> length (filter (\<lambda>r. hLetter L r \<or> hDigit L r) (runes q))"
  using assms by (auto simp: searchQuery_def Let_def query_runes_exact split: option.splits)

definition ascii_lib :: hlib where
  "ascii_lib = \<lparr>hParse = (\<lambda>s. if has_prefix s ''kryfo://share?'' then Some \<lparr>hScheme = ''kryfo'', hHost = ''share'',
       hQuery = (\<lambda>n. if n = ''id'' then ''a-a-a'' else if n = ''v'' then [] else ''x'')\<rparr> else None),
     hSha256 = (\<lambda>s. replicate 32 (CHR 0x00)), hVerify = (\<lambda>pub msg sg. True), hLower = to_lower,
     hLetter = (\<lambda>r. 97 \<le> r \<and> r \<le> 122), hDigit = (\<lambda>r. 48 \<le> r \<and> r \<le> 57), hSscan = ParseInt, wordList = replicate 2048 ''a''\<rparr>"

lemma example_chars:
  "char_of (64::nat) = CHR ''@''" "char_of (97::nat) = CHR ''a''" "char_of (100::nat) = CHR ''d''" "char_of (108::nat) = CHR ''l''"
  "char_of (46::nat) = CHR ''.''"
  by code_simp+

lemma example_query: "searchQuery ascii_lib '' @Ada  L. '' = (''ada l.'', True)"
  by (simp add: searchQuery_def ascii_lib_def TrimSpaceU_def FieldsU_def bytes_of_def rune_parts_ascii trim_parts_def parts_string_def
      IsSpace_def to_lower_def lower_char_def has_prefix_def join_words_def runes_def example_chars Let_def)

theorem searchQuery_narrow_witness:
  "searchQuery ascii_lib '' @Ada  L. '' = (''ada l.'', True) \<and> 3 \<le> length (runes ''ada l.'') \<and> length (runes ''ada l.'') \<le> 32"
  using searchQuery_narrow [OF example_query] example_query by blast

end
