(* ===== verification/Handle_Registry.thy ===== *)
theory Handle_Registry
  imports Handle_Text Bucket
begin

text \<open>
  The handle registry (\<open>server/handle/main.go\<close>): its store, the changes of one handle under the store's lock, the write of the
  file after them, and the handlers of the checks, claims, releases and listings. A request is its method
  and its decoded fields; the readings of the clock and which call of a write of the file fails are arguments.
\<close>

section \<open>The store\<close>

record entry =
  e_handle :: string
  e_invite :: string
  e_bio :: string
  e_pubkey :: string
  e_claimedAt :: unix
  e_signedAt :: unix
  e_listed :: bool
  e_name :: string
  e_listedAt :: unix

text \<open>The file on disk and the limiters of the service are part of the state.\<close>

record hstore =
  hm :: "string \<rightharpoonup> entry"
  hgone :: "string \<rightharpoonup> unix"
  hgen :: nat
  hsaved :: nat
  hfile :: "string \<rightharpoonup> entry"
  readLim :: limiter
  writeLim :: limiter
  newNameLim :: limiter

definition maxHandles :: nat where "maxHandles = 100000"

text \<open>A file that is not there yet starts an empty registry; one that cannot be read or parsed stops it.\<close>

datatype file_read = FileMissing | FileBad | FileHolds "string \<rightharpoonup> entry"

definition new_store :: "nanos \<Rightarrow> (string \<rightharpoonup> entry) \<Rightarrow> hstore" where
  "new_store now m = \<lparr>hm = m, hgone = Map.empty, hgen = 0, hsaved = 0, hfile = m, readLim = newLimiter now 50 200,
     writeLim = newLimiter now 5 50, newNameLim = newLimiter now (1 / 5) 20\<rparr>"

definition loadStore :: "nanos \<Rightarrow> file_read \<Rightarrow> hstore option" where
  "loadStore now f = (case f of
     FileMissing \<Rightarrow> Some (new_store now Map.empty)
   | FileBad \<Rightarrow> None
   | FileHolds m \<Rightarrow> Some (new_store now m))"

text \<open>What a change of one handle leaves: why it was refused, whether something changed, and the store.\<close>

datatype refusal = Refusal nat string

type_synonym change = "refusal option \<times> bool \<times> hstore"

definition tx_put :: "string \<Rightarrow> entry \<Rightarrow> hstore \<Rightarrow> hstore" where
  "tx_put h e s = s\<lparr>hm := (hm s)(h \<mapsto> e\<lparr>e_handle := h\<rparr>)\<rparr>"

definition tx_del :: "nanos \<Rightarrow> string \<Rightarrow> unix \<Rightarrow> hstore \<Rightarrow> hstore" where
  "tx_del now h ts s =
     (let old = to_unix now - 2 * signSkew
      in s\<lparr>hm := (hm s)(h := None),
           hgone := (\<lambda>k. case hgone s k of Some v \<Rightarrow> if v < old then None else Some v | None \<Rightarrow> None)(h \<mapsto> ts)\<rparr>)"

definition goneAt :: "string \<Rightarrow> hstore \<Rightarrow> unix" where
  "goneAt h s = (case hgone s h of Some v \<Rightarrow> v | None \<Rightarrow> 0)"

text \<open>
  \<open>writeStore\<close>: the calls it makes, in their order. The first that fails ends it with its error; from the rename on the file
  is the new one whatever comes after. \<open>None\<close> is a write in which nothing fails.
\<close>

datatype write_call = OpenTmp | Encode | SyncTmp | CloseTmp | Rename | OpenDir | SyncDir | CloseDir

type_synonym fate = "write_call option"

definition writeStore :: "fate \<Rightarrow> (string \<rightharpoonup> entry) \<Rightarrow> (string \<rightharpoonup> entry) \<Rightarrow> bool \<times> (string \<rightharpoonup> entry)" where
  "writeStore fate m file =
     (case fate of
        Some OpenTmp \<Rightarrow> (False, file)
      | Some Encode \<Rightarrow> (False, file)
      | Some SyncTmp \<Rightarrow> (False, file)
      | Some CloseTmp \<Rightarrow> (False, file)
      | Some Rename \<Rightarrow> (False, file)
      | Some OpenDir \<Rightarrow> (False, m)
      | Some SyncDir \<Rightarrow> (False, m)
      | Some CloseDir \<Rightarrow> (False, m)
      | None \<Rightarrow> (True, m))"

text \<open>\<open>save\<close>: what is written is the registry as it is then.\<close>

definition save :: "fate \<Rightarrow> nat \<Rightarrow> hstore \<Rightarrow> bool \<times> hstore" where
  "save wr gen s =
     (if hsaved s \<ge> gen then (True, s)
      else let snap = hm s; at_gen = hgen s; (ok, f) = writeStore wr snap (hfile s); s = s\<lparr>hfile := f\<rparr>
           in if \<not> ok then (False, s) else (True, s\<lparr>hsaved := at_gen\<rparr>))"

text \<open>\<open>update\<close> up to the write, with the generation the write must reach; and the answer after it.\<close>

datatype reply = Ok | Refuse nat string

definition update_change :: "(hstore \<Rightarrow> change) \<Rightarrow> hstore \<Rightarrow> refusal option \<times> bool \<times> nat \<times> hstore" where
  "update_change f s =
     (let (err, changed, s) = f s; s = (if changed then s\<lparr>hgen := hgen s + 1\<rparr> else s) in (err, changed, hgen s, s))"

definition update :: "fate \<Rightarrow> (hstore \<Rightarrow> change) \<Rightarrow> hstore \<Rightarrow> reply \<times> hstore" where
  "update wr f s =
     (let (err, changed, gen, s) = update_change f s
      in case err of
           Some (Refusal code msg) \<Rightarrow>
             if \<not> changed then (Refuse code msg, s)
             else let (ok, s) = save wr gen s in (Refuse code msg, s)
         | None \<Rightarrow>
             let (ok, s) = save wr gen s in (if ok then Ok else Refuse 200 ''could not save'', s))"

section \<open>The changes\<close>

text \<open>The function of a claim, under the lock.\<close>

definition claim_tx :: "nanos \<Rightarrow> entry \<Rightarrow> unix \<Rightarrow> bool \<Rightarrow> hstore \<Rightarrow> change" where
  "claim_tx now inp ts v2 s =
     (let h = e_handle inp;
          finish = (\<lambda>inp s. let inp = (if v2 then inp\<lparr>e_signedAt := ts\<rparr> else inp); inp = inp\<lparr>e_claimedAt := to_unix now\<rparr>
                            in (None, True, tx_put h inp s))
      in case hm s h of
           Some old \<Rightarrow>
             if e_pubkey old \<noteq> e_pubkey inp then (Some (Refusal 200 ''that handle is taken''), False, s)
             else if e_signedAt old > 0 \<and> \<not> v2 then (Some (Refusal 200 ''update the app''), False, s)
             else if v2 \<and> ts < e_signedAt old then (Some (Refusal 200 ''an older change''), False, s)
             else if e_invite old = e_invite inp \<and> e_bio old = e_bio inp \<and> (\<not> v2 \<or> e_signedAt old > 0) then (None, False, s)
             else finish (inp\<lparr>e_listed := e_listed old, e_name := e_name old, e_listedAt := e_listedAt old, e_signedAt := e_signedAt old\<rparr>) s
         | None \<Rightarrow>
             if goneAt h s > 0 \<and> (\<not> v2 \<or> ts \<le> goneAt h s) then (Some (Refusal 200 ''an older change''), False, s)
             else if card (dom (hm s)) \<ge> maxHandles then (Some (Refusal 503 ''the registry is full''), False, s)
             else let (ok, l) = allow (newNameLim s) now; s = s\<lparr>newNameLim := l\<rparr>
                  in if \<not> ok then (Some (Refusal 429 ''slow down''), False, s) else finish inp s)"

definition release_tx :: "nanos \<Rightarrow> string \<Rightarrow> string \<Rightarrow> unix \<Rightarrow> bool \<Rightarrow> string \<Rightarrow> hstore \<Rightarrow> change" where
  "release_tx now h pubkey ts v2 why s =
     (case hm s h of
        None \<Rightarrow> (None, False, s)
      | Some e \<Rightarrow>
          if why = ''signature does not match'' \<or> e_pubkey e \<noteq> pubkey then (Some (Refusal 200 ''not yours to release''), False, s)
          else if why \<noteq> [] then (Some (Refusal 200 why), False, s)
          else if e_signedAt e > 0 \<and> \<not> v2 then (Some (Refusal 200 ''update the app''), False, s)
          else if v2 \<and> ts < e_signedAt e then (Some (Refusal 200 ''an older change''), False, s)
          else (None, True, tx_del now h ts s))"

definition listing_tx :: "nanos \<Rightarrow> string \<Rightarrow> int option \<Rightarrow> string \<Rightarrow> string \<Rightarrow> string \<Rightarrow> bool \<Rightarrow> hstore \<Rightarrow> change" where
  "listing_tx now h tso listed pubkey name signed s =
     (let ts = (case tso of Some ts \<Rightarrow> ts | None \<Rightarrow> 0)
      in case hm s h of
        None \<Rightarrow> (Some (Refusal 200 ''no such handle''), False, s)
      | Some e \<Rightarrow>
          if tso = None then (Some (Refusal 200 ''bad request''), False, s)
          else if ts < to_unix now - listingSkew \<or> ts > to_unix now + listingSkew
            then (Some (Refusal 200 ''check the phone's clock''), False, s)
          else if ts \<le> e_listedAt e then (Some (Refusal 200 ''an older change''), False, s)
          else if listed \<noteq> ''1'' \<and> listed \<noteq> ''0'' then (Some (Refusal 200 ''bad request''), False, s)
          else if e_pubkey e \<noteq> pubkey \<or> \<not> signed then (Some (Refusal 200 ''not yours to change''), False, s)
          else (None, True, tx_put h (e\<lparr>e_listed := (listed = ''1''), e_listedAt := ts,
                  e_name := (if listed = ''1'' then cleanName name else [])\<rparr>) s))"

section \<open>The handlers\<close>

text \<open>A body that does not decode is \<open>None\<close>; a field that is missing is empty.\<close>

record request =
  rq_post :: bool
  rq_fields :: "(string \<Rightarrow> string) option"

definition norm_handle :: "hlib \<Rightarrow> string \<Rightarrow> string" where
  "norm_handle L s = hLower L (TrimSpaceU s)"

text \<open>A claim up to its change: refused, or the entry it asks for with the time on it and whether it carries one.\<close>

definition claim_checked ::
  "hlib \<Rightarrow> bool \<Rightarrow> nanos \<Rightarrow> nanos \<Rightarrow> request \<Rightarrow> hstore \<Rightarrow> (reply + entry \<times> unix \<times> bool) \<times> hstore" where
  "claim_checked L acceptV1 t1 t2 rq s =
     (if \<not> rq_post rq then (Inl (Refuse 200 ''post only''), s)
      else case rq_fields rq of
        None \<Rightarrow> (Inl (Refuse 200 ''bad request''), s)
      | Some raw \<Rightarrow>
          let inp = \<lparr>e_handle = norm_handle L (raw ''handle''), e_invite = raw ''invite'', e_bio = raw ''bio'', e_pubkey = raw ''pubkey'',
                     e_claimedAt = 0, e_signedAt = 0, e_listed = False, e_name = [], e_listedAt = 0\<rparr>
          in if \<not> handleOK (e_handle inp) \<or> e_handle inp \<in> set reserved then (Inl (Refuse 200 ''that handle is not available''), s)
             else if \<not> inviteOK L (e_invite inp) then (Inl (Refuse 400 ''bad invite''), s)
             else let inp = inp\<lparr>e_bio := (if length (e_bio inp) > 200 then take 200 (e_bio inp) else e_bio inp)\<rparr>;
                      (ok, l) = allow (writeLim s) t1; s = s\<lparr>writeLim := l\<rparr>
                  in if \<not> ok then (Inl (Refuse 429 ''slow down''), s)
                     else let (ts, v2, why) = checkSig L acceptV1 t2 raw (e_handle inp) (claimMsgV2 L (e_handle inp) (e_invite inp))
                          in if why \<noteq> [] then (Inl (Refuse 200 why), s)
                             else if \<not> inviteIsKeys L (e_invite inp) (e_pubkey inp) then (Inl (Refuse 200 ''the invite is not yours''), s)
                             else (Inr (inp, ts, v2), s))"

definition claim :: "hlib \<Rightarrow> bool \<Rightarrow> nanos \<times> nanos \<times> nanos \<Rightarrow> fate \<Rightarrow> request \<Rightarrow> hstore \<Rightarrow> reply \<times> hstore" where
  "claim L acceptV1 = (\<lambda>(t1, t2, t3) wr rq s.
     case claim_checked L acceptV1 t1 t2 rq s of
       (Inl r, s) \<Rightarrow> (r, s)
     | (Inr (inp, ts, v2), s) \<Rightarrow> update wr (claim_tx t3 inp ts v2) s)"

text \<open>A release up to its change: the handle, the key, the time, whether it is signed, and why the signature is refused.\<close>

definition release_checked ::
  "hlib \<Rightarrow> bool \<Rightarrow> nanos \<Rightarrow> nanos \<Rightarrow> request \<Rightarrow> hstore \<Rightarrow> (reply + string \<times> string \<times> unix \<times> bool \<times> string) \<times> hstore" where
  "release_checked L acceptV1 t1 t2 rq s =
     (if \<not> rq_post rq then (Inl (Refuse 200 ''post only''), s)
      else case rq_fields rq of
        None \<Rightarrow> (Inl (Refuse 200 ''bad request''), s)
      | Some raw \<Rightarrow>
          let (ok, l) = allow (writeLim s) t1; s = s\<lparr>writeLim := l\<rparr>
          in if \<not> ok then (Inl (Refuse 429 ''slow down''), s)
             else let h = norm_handle L (raw ''handle'');
                      (ts, v2, why) = checkSig L acceptV1 t2 raw h (releaseMsgV2 h);
                      ts = (if v2 then ts else to_unix t2)
                  in (Inr (h, raw ''pubkey'', ts, v2, why), s))"

definition release :: "hlib \<Rightarrow> bool \<Rightarrow> nanos \<times> nanos \<times> nanos \<Rightarrow> fate \<Rightarrow> request \<Rightarrow> hstore \<Rightarrow> reply \<times> hstore" where
  "release L acceptV1 = (\<lambda>(t1, t2, t3) wr rq s.
     case release_checked L acceptV1 t1 t2 rq s of
       (Inl r, s) \<Rightarrow> (r, s)
     | (Inr (h, pubkey, ts, v2, why), s) \<Rightarrow> update wr (release_tx t3 h pubkey ts v2 why) s)"

definition listing_checked ::
  "hlib \<Rightarrow> nanos \<Rightarrow> request \<Rightarrow> hstore \<Rightarrow> (reply + string \<times> int option \<times> (string \<Rightarrow> string) \<times> bool) \<times> hstore" where
  "listing_checked L t1 rq s =
     (if \<not> rq_post rq then (Inl (Refuse 200 ''post only''), s)
      else case rq_fields rq of
        None \<Rightarrow> (Inl (Refuse 200 ''bad request''), s)
      | Some raw \<Rightarrow>
          let (ok, l) = allow (writeLim s) t1; s = s\<lparr>writeLim := l\<rparr>
          in if \<not> ok then (Inl (Refuse 429 ''slow down''), s)
             else let h = norm_handle L (raw ''handle''); tso = hSscan L (raw ''ts'');
                      ts = (case tso of Some ts \<Rightarrow> ts | None \<Rightarrow> 0);
                      signed = verifyMsg L (raw ''pubkey'') (raw ''sig'') (listingMsg h (raw ''listed'' = ''1'') ts (raw ''name''))
                  in (Inr (h, tso, raw, signed), s))"

definition listing :: "hlib \<Rightarrow> nanos \<times> nanos \<Rightarrow> fate \<Rightarrow> request \<Rightarrow> hstore \<Rightarrow> reply \<times> hstore" where
  "listing L = (\<lambda>(t1, t2) wr rq s.
     case listing_checked L t1 rq s of
       (Inl r, s) \<Rightarrow> (r, s)
     | (Inr (h, tso, raw, signed), s) \<Rightarrow>
         update wr (listing_tx t2 h tso (raw ''listed'') (raw ''pubkey'') (raw ''name'') signed) s)"

text \<open>The reads: whether a name is free, and what a handle points at. A name to check comes in the body of a post whose url has no
  query, or in the url of a get.\<close>

datatype check_method = CheckPost | CheckGet | CheckOther

datatype check_reply = CheckFree bool | CheckRefused nat string

definition check_free ::
  "hlib \<Rightarrow> nanos \<Rightarrow> check_method \<Rightarrow> string \<Rightarrow> string option \<Rightarrow> string \<Rightarrow> hstore \<Rightarrow> check_reply \<times> hstore" where
  "check_free L now meth rawQuery body queryH s =
     (let (ok, l) = allow (readLim s) now; s = s\<lparr>readLim := l\<rparr>;
          answer = (\<lambda>raw. let h = norm_handle L raw
                          in if \<not> handleOK h \<or> h \<in> set reserved then CheckFree False else CheckFree (hm s h = None))
      in if \<not> ok then (CheckRefused 429 ''slow down'', s)
         else if meth = CheckPost \<and> rawQuery = [] then
           (case body of
              None \<Rightarrow> (CheckRefused 400 ''bad request'', s)
            | Some raw \<Rightarrow> (answer raw, s))
         else if meth = CheckGet then (answer queryH, s)
         else (CheckRefused 405 ''post the name in the body'', s))"

datatype well_known_reply = Names string string string | NoName | WellKnownRefused nat string

definition well_known :: "hlib \<Rightarrow> nanos \<Rightarrow> string \<Rightarrow> hstore \<Rightarrow> well_known_reply \<times> hstore" where
  "well_known L now raw s =
     (let (ok, l) = allow (readLim s) now; s = s\<lparr>readLim := l\<rparr>; h = norm_handle L raw
      in if \<not> ok then (WellKnownRefused 429 ''slow down'', s)
         else case hm s h of
           None \<Rightarrow> (NoName, s)
         | Some e \<Rightarrow> (Names h (e_pubkey e) (e_invite e), s))"

end
