(* ===== verification/Handle_Rules.thy ===== *)
theory Handle_Rules
  imports Handle_Registry
begin

text \<open>
  What the handle registry promises, over every interleaving of its requests: what is in it is well formed, only a handle's
  owner changes it, an older signed change never undoes a newer one, and an ok is on disk.
\<close>

section \<open>The registry as its requests run\<close>

text \<open>
  A step is one section under a lock: the checks before a change, which only draw on a limiter; the change itself, at most ten
  minutes after its checks; the write of the file; a read. Requests run side by side, so the steps of several of them
  may come in any order.
\<close>

definition in_time :: "nanos \<Rightarrow> nanos \<Rightarrow> bool" where
  "in_time t2 t3 \<longleftrightarrow> t2 \<le> t3 \<and> to_unix t3 \<le> to_unix t2 + signSkew"

inductive hstep :: "hlib \<Rightarrow> bool \<Rightarrow> nanos \<Rightarrow> request option \<Rightarrow> hstore \<Rightarrow> hstore \<Rightarrow> bool" for L a where
  draw: "hstep L a now None s (s\<lparr>readLim := l1, writeLim := l2\<rparr>)"
| claim: "fst (claim_checked L a t1 t2 rq s0) = Inr (inp, ts, v2) \<Longrightarrow> in_time t2 now \<Longrightarrow>
     update_change (claim_tx now inp ts v2) s = (err, ch, g, s') \<Longrightarrow> hstep L a now (Some rq) s s'"
| release: "fst (release_checked L a t1 t2 rq s0) = Inr (h, pubkey, ts, v2, why) \<Longrightarrow> in_time t2 now \<Longrightarrow>
     update_change (release_tx now h pubkey ts v2 why) s = (err, ch, g, s') \<Longrightarrow> hstep L a now (Some rq) s s'"
| listing: "fst (listing_checked L t1 rq s0) = Inr (h, tso, raw, signed) \<Longrightarrow>
     update_change (listing_tx t2 h tso (raw ''listed'') (raw ''pubkey'') (raw ''name'') signed) s = (err, ch, g, s') \<Longrightarrow> hstep L a now (Some rq) s s'"
| saved: "save wr g s = (ok, s') \<Longrightarrow> hstep L a now None s s'"

text \<open>A request that carries a signature of \<open>msg\<close> with the key it names.\<close>

definition signed_request :: "hlib \<Rightarrow> request \<Rightarrow> string \<Rightarrow> string \<Rightarrow> bool" where
  "signed_request L rq pk msg \<longleftrightarrow>
     (\<exists>raw. rq_fields rq = Some raw \<and> raw ''pubkey'' = pk \<and> verifyMsg L pk (raw ''sig'') msg)"

text \<open>What the checks let through.\<close>

lemma claim_checked_sound:
  assumes "fst (claim_checked L a t1 t2 rq s0) = Inr (inp, ts, v2)"
  shows "handleOK (e_handle inp)" "e_handle inp \<notin> set reserved" "inviteOK L (e_invite inp)" "inviteIsKeys L (e_invite inp) (e_pubkey inp)"
    "length (e_bio inp) \<le> 200" "e_signedAt inp = 0" "e_name inp = []" "\<not> e_listed inp"
    "v2 \<Longrightarrow> to_unix t2 - signSkew \<le> ts \<and> ts \<le> to_unix t2 + signSkew"
    "signed_request L rq (e_pubkey inp) (if v2 then claimMsgV2 L (e_handle inp) (e_invite inp) ts else ''kryfo-handle-v1:'' @ e_handle inp)"
  using assms
  by (auto simp: signed_request_def claim_checked_def checkSig_def verify_v1_def Let_def split: if_splits option.splits prod.splits)

lemma release_checked_sound:
  assumes "fst (release_checked L a t1 t2 rq s0) = Inr (h, pubkey, ts, v2, [])"
  shows "v2 \<Longrightarrow> to_unix t2 - signSkew \<le> ts \<and> ts \<le> to_unix t2 + signSkew" "\<not> v2 \<Longrightarrow> ts = to_unix t2"
    "signed_request L rq pubkey (if v2 then releaseMsgV2 h ts else ''kryfo-handle-v1:'' @ h)"
  using assms
  by (auto simp: signed_request_def release_checked_def checkSig_def verify_v1_def Let_def split: if_splits option.splits prod.splits)

lemma listing_checked_sound:
  assumes "fst (listing_checked L t1 rq s0) = Inr (h, tso, raw, True)"
  shows "\<exists>l n. signed_request L rq (raw ''pubkey'') (listingMsg h l (case tso of Some ts \<Rightarrow> ts | None \<Rightarrow> 0) n)"
  using assms by (auto simp: signed_request_def listing_checked_def Let_def split: if_splits option.splits prod.splits)

text \<open>What each change does to the map and to the releases that are remembered.\<close>

lemma claim_effect:
  assumes "update_change (claim_tx now inp ts v2) s = (err, ch, g, s')"
  defines "h \<equiv> e_handle inp"
  shows "hgone s' = hgone s \<and> hsaved s' = hsaved s \<and> hfile s' = hfile s \<and>
    (hm s' = hm s \<and> hgen s' = hgen s \<or>
     (\<exists>e. hm s' = (hm s)(h \<mapsto> e) \<and> hgen s' = hgen s + 1 \<and> e_handle e = h \<and> e_invite e = e_invite inp \<and> e_bio e = e_bio inp \<and>
        e_pubkey e = e_pubkey inp \<and>
        (case hm s h of
           Some old \<Rightarrow> e_pubkey old = e_pubkey inp \<and> (e_signedAt old > 0 \<longrightarrow> v2) \<and> (v2 \<longrightarrow> e_signedAt old \<le> ts) \<and>
             e_signedAt e = (if v2 then ts else e_signedAt old) \<and> e_name e = e_name old \<and> e_listed e = e_listed old
         | None \<Rightarrow> (goneAt h s > 0 \<longrightarrow> v2 \<and> goneAt h s < ts) \<and> card (dom (hm s)) < maxHandles \<and>
             e_signedAt e = (if v2 then ts else e_signedAt inp) \<and> e_name e = e_name inp \<and> e_listed e = e_listed inp)))"
  using assms unfolding update_change_def claim_tx_def h_def tx_put_def
  by (auto simp: Let_def split: option.splits if_splits prod.splits)

lemma release_effect:
  assumes "update_change (release_tx now h pubkey ts v2 why) s = (err, ch, g, s')"
  shows "hsaved s' = hsaved s \<and> hfile s' = hfile s \<and>
    (hm s' = hm s \<and> hgone s' = hgone s \<and> hgen s' = hgen s \<or>
     (\<exists>e. hm s h = Some e \<and> hm s' = (hm s)(h := None) \<and> hgen s' = hgen s + 1 \<and> why = [] \<and> e_pubkey e = pubkey \<and>
        (e_signedAt e > 0 \<longrightarrow> v2) \<and> (v2 \<longrightarrow> e_signedAt e \<le> ts) \<and> hgone s' h = Some ts \<and>
        (\<forall>k. k \<noteq> h \<longrightarrow> hgone s' k = hgone s k \<or> (\<exists>v. hgone s k = Some v \<and> v < to_unix now - 2 * signSkew))))"
  using assms unfolding update_change_def release_tx_def tx_del_def
  by (auto simp: Let_def split: option.splits if_splits prod.splits)

lemma listing_effect:
  assumes "update_change (listing_tx t h tso listed pubkey name signed) s = (err, ch, g, s')"
  shows "hgone s' = hgone s \<and> hsaved s' = hsaved s \<and> hfile s' = hfile s \<and>
    (hm s' = hm s \<and> hgen s' = hgen s \<or>
     (\<exists>e. hm s h = Some e \<and> hgen s' = hgen s + 1 \<and> e_pubkey e = pubkey \<and> signed \<and> tso \<noteq> None \<and>
        hm s' = (hm s)(h \<mapsto> e\<lparr>e_handle := h, e_listed := (listed = ''1''), e_listedAt := the tso, e_name := (if listed = ''1'' then cleanName name else [])\<rparr>)))"
  using assms unfolding update_change_def listing_tx_def tx_put_def
  by (auto simp: Let_def split: option.splits if_splits prod.splits)

lemma save_effect:
  assumes "save wr g s = (ok, s')"
  shows "hm s' = hm s \<and> hgone s' = hgone s \<and> hgen s' = hgen s \<and> (ok \<longrightarrow> g \<le> hsaved s' \<or> hsaved s' = hgen s) \<and>
    (hsaved s' = hsaved s \<and> hfile s' = hfile s \<or> (hsaved s' = hsaved s \<or> hsaved s' = hgen s) \<and> hfile s' = hm s)"
  using assms by (auto simp: save_def writeStore_def Let_def split: if_splits option.splits write_call.splits)

section \<open>Only the owner\<close>

text \<open>The messages that can change a handle.\<close>

definition change_msgs :: "hlib \<Rightarrow> string \<Rightarrow> string set" where
  "change_msgs L h = {''kryfo-handle-v1:'' @ h} \<union> {m. \<exists>inv ts. m = claimMsgV2 L h inv ts} \<union> {m. \<exists>ts. m = releaseMsgV2 h ts}
     \<union> {m. \<exists>l ts n. m = listingMsg h l ts n}"

lemma change_msgs_intros:
  "''kryfo-handle-v1:'' @ h \<in> change_msgs L h" "claimMsgV2 L h invi ts \<in> change_msgs L h" "releaseMsgV2 h ts \<in> change_msgs L h"
  "listingMsg h l ts n \<in> change_msgs L h"
  unfolding change_msgs_def by blast+

lemma upd_at: "m h = Some e \<Longrightarrow> (m(h' := v)) h \<noteq> Some e \<Longrightarrow> h' = h"
  by (auto split: if_splits)

text \<open>C25. A handle that is held changes only by a request which carries a message about that handle, signed with the key that
  holds it, whatever requests come in and however they interleave; nothing anyone else sends repoints, releases or
  lists it.\<close>

theorem only_owner_changes:
  assumes "hstep L a now rqo s s'" and "hm s h = Some e" and "hm s' h \<noteq> Some e"
  shows "\<exists>rq msg. rqo = Some rq \<and> msg \<in> change_msgs L h \<and> signed_request L rq (e_pubkey e) msg"
proof -
  have ne: "hm s' \<noteq> hm s" using assms(2,3) by auto
  show ?thesis
    using assms(1)
  proof cases
    case (claim t1 t2 rq s0 inp ts v2 err ch g)
    then obtain e' where e': "hm s' = (hm s)(e_handle inp \<mapsto> e')"
      "case hm s (e_handle inp) of Some old \<Rightarrow> e_pubkey old = e_pubkey inp | None \<Rightarrow> True"
      using claim_effect [OF claim(4)] ne by (auto split: option.splits)
    then have h: "e_handle inp = h" using upd_at assms(2,3) by metis
    then have "e_pubkey inp = e_pubkey e" using e'(2) assms(2) by simp
    then have "signed_request L rq (e_pubkey e) (if v2 then claimMsgV2 L h (e_invite inp) ts else ''kryfo-handle-v1:'' @ h)"
      using claim_checked_sound(10) [OF claim(2)] h by (simp only:)
    moreover have "(if v2 then claimMsgV2 L h (e_invite inp) ts else ''kryfo-handle-v1:'' @ h) \<in> change_msgs L h"
      by (simp only: change_msgs_intros split: if_split) simp
    ultimately show ?thesis using claim(1) by blast
  next
    case (release t1 t2 rq s0 h' pubkey ts v2 why err ch g)
    then obtain e' where e': "hm s h' = Some e'" "hm s' = (hm s)(h' := None)" "e_pubkey e' = pubkey" "why = []"
      using release_effect [OF release(4)] ne by blast
    then have h: "h' = h" using upd_at assms(2,3) by metis
    have "fst (release_checked L a t1 t2 rq s0) = Inr (h, pubkey, ts, v2, [])" using release(2) e'(4) h by simp
    note release_checked_sound(3) [OF this]
    moreover have "pubkey = e_pubkey e" using e' h assms(2) by simp
    moreover have "(if v2 then releaseMsgV2 h ts else ''kryfo-handle-v1:'' @ h) \<in> change_msgs L h"
      by (simp only: change_msgs_intros split: if_split) simp
    ultimately show ?thesis using release(1) by blast
  next
    case (listing t1 rq s0 h' tso raw signed t2 err ch g)
    then obtain e' v where e': "hm s h' = Some e'" "hm s' = (hm s)(h' \<mapsto> v)" "e_pubkey e' = raw ''pubkey''" "signed"
      using listing_effect [OF listing(3)] ne by blast
    then have h: "h' = h" using upd_at assms(2,3) by metis
    have "fst (listing_checked L t1 rq s0) = Inr (h, tso, raw, True)" using listing(2) e'(4) h by simp
    then obtain l n where "signed_request L rq (raw ''pubkey'') (listingMsg h l (case tso of Some ts \<Rightarrow> ts | None \<Rightarrow> 0) n)"
      using listing_checked_sound by blast
    moreover have "raw ''pubkey'' = e_pubkey e" using e' h assms(2) by simp
    ultimately have "signed_request L rq (e_pubkey e) (listingMsg h l (case tso of Some ts \<Rightarrow> ts | None \<Rightarrow> 0) n)" by (simp only:)
    then show ?thesis using listing(1) change_msgs_intros(4) by blast
  next
    case (saved wr g ok)
    then show ?thesis using save_effect assms(2,3) by metis
  qed (use assms(2,3) in simp)
qed

section \<open>What is in the registry\<close>

definition entry_ok :: "hlib \<Rightarrow> string \<Rightarrow> entry \<Rightarrow> bool" where
  "entry_ok L h e \<longleftrightarrow> e_handle e = h \<and> handleOK h \<and> h \<notin> set reserved \<and> inviteOK L (e_invite e) \<and> inviteIsKeys L (e_invite e) (e_pubkey e) \<and>
     length (e_bio e) \<le> 200 \<and> shown (runes (e_name e)) \<and> length (runes (e_name e)) \<le> 41"

definition registry_ok :: "hlib \<Rightarrow> (string \<rightharpoonup> entry) \<Rightarrow> bool" where
  "registry_ok L m \<longleftrightarrow> finite (dom m) \<and> card (dom m) \<le> maxHandles \<and> (\<forall>h e. m h = Some e \<longrightarrow> entry_ok L h e)"

text \<open>A run from a start with what the file held. \<open>hist\<close> is the registry as each change left it.\<close>

inductive hrun :: "hlib \<Rightarrow> bool \<Rightarrow> (string \<rightharpoonup> entry) \<Rightarrow> nanos \<Rightarrow> hstore \<Rightarrow> (nat \<Rightarrow> string \<rightharpoonup> entry) \<Rightarrow> bool" for L a m0 where
  start: "hrun L a m0 now (new_store now m0) (\<lambda>_. m0)"
| step: "hrun L a m0 now s hist \<Longrightarrow> now \<le> now' \<Longrightarrow> hstep L a now' rqo s s' \<Longrightarrow> hrun L a m0 now' s' (hist(hgen s' := hm s'))"

lemma shown_nil: "shown (runes [])"
  by (simp add: runes_def bytes_of_def rune_parts.simps [of "[]"] shown_def)

lemma runes_nil: "runes [] = []"
  by (simp add: runes_def bytes_of_def rune_parts.simps [of "[]"])

lemma registry_put:
  assumes "registry_ok L m" and "entry_ok L h e" and "m h = None \<Longrightarrow> card (dom m) < maxHandles"
  shows "registry_ok L (m(h \<mapsto> e))"
proof -
  have "card (insert h (dom m)) \<le> maxHandles"
    using assms by (cases "h \<in> dom m") (auto simp: registry_ok_def insert_absorb domIff)
  then show ?thesis using assms(1,2) by (auto simp: registry_ok_def)
qed

lemma registry_del: "registry_ok L m \<Longrightarrow> registry_ok L (m(h := None))"
  using card_mono [of "dom m" "dom (m(h := None))"] by (auto simp: registry_ok_def)

lemma hstep_registry:
  assumes "hstep L a now rqo s s'" and ok: "registry_ok L (hm s)"
  shows "registry_ok L (hm s')"
  using assms(1)
proof cases
  case (claim t1 t2 rq s0 inp ts v2 err ch g)
  note sound = claim_checked_sound [OF claim(2)]
  consider "hm s' = hm s" | e where "hm s' = (hm s)(e_handle inp \<mapsto> e)" "e_handle e = e_handle inp" "e_invite e = e_invite inp"
    "e_bio e = e_bio inp" "e_pubkey e = e_pubkey inp"
    "case hm s (e_handle inp) of Some old \<Rightarrow> e_name e = e_name old | None \<Rightarrow> card (dom (hm s)) < maxHandles \<and> e_name e = []"
    using claim_effect [OF claim(4)] sound(7) by (auto split: option.splits)
  then show ?thesis
  proof cases
    case 2
    have "shown (runes (e_name e)) \<and> length (runes (e_name e)) \<le> 41"
      using 2(6) ok shown_nil runes_nil by (cases "hm s (e_handle inp)") (auto simp: registry_ok_def entry_ok_def)
    then have "entry_ok L (e_handle inp) e" using 2(2-5) sound(1-5) by (simp add: entry_ok_def)
    moreover have "hm s (e_handle inp) = None \<Longrightarrow> card (dom (hm s)) < maxHandles" using 2(6) by simp
    ultimately show ?thesis using registry_put [OF ok] 2(1) by simp
  qed (use ok in simp)
next
  case (release t1 t2 rq s0 h pubkey ts v2 why err ch g)
  have "hm s' = hm s \<or> hm s' = (hm s)(h := None)" using release_effect [OF release(4)] by blast
  then show ?thesis using ok registry_del by fastforce
next
  case (listing t1 rq s0 h tso raw signed t2 err ch g)
  consider "hm s' = hm s" | e l n where "hm s h = Some e"
    "hm s' = (hm s)(h \<mapsto> e\<lparr>e_handle := h, e_listed := l, e_listedAt := the tso, e_name := (if l then cleanName n else [])\<rparr>)"
    using listing_effect [OF listing(3)] by blast
  then show ?thesis
  proof cases
    case 2
    have "entry_ok L h e" using ok 2(1) by (simp add: registry_ok_def)
    then have "entry_ok L h (e\<lparr>e_handle := h, e_listed := l, e_listedAt := the tso, e_name := (if l then cleanName n else [])\<rparr>)"
      using cleanName_shape [of n] shown_nil runes_nil by (auto simp: entry_ok_def)
    then show ?thesis unfolding 2(2) by (rule registry_put [OF ok]) (simp add: 2(1))
  qed (use ok in simp)
next
  case (saved wr g ok')
  then show ?thesis using ok save_effect by metis
qed (use ok in simp)

text \<open>C26. In every run from a registry that is well formed, so from an empty one, what it holds stays well formed: a handle is
  three to twenty letters, digits and underscores and none of those kept back, its invite has the app's shape and names
  the key that holds it, bio and name are short and the name hides nothing, and there are at most 100,000 of them.\<close>

theorem registry_stays_ok:
  assumes "hrun L a m0 now s hist" and "registry_ok L m0"
  shows "registry_ok L (hm s)"
  using assms by (induction rule: hrun.induct) (auto simp: new_store_def intro: hstep_registry)

section \<open>An ok is on disk\<close>

definition disk_ok :: "(nat \<Rightarrow> (string \<rightharpoonup> entry)) \<Rightarrow> hstore \<Rightarrow> bool" where
  "disk_ok hist s \<longleftrightarrow> hist (hgen s) = hm s \<and> (\<exists>n. hfile s = hist n \<and> hsaved s \<le> n \<and> n \<le> hgen s)"

lemma disk_kept:
  assumes "disk_ok hist s" and "hsaved s' = hsaved s" and "hfile s' = hfile s"
    and "hm s' = hm s \<and> hgen s' = hgen s \<or> hgen s' = hgen s + 1"
  shows "disk_ok (hist(hgen s' := hm s')) s'"
proof -
  obtain n where "hist (hgen s) = hm s" "hfile s = hist n" "hsaved s \<le> n" "n \<le> hgen s" using assms(1) by (auto simp: disk_ok_def)
  then have "(hist(hgen s' := hm s')) (hgen s') = hm s' \<and> hfile s' = (hist(hgen s' := hm s')) n \<and> hsaved s' \<le> n \<and> n \<le> hgen s'"
    using assms(2-4) by (elim disjE) simp_all
  then show ?thesis unfolding disk_ok_def by blast
qed

lemma disk_saved:
  assumes "disk_ok hist s" and "save wr g s = (ok, s')"
  shows "disk_ok (hist(hgen s' := hm s')) s'"
proof -
  note eff = save_effect [OF assms(2)]
  obtain n where n: "hist (hgen s) = hm s" "hfile s = hist n" "hsaved s \<le> n" "n \<le> hgen s" using assms(1) by (auto simp: disk_ok_def)
  show ?thesis
  proof (cases "hfile s' = hm s")
    case True
    have same: "hgen s' = hgen s" "hm s' = hm s" using eff by simp_all
    have "hsaved s' \<le> hgen s" using eff n(3,4) by linarith
    then show ?thesis unfolding disk_ok_def same True by (simp add: exI [of _ "hgen s"])
  next
    case False
    have "hsaved s' = hsaved s" "hfile s' = hfile s" "hm s' = hm s" "hgen s' = hgen s" using eff False by argo+
    then show ?thesis by (intro disk_kept [OF assms(1)]) simp_all
  qed
qed

lemma hrun_disk:
  assumes "hrun L a m0 now s hist"
  shows "disk_ok hist s"
  using assms
proof (induction rule: hrun.induct)
  case (step now s hist now' rqo s')
  from step.hyps(3) show ?case
  proof cases
    case (claim t1 t2 rq s0 inp ts v2 err ch g)
    have "hsaved s' = hsaved s" "hfile s' = hfile s" "hm s' = hm s \<and> hgen s' = hgen s \<or> hgen s' = hgen s + 1"
      using claim_effect [OF claim(4)] by blast+
    then show ?thesis by (rule disk_kept [OF step.IH])
  next
    case (release t1 t2 rq s0 h pubkey ts v2 why err ch g)
    have "hsaved s' = hsaved s" "hfile s' = hfile s" "hm s' = hm s \<and> hgen s' = hgen s \<or> hgen s' = hgen s + 1"
      using release_effect [OF release(4)] by blast+
    then show ?thesis by (rule disk_kept [OF step.IH])
  next
    case (listing t1 rq s0 h tso raw signed t2 err ch g)
    have "hsaved s' = hsaved s" "hfile s' = hfile s" "hm s' = hm s \<and> hgen s' = hgen s \<or> hgen s' = hgen s + 1"
      using listing_effect [OF listing(3)] by blast+
    then show ?thesis by (rule disk_kept [OF step.IH])
  next
    case (saved wr g ok)
    then show ?thesis using disk_saved [OF step.IH] by blast
  qed (intro disk_kept [OF step.IH]; simp)
qed (simp add: new_store_def disk_ok_def)


section \<open>A refusal changes nothing\<close>

text \<open>What the registry holds, in memory and on disk.\<close>

definition kept :: "hstore \<Rightarrow> (string \<rightharpoonup> entry) \<times> (string \<rightharpoonup> unix) \<times> nat \<times> nat \<times> (string \<rightharpoonup> entry)" where
  "kept s = (hm s, hgone s, hgen s, hsaved s, hfile s)"

definition refuses_cleanly :: "(hstore \<Rightarrow> change) \<Rightarrow> bool" where
  "refuses_cleanly f \<longleftrightarrow> (\<forall>s r ch s'. f s = (Some r, ch, s') \<longrightarrow> \<not> ch \<and> kept s' = kept s)"

lemma tx_refuse_cleanly:
  "refuses_cleanly (claim_tx now inp ts v2)" "refuses_cleanly (release_tx now h pubkey ts v2 why)"
  "refuses_cleanly (listing_tx now h tso listed pubkey name signed)"
  by (auto simp: refuses_cleanly_def kept_def claim_tx_def release_tx_def listing_tx_def Let_def split: option.splits if_splits prod.splits)

lemma update_refused:
  assumes "update wr f s = (Refuse code msg, s')" and "msg \<noteq> ''could not save''" and "refuses_cleanly f"
  shows "kept s' = kept s"
proof -
  obtain err ch s1 where f: "f s = (err, ch, s1)" by (cases "f s")
  show ?thesis
  proof (cases err)
    case None
    then show ?thesis using assms(1,2) f by (auto simp: update_def update_change_def Let_def split: prod.splits if_splits)
  next
    case (Some r)
    then have "\<not> ch \<and> kept s1 = kept s" using assms(3) f by (auto simp: refuses_cleanly_def)
    then show ?thesis using assms(1) f Some by (cases r) (simp add: update_def update_change_def Let_def)
  qed
qed

lemma checked_kept:
  "kept (snd (claim_checked L a t1 t2 rq s)) = kept s" "kept (snd (release_checked L a t1 t2 rq s)) = kept s"
  "kept (snd (listing_checked L t1 rq s)) = kept s"
  by (auto simp: kept_def claim_checked_def release_checked_def listing_checked_def Let_def split: option.splits prod.splits)

text \<open>C28. A request that is refused changes nothing that is kept: whichever check refuses a claim, a release or a listing, the
  entries, the releases that are remembered and the file stay as they were. Only when the file could not be written is the
  change there, in memory, and the answer says so.\<close>

theorem refusal_changes_nothing:
  assumes "claim L a (t1, t2, t3) wr rq s = (Refuse code msg, s') \<or> release L a (t1, t2, t3) wr rq s = (Refuse code msg, s') \<or>
      listing L (t1, t2) wr rq s = (Refuse code msg, s')"
    and "msg \<noteq> ''could not save''"
  shows "kept s' = kept s"
  using assms(1)
proof (elim disjE)
  assume "claim L a (t1, t2, t3) wr rq s = (Refuse code msg, s')"
  then show ?thesis using checked_kept(1) [of L a t1 t2 rq s] update_refused [OF _ assms(2) tx_refuse_cleanly(1)]
    by (auto simp: claim_def split: sum.splits prod.splits)
next
  assume "release L a (t1, t2, t3) wr rq s = (Refuse code msg, s')"
  then show ?thesis using checked_kept(2) [of L a t1 t2 rq s] update_refused [OF _ assms(2) tx_refuse_cleanly(2)]
    by (auto simp: release_def split: sum.splits prod.splits)
next
  assume "listing L (t1, t2) wr rq s = (Refuse code msg, s')"
  then show ?thesis using checked_kept(3) [of L t1 rq s] update_refused [OF _ assms(2) tx_refuse_cleanly(3)]
    by (auto simp: listing_def split: sum.splits prod.splits)
qed

section \<open>Older changes\<close>

text \<open>The handle has a change signed at \<open>ts\<close> or later behind it, or was released then.\<close>

definition settled_at :: "string \<Rightarrow> unix \<Rightarrow> hstore \<Rightarrow> bool" where
  "settled_at h ts s = (case hm s h of Some e \<Rightarrow> ts \<le> e_signedAt e | None \<Rightarrow> ts \<le> goneAt h s)"

inductive hsteps :: "hlib \<Rightarrow> bool \<Rightarrow> nanos \<Rightarrow> hstore \<Rightarrow> nanos \<Rightarrow> hstore \<Rightarrow> bool" for L a now1 s1 where
  here: "hsteps L a now1 s1 now1 s1"
| more: "hsteps L a now1 s1 now s \<Longrightarrow> now \<le> now' \<Longrightarrow> hstep L a now' rqo s s' \<Longrightarrow> hsteps L a now1 s1 now' s'"

text \<open>Once the clock is twenty minutes past \<open>ts\<close> nothing signed before it passes the checks any more.\<close>

definition shut :: "string \<Rightarrow> unix \<Rightarrow> nanos \<Rightarrow> hstore \<Rightarrow> bool" where
  "shut h ts now s \<longleftrightarrow> ts + 2 * signSkew < to_unix now \<or> settled_at h ts s"

lemma settled_cong: "hm s' h = hm s h \<Longrightarrow> hgone s' h = hgone s h \<Longrightarrow> settled_at h ts s' = settled_at h ts s"
  by (auto simp: settled_at_def goneAt_def split: option.split)

lemma hstep_shut:
  assumes "hstep L a now' rqo s s'" and "settled_at h ts s" and "0 < ts"
  shows "shut h ts now' s'"
  using assms(1)
proof cases
  case (draw l1 l2)
  then show ?thesis using assms(2) settled_cong [of s' h s] by (simp add: shut_def)
next
  case (claim t1 t2 rq s0 inp ts2 v2 err ch g)
  note eff = claim_effect [OF claim(4)]
  show ?thesis
  proof (cases "hm s' h = hm s h")
    case True
    then show ?thesis using eff assms(2) settled_cong [of s' h s] by (simp add: shut_def)
  next
    case False
    then obtain e where e: "e_handle inp = h" "hm s' = (hm s)(h \<mapsto> e)"
      "case hm s h of Some old \<Rightarrow> (e_signedAt old > 0 \<longrightarrow> v2) \<and> (v2 \<longrightarrow> e_signedAt old \<le> ts2) \<and> e_signedAt e = (if v2 then ts2 else e_signedAt old)
       | None \<Rightarrow> (goneAt h s > 0 \<longrightarrow> v2 \<and> goneAt h s < ts2) \<and> e_signedAt e = (if v2 then ts2 else e_signedAt inp)"
      using eff by (auto split: option.splits if_splits)
    then show ?thesis using assms(2,3) by (auto simp: shut_def settled_at_def split: option.splits if_splits)
  qed
next
  case (release t1 t2 rq s0 h' pubkey ts2 v2 why err ch g)
  consider (same) "hm s' = hm s" "hgone s' = hgone s"
    | (gone) e where "hm s h' = Some e" "hm s' = (hm s)(h' := None)" "e_signedAt e > 0 \<longrightarrow> v2" "v2 \<longrightarrow> e_signedAt e \<le> ts2" "hgone s' h' = Some ts2"
      "\<And>k. k \<noteq> h' \<Longrightarrow> hgone s' k = hgone s k \<or> (\<exists>v. hgone s k = Some v \<and> v < to_unix now' - 2 * signSkew)"
    using release_effect [OF release(4)] by blast
  then show ?thesis
  proof cases
    case same
    then show ?thesis using assms(2) settled_cong [of s' h s] by (simp add: shut_def)
  next
    case gone
    show ?thesis
    proof (cases "h = h'")
      case True
      then show ?thesis using gone(1-5) assms(2,3) by (auto simp: shut_def settled_at_def goneAt_def)
    next
      case False
      then have hm: "hm s' h = hm s h" using gone(2) by simp
      from gone(6) [OF False] show ?thesis
      proof
        assume "hgone s' h = hgone s h"
        then show ?thesis using assms(2) settled_cong [OF hm] by (simp add: shut_def)
      next
        assume "\<exists>v. hgone s h = Some v \<and> v < to_unix now' - 2 * signSkew"
        then show ?thesis using assms(2) hm by (auto simp: shut_def settled_at_def goneAt_def split: option.splits)
      qed
    qed
  qed
next
  case (listing t1 rq s0 h' tso raw signed t2 err ch g)
  note eff = listing_effect [OF listing(3)]
  then have "\<forall>e. hm s h = Some e \<longrightarrow> (\<exists>e'. hm s' h = Some e' \<and> e_signedAt e' = e_signedAt e)" "hm s h = None \<longrightarrow> hm s' h = None"
    by auto
  then show ?thesis using eff assms(2) by (auto simp: shut_def settled_at_def goneAt_def split: option.splits)
next
  case (saved wr g ok)
  then show ?thesis using assms(2) save_effect [OF saved(2)] settled_cong [of s' h s] by (simp add: shut_def)
qed

lemma hsteps_shut:
  assumes "hsteps L a now1 s1 now s" and "settled_at h ts s1" and "0 < ts"
  shows "shut h ts now s"
  using assms(1)
proof (induction rule: hsteps.induct)
  case here
  then show ?case using assms(2) by (simp add: shut_def)
next
  case (more now s now' s')
  show ?case
  proof (cases "settled_at h ts s")
    case True
    then show ?thesis using hstep_shut [OF more.hyps(3) _ assms(3)] by blast
  next
    case False
    then have "ts + 2 * signSkew < to_unix now" using more.IH by (simp add: shut_def)
    then show ?thesis using to_unix_mono [OF more.hyps(2)] by (simp add: shut_def)
  qed
qed


section \<open>A handle claimed and released\<close>

definition example_pub :: string where "example_pub = replicate 64 CHR ''0''"

definition example_fields :: "int \<Rightarrow> string \<Rightarrow> string" where
  "example_fields ts k =
     (if k = ''handle'' then '' Ada'' else if k = ''invite'' then ''kryfo://share?id=a-a-a'' else if k = ''bio'' then ''hello''
      else if k = ''pubkey'' then example_pub else if k = ''sig'' then replicate 128 CHR ''0'' else if k = ''v'' then ''2''
      else if k = ''ts'' then Itoa ts else [])"

definition example_request :: "int \<Rightarrow> request" where
  "example_request ts = \<lparr>rq_post = True, rq_fields = Some (example_fields ts)\<rparr>"

definition example_entry :: "unix \<Rightarrow> unix \<Rightarrow> entry" where
  "example_entry claimed signed = \<lparr>e_handle = ''ada'', e_invite = ''kryfo://share?id=a-a-a'', e_bio = ''hello'', e_pubkey = example_pub, e_claimedAt = claimed,
     e_signedAt = signed, e_listed = False, e_name = [], e_listedAt = 0\<rparr>"

definition example_store :: hstore where
  "example_store = new_store (of_unix 2000) Map.empty"

lemma example_hex:
  "hex_decode example_pub = Some (replicate 32 (CHR 0x00))" "hex_decode (replicate 128 CHR ''0'') = Some (replicate 64 (CHR 0x00))"
  by code_simp+

lemma example_verify: "verifyMsg ascii_lib example_pub (replicate 128 CHR ''0'') m"
  unfolding verifyMsg_def example_hex by (simp add: ascii_lib_def)

lemma example_texts:
  "norm_handle ascii_lib '' Ada'' = ''ada''" "handleOK ''ada''" "''ada'' \<notin> set reserved" "inviteOK ascii_lib ''kryfo://share?id=a-a-a''"
  "inviteIsKeys ascii_lib ''kryfo://share?id=a-a-a'' example_pub"
proof -
  show "norm_handle ascii_lib '' Ada'' = ''ada''"
    by (simp add: norm_handle_def ascii_lib_def TrimSpaceU_def bytes_of_def rune_parts_ascii trim_parts_def parts_string_def IsSpace_def
        to_lower_def lower_char_def example_chars)
  show "handleOK ''ada''" by code_simp
  show "''ada'' \<notin> set reserved" by (simp add: reserved_def)
  show "inviteOK ascii_lib ''kryfo://share?id=a-a-a''"
    by (simp add: inviteOK_def maxInvite_def ascii_lib_def has_prefix_def invite_char_def)
  show "inviteIsKeys ascii_lib ''kryfo://share?id=a-a-a'' example_pub"
  proof -
    have "wordsOf ascii_lib example_pub = ''a-a-a''"
      unfolding wordsOf_def example_hex by (simp add: ascii_lib_def Let_def)
    then show ?thesis unfolding inviteIsKeys_def Let_def by (simp add: ascii_lib_def has_prefix_def)
  qed
qed

lemma example_sig:
  assumes "1400 \<le> ts" and "ts \<le> 2600"
  shows "checkSig ascii_lib True (of_unix 2000) (example_fields ts) h msg = (ts, True, [])"
proof -
  have "hSscan ascii_lib (Itoa ts) = Some ts" using assms by (simp add: ascii_lib_def ParseInt_Itoa)
  then show ?thesis using assms by (simp add: checkSig_def example_fields_def example_verify signSkew_def)
qed

lemma example_allowed: "fst (allow (writeLim example_store) (of_unix 2000))"
  by (simp add: example_store_def new_store_def newLimiter_def allow_def Let_def)

lemma example_claim_checked:
  assumes "1400 \<le> ts" and "ts \<le> 2600"
  shows "fst (claim_checked ascii_lib True (of_unix 2000) (of_unix 2000) (example_request ts) example_store) = Inr (example_entry 0 0, ts, True)"
proof -
  have f: "example_fields ts ''handle'' = '' Ada''" "example_fields ts ''invite'' = ''kryfo://share?id=a-a-a''" "example_fields ts ''bio'' = ''hello''"
    "example_fields ts ''pubkey'' = example_pub" by (simp_all add: example_fields_def)
  show ?thesis using example_allowed
    by (simp add: claim_checked_def example_request_def f example_texts example_sig [OF assms] Let_def split_beta) (simp add: example_entry_def)
qed

lemma example_release_checked:
  "fst (release_checked ascii_lib True (of_unix 2000) (of_unix 2000) (example_request 2001) example_store) = Inr (''ada'', example_pub, 2001, True, [])"
proof -
  have f: "example_fields ts ''handle'' = '' Ada''" "example_fields ts ''pubkey'' = example_pub" for ts by (simp_all add: example_fields_def)
  show ?thesis using example_allowed
    by (simp add: release_checked_def example_request_def f example_texts(1) example_sig Let_def split_beta)
qed

text \<open>The registry after the claim, and after the release.\<close>

definition example_claimed :: hstore where
  "example_claimed = snd (snd (snd (update_change (claim_tx (of_unix 2000) (example_entry 0 0) 2000 True) example_store)))"

definition example_released :: hstore where
  "example_released = snd (snd (snd (update_change (release_tx (of_unix 2000) ''ada'' example_pub 2001 True []) example_claimed)))"

lemma example_claimed: "hm example_claimed = [''ada'' \<mapsto> example_entry 2000 2000]" "hgen example_claimed = 1" "hsaved example_claimed = 0"
  by (simp_all add: example_claimed_def update_change_def claim_tx_def example_store_def new_store_def example_entry_def goneAt_def
      maxHandles_def allow_def newLimiter_def tx_put_def Let_def)

lemma example_released: "hm example_released = Map.empty"
  using example_claimed by (simp add: example_released_def update_change_def release_tx_def tx_del_def example_entry_def Let_def)

lemma example_claim_step: "hstep ascii_lib True (of_unix 2000) (Some (example_request 2000)) example_store example_claimed"
  unfolding example_claimed_def
  by (rule hstep.claim [OF example_claim_checked [of 2000]]) (auto simp: in_time_def signSkew_def prod_eq_iff)

lemma example_release_step: "hstep ascii_lib True (of_unix 2000) (Some (example_request 2001)) example_claimed example_released"
  unfolding example_released_def
  by (rule hstep.release [OF example_release_checked]) (auto simp: in_time_def signSkew_def prod_eq_iff)

lemma example_run: "hrun ascii_lib True Map.empty (of_unix 2000) example_claimed ((\<lambda>_. Map.empty)(hgen example_claimed := hm example_claimed))"
proof -
  have "hrun ascii_lib True Map.empty (of_unix 2000) example_store (\<lambda>_. Map.empty)"
    unfolding example_store_def by (rule hrun.start)
  then show ?thesis using example_claim_step by (rule hrun.step [OF _ order_refl])
qed

theorem only_owner_changes_witness:
  "hm example_claimed ''ada'' \<noteq> hm example_released ''ada'' \<and> 
     (\<exists>msg. msg \<in> change_msgs ascii_lib ''ada'' \<and> signed_request ascii_lib (example_request 2001) example_pub msg)"
  using only_owner_changes [OF example_release_step, of "''ada''" "example_entry 2000 2000"]
  by (simp add: example_claimed example_released) (simp add: example_entry_def)

theorem registry_stays_ok_witness: "registry_ok ascii_lib (hm example_claimed) \<and> hm example_claimed ''ada'' = Some (example_entry 2000 2000)"
  using registry_stays_ok [OF example_run] by (simp add: registry_ok_def) (simp add: example_claimed)



text \<open>A release of the handle with another key.\<close>

definition example_thief :: request where
  "example_thief = \<lparr>rq_post = True, rq_fields = Some ((example_fields 2001)(''pubkey'' := ''00'', ''v'' := ''x''))\<rparr>"

lemma example_thief_refused:
  "\<exists>s'. release ascii_lib True (of_unix 2000, of_unix 2000, of_unix 2000) None example_thief example_claimed =
     (Refuse 200 ''not yours to release'', s')"
proof -
  have "fst (allow (writeLim example_claimed) (of_unix 2000))"
    by (simp add: example_claimed_def update_change_def claim_tx_def example_store_def new_store_def example_entry_def goneAt_def
        maxHandles_def allow_def newLimiter_def tx_put_def Let_def)
  moreover have "example_pub \<noteq> ''00''" by (auto simp: example_pub_def dest: arg_cong [where f = length])
  ultimately show ?thesis using example_claimed(1)
    by (simp add: release_def release_checked_def example_thief_def example_fields_def example_texts(1) checkSig_def update_def
        update_change_def release_tx_def Let_def split_beta example_entry_def)
qed

theorem refusal_changes_nothing_witness:
  "\<exists>s'. release ascii_lib True (of_unix 2000, of_unix 2000, of_unix 2000) None example_thief example_claimed =
      (Refuse 200 ''not yours to release'', s') \<and> kept s' = kept example_claimed"
proof -
  obtain s' where s': "release ascii_lib True (of_unix 2000, of_unix 2000, of_unix 2000) None example_thief example_claimed =
      (Refuse 200 ''not yours to release'', s')" using example_thief_refused by blast
  have "''not yours to release'' \<noteq> ''could not save''" by simp
  then have "kept s' = kept example_claimed" using s' by (intro refusal_changes_nothing [OF disjI2 [OF disjI1]])
  then show ?thesis using s' by blast
qed

end
