(* ===== verification/Handle_Search.thy ===== *)
theory Handle_Search
  imports Handle_Rules "HOL-Library.List_Lexorder" "HOL-Library.Product_Lexorder" "HOL-Library.Multiset"
begin

text \<open>
  The search of the handle registry (\<open>search\<close> and \<open>searchHandler\<close> of \<open>server/handle/main.go\<close>). The entries come in the order the
  map gives them, which is an argument; handles are compared by their bytes.
\<close>

definition searchMax :: nat where "searchMax = 20"
definition bioInSearch :: nat where "bioInSearch = 120"

record hit =
  ht_handle :: string
  ht_name :: string
  ht_bio :: string
  ht_verified :: bool
  ht_fp :: string

definition search_rank :: "hlib \<Rightarrow> string \<Rightarrow> entry \<Rightarrow> nat option" where
  "search_rank L q e =
     (if \<not> e_listed e then None
      else if e_handle e = q then Some 0
      else if has_prefix (e_handle e) q then Some 1
      else if sublist q (e_handle e) then Some 2
      else if e_name e \<noteq> [] \<and> sublist q (hLower L (e_name e)) then Some 3
      else None)"

definition search_found :: "hlib \<Rightarrow> string \<Rightarrow> entry list \<Rightarrow> (nat \<times> entry) list" where
  "search_found L q es = List.map_filter (\<lambda>e. map_option (\<lambda>r. (r, e)) (search_rank L q e)) es"

definition search_key :: "nat \<times> entry \<Rightarrow> nat \<times> nat list" where
  "search_key = (\<lambda>(r, e). (r, bytes_of (e_handle e)))"

definition hit_of :: "entry \<Rightarrow> hit" where
  "hit_of e =
     (let bio = runes (e_bio e); bio = (if length bio > bioInSearch then take bioInSearch bio @ [0x2026] else bio)
      in \<lparr>ht_handle = e_handle e, ht_name = e_name e, ht_bio = rune_string bio, ht_verified = True, ht_fp = fingerprint (e_pubkey e)\<rparr>)"

definition search :: "hlib \<Rightarrow> string \<Rightarrow> entry list \<Rightarrow> hit list" where
  "search L q es = map (hit_of \<circ> snd) (take searchMax (sort_key search_key (search_found L q es)))"

text \<open>The handler: the question comes in the body of a post and nowhere else.\<close>

datatype search_reply = Hits "hit list" | SearchRefused nat string

definition searchHandler ::
  "hlib \<Rightarrow> nanos \<Rightarrow> bool \<Rightarrow> string \<Rightarrow> string option \<Rightarrow> entry list \<Rightarrow> limiter \<Rightarrow> search_reply \<times> limiter" where
  "searchHandler L now post rawQuery body es lm =
     (if \<not> post \<or> rawQuery \<noteq> [] then (SearchRefused 405 ''post the question in the body'', lm)
      else case body of
        None \<Rightarrow> (SearchRefused 400 ''bad request'', lm)
      | Some raw \<Rightarrow>
          (case searchQuery L raw of
             (_, False) \<Rightarrow> (SearchRefused 400 ''at least three letters or digits, nothing else'', lm)
           | (q, True) \<Rightarrow>
               (case allow lm now of
                  (False, lm) \<Rightarrow> (SearchRefused 429 ''slow down'', lm)
                | (True, lm) \<Rightarrow> (Hits (search L q es), lm))))"

lemma bytes_of_inj: "bytes_of a = bytes_of b \<longleftrightarrow> a = b"
proof -
  have "inj (of_char :: char \<Rightarrow> nat)" by (rule injI) simp
  then show ?thesis unfolding bytes_of_def by (simp add: inj_map_eq_map)
qed

lemma found_mset: "mset (search_found L q es) = image_mset (\<lambda>e. (the (search_rank L q e), e)) (filter_mset (\<lambda>e. search_rank L q e \<noteq> None) (mset es))"
  by (induction es) (auto simp: search_found_def List.map_filter_def)

lemma found_set: "(r, e) \<in> set (search_found L q es) \<longleftrightarrow> e \<in> set es \<and> search_rank L q e = Some r"
  by (induction es) (auto simp: search_found_def List.map_filter_def)

lemma found_inj: "distinct (map e_handle es) \<Longrightarrow> inj_on search_key (set (search_found L q es))"
  by (rule inj_onI) (auto simp: search_key_def found_set bytes_of_inj distinct_map inj_on_def)


definition example_listed :: "entry list" where
  "example_listed = [(example_entry 1 1)\<lparr>e_listed := True\<rparr>, (example_entry 1 1)\<lparr>e_handle := ''adam'', e_listed := True\<rparr>, (example_entry 1 1)\<lparr>e_handle := ''bob''\<rparr>]"


end
