(* ===== verification/Seen_Ring.thy ===== *)
theory Seen_Ring
  imports Prelude
begin

text \<open>
  The ring of ids of \<open>engine/seen.go\<close> (\<open>idRing\<close>): a fixed number of ids, the oldest dropped first. It is a slice that
  is written round and a map of what it holds; seen from outside it is a bounded queue.
\<close>

type_synonym nid = string

record idRing =
  ids :: "nid set"
  ring :: "nid list"
  rnext :: nat
  rcap :: nat

definition newIDRing :: "nat \<Rightarrow> idRing" where
  "newIDRing mx = \<lparr>ids = {}, ring = [], rnext = 0, rcap = mx\<rparr>"

definition ring_has :: "idRing \<Rightarrow> nid \<Rightarrow> bool" where
  "ring_has r i \<longleftrightarrow> i \<in> ids r"

definition ring_add :: "idRing \<Rightarrow> nid \<Rightarrow> idRing" where
  "ring_add r i =
     (if ring_has r i then r
      else if length (ring r) < rcap r then r\<lparr>ring := ring r @ [i], ids := insert i (ids r)\<rparr>
      else r\<lparr>ids := insert i (ids r - {ring r ! rnext r}), ring := (ring r)[rnext r := i], rnext := (rnext r + 1) mod length (ring r)\<rparr>)"

definition ring_len :: "idRing \<Rightarrow> nat" where
  "ring_len r = length (ring r)"

section \<open>The queue it is\<close>

text \<open>The ids oldest first.\<close>

definition recent :: "idRing \<Rightarrow> nid list" where
  "recent r = drop (rnext r) (ring r) @ take (rnext r) (ring r)"

definition id_ring_ok :: "idRing \<Rightarrow> bool" where
  "id_ring_ok r \<longleftrightarrow> 0 < rcap r \<and> length (ring r) \<le> rcap r \<and> distinct (ring r) \<and> ids r = set (ring r) \<and>
     (if length (ring r) < rcap r then rnext r = 0 else rnext r < rcap r)"

text \<open>What a bounded queue does with one more.\<close>

definition queue_add :: "nat \<Rightarrow> nid list \<Rightarrow> nid \<Rightarrow> nid list" where
  "queue_add n q i = (if i \<in> set q then q else if length q < n then q @ [i] else tl q @ [i])"

lemma recent_set [simp]: "set (recent r) = set (ring r)"
  by (metis Un_commute append_take_drop_id recent_def set_append)

lemma recent_length [simp]: "length (recent r) = length (ring r)"
  by (simp add: recent_def)

lemma rotate_slot:
  "drop ((length ys + 1) mod length (ys @ x # zs)) (ys @ i # zs) @ take ((length ys + 1) mod length (ys @ x # zs)) (ys @ i # zs) =
     zs @ ys @ [i]"
  by (cases zs) simp_all

lemma ring_add_recent:
  assumes "id_ring_ok r"
  shows "id_ring_ok (ring_add r i)" and "recent (ring_add r i) = queue_add (rcap r) (recent r) i" and "rcap (ring_add r i) = rcap r"
proof -
  show "rcap (ring_add r i) = rcap r" by (simp add: ring_add_def)
  have "id_ring_ok (ring_add r i) \<and> recent (ring_add r i) = queue_add (rcap r) (recent r) i"
  proof (cases "ring_has r i")
    case True
    then show ?thesis using assms by (simp add: ring_add_def queue_add_def ring_has_def id_ring_ok_def)
  next
    case new: False
    then have i: "i \<notin> set (ring r)" using assms by (simp add: ring_has_def id_ring_ok_def)
    show ?thesis
    proof (cases "length (ring r) < rcap r")
      case True
      then show ?thesis using assms new i by (auto simp: ring_add_def queue_add_def id_ring_ok_def recent_def)
    next
      case False
      then have full: "length (ring r) = rcap r" "rnext r < length (ring r)" using assms by (auto simp: id_ring_ok_def split: if_splits)
      then obtain ys x zs where r: "ring r = ys @ x # zs" "rnext r = length ys"
        by (metis id_take_nth_drop length_take less_imp_le min.absorb2)
      have add: "ring (ring_add r i) = ys @ i # zs" "rnext (ring_add r i) = (length ys + 1) mod length (ys @ x # zs)"
        "ids (ring_add r i) = insert i (ids r - {x})" using new False r by (simp_all add: ring_add_def)
      have d: "distinct (ys @ x # zs)" "ids r = set (ys @ x # zs)" "0 < rcap r" using assms r by (simp_all add: id_ring_ok_def)
      have "recent (ring_add r i) = zs @ ys @ [i]" unfolding recent_def add by (rule rotate_slot)
      moreover have "recent r = x # zs @ ys" by (simp add: recent_def r)
      moreover have "id_ring_ok (ring_add r i)"
        using d i full r add \<open>rcap (ring_add r i) = rcap r\<close> by (auto simp: id_ring_ok_def)
      ultimately show ?thesis using i full r by (auto simp: queue_add_def)
    qed
  qed
  then show "id_ring_ok (ring_add r i)" "recent (ring_add r i) = queue_add (rcap r) (recent r) i" by simp_all
qed

lemma newIDRing_ok: "0 < n \<Longrightarrow> id_ring_ok (newIDRing n)" "recent (newIDRing n) = []"
  by (simp_all add: id_ring_ok_def newIDRing_def recent_def)

lemma ring_has_recent: "id_ring_ok r \<Longrightarrow> ring_has r i \<longleftrightarrow> i \<in> set (recent r)"
  by (simp add: ring_has_def id_ring_ok_def)

lemma ring_adds:
  assumes "id_ring_ok r"
  shows "id_ring_ok (foldl ring_add r is) \<and> recent (foldl ring_add r is) = foldl (queue_add (rcap r)) (recent r) is \<and> rcap (foldl ring_add r is) = rcap r"
  using assms by (induction "is" arbitrary: r) (simp_all add: ring_add_recent)

lemma queue_add_length: "length q \<le> n \<Longrightarrow> 0 < n \<Longrightarrow> length (queue_add n q i) \<le> n"
  by (cases q) (auto simp: queue_add_def)

text \<open>The ring is a bounded queue of ids: it holds what a queue holds that drops its oldest for one more when it is full
  and leaves out what it has, however often it was written round.\<close>

theorem ring_is_queue:
  assumes "0 < n"
  shows "recent (foldl ring_add (newIDRing n) is) = foldl (queue_add n) [] is \<and>
    (\<forall>i. ring_has (foldl ring_add (newIDRing n) is) i \<longleftrightarrow> i \<in> set (foldl (queue_add n) [] is)) \<and>
    ring_len (foldl ring_add (newIDRing n) is) \<le> n"
proof -
  note ok = newIDRing_ok(1) [OF assms] newIDRing_ok(2) [of n]
  have r: "id_ring_ok (foldl ring_add (newIDRing n) is)" "recent (foldl ring_add (newIDRing n) is) = foldl (queue_add n) [] is"
    "rcap (foldl ring_add (newIDRing n) is) = n"
    using ring_adds [OF ok(1)] ok(2) by (simp_all add: newIDRing_def)
  moreover have "ring_len (foldl ring_add (newIDRing n) is) \<le> n" using r(1,3) by (simp add: ring_len_def id_ring_ok_def)
  ultimately show ?thesis using ring_has_recent [OF r(1)] by (simp only: conj_ac simp_thms all_simps)
qed

theorem ring_is_queue_witness:
  "recent (foldl ring_add (newIDRing 2) [''a'', ''b'', ''a'', ''c'']) = [''b'', ''c'']"
  using ring_is_queue [of 2 "[''a'', ''b'', ''a'', ''c'']"] by (simp add: queue_add_def)

text \<open>An id stays until as many new ones came as the ring holds.\<close>

lemma queue_keeps:
  "length q \<le> n \<Longrightarrow> q = xs @ i # ys \<Longrightarrow> length ys + length js < n \<Longrightarrow> i \<in> set (foldl (queue_add n) q js)"
proof (induction js arbitrary: q xs ys)
  case (Cons j js)
  have n: "0 < n" using Cons.prems(3) by simp
  have "\<exists>xs' ys'. queue_add n q j = xs' @ i # ys' \<and> length ys' \<le> length ys + 1"
  proof (cases "j \<in> set q \<or> length q < n")
    case True
    then have "queue_add n q j = q \<or> queue_add n q j = xs @ i # (ys @ [j])" using Cons.prems(2) by (auto simp: queue_add_def)
    then show ?thesis using Cons.prems(2) by (metis le_add1 length_append_singleton Suc_eq_plus1 order_refl)
  next
    case False
    then have "xs \<noteq> []" using Cons.prems by auto
    then show ?thesis using False Cons.prems(2) by (intro exI [of _ "tl xs"] exI [of _ "ys @ [j]"]) (simp add: queue_add_def)
  qed
  then obtain xs' ys' where q: "queue_add n q j = xs' @ i # ys'" "length ys' \<le> length ys + 1" by blast
  have "length ys' + length js < n" using Cons.prems(3) q(2) by simp
  from Cons.IH [OF queue_add_length [OF Cons.prems(1) n] q(1) this] show ?case by simp
qed simp

lemma queue_added: "0 < n \<Longrightarrow> i \<in> set (queue_add n q i)"
  by (simp add: queue_add_def)

section \<open>What a memory of ids promises\<close>

text \<open>
  The runner relies on this of each of its two rings: it answers for a queue of the newest ids, at most \<open>n\<close> of them.
\<close>

locale id_memory =
  fixes has :: "'r \<Rightarrow> nid \<Rightarrow> bool" and add :: "'r \<Rightarrow> nid \<Rightarrow> 'r" and fresh :: 'r and newest :: "'r \<Rightarrow> nid list" and ok :: "'r \<Rightarrow> bool"
    and n :: nat
  assumes n_pos: "0 < n" and ok_fresh: "ok fresh" and newest_fresh: "newest fresh = []"
    and ok_add: "ok r \<Longrightarrow> ok (add r i)" and newest_add: "ok r \<Longrightarrow> newest (add r i) = queue_add n (newest r) i"
    and has_newest: "ok r \<Longrightarrow> has r i \<longleftrightarrow> i \<in> set (newest r)" and newest_room: "ok r \<Longrightarrow> length (newest r) \<le> n"
begin

lemma ok_adds: "ok r \<Longrightarrow> ok (foldl add r is)"
  by (induction "is" arbitrary: r) (simp_all add: ok_add)

lemma newest_adds: "ok r \<Longrightarrow> newest (foldl add r is) = foldl (queue_add n) (newest r) is"
  by (induction "is" arbitrary: r) (simp_all add: newest_add ok_add)

text \<open>One that is new is there until as many more came as are kept. One that was there already keeps its place.\<close>

lemma added_stays:
  assumes "ok r" and "\<not> has r i" and "length js < n"
  shows "has (foldl add r (i # js)) i"
proof -
  have ok: "ok (add r i)" by (rule ok_add [OF assms(1)])
  have "newest (add r i) = (if length (newest r) < n then newest r else tl (newest r)) @ i # []"
    using newest_add [OF assms(1)] assms(1,2) has_newest by (simp add: queue_add_def)
  from queue_keeps [OF newest_room [OF ok] this] assms(3) have "i \<in> set (foldl (queue_add n) (newest (add r i)) js)" by simp
  then show ?thesis using newest_adds [OF ok] has_newest [OF ok_adds [OF ok]] by simp
qed

text \<open>New ones that fit are all there, and while there is room nothing goes.\<close>

lemma adds_new:
  assumes "ok r" and "distinct js" and "length js \<le> n" and "\<And>j. j \<in> set js \<Longrightarrow> \<not> has r j"
  shows "\<exists>pre. newest (foldl add r js) = pre @ js \<and> set pre \<subseteq> set (newest r)"
  using assms(2-4)
proof (induction js rule: rev_induct)
  case (snoc j js)
  then obtain pre where pre: "newest (foldl add r js) = pre @ js" "set pre \<subseteq> set (newest r)" by auto
  have "j \<notin> set pre" using snoc.prems(3) pre(2) has_newest [OF assms(1)] by auto
  then have new: "j \<notin> set (pre @ js)" using snoc.prems(1) by simp
  have q: "newest (foldl add r (js @ [j])) = queue_add n (pre @ js) j" using newest_add [OF ok_adds [OF assms(1)]] pre(1) by simp
  show ?case
  proof (cases "length (pre @ js) < n")
    case True
    then show ?thesis using q new pre(2) by (auto simp: queue_add_def)
  next
    case False
    then have "pre \<noteq> []" using snoc.prems(2) by auto
    moreover from this have "set (tl pre) \<subseteq> set pre" by (cases pre) auto
    ultimately show ?thesis using q new False pre(2) by (intro exI [of _ "tl pre"]) (auto simp: queue_add_def)
  qed
qed simp

lemma has_adds_new:
  "ok r \<Longrightarrow> distinct js \<Longrightarrow> length js \<le> n \<Longrightarrow> (\<And>j. j \<in> set js \<Longrightarrow> \<not> has r j) \<Longrightarrow> i \<in> set js \<Longrightarrow> has (foldl add r js) i"
  using adds_new [of r js] has_newest [OF ok_adds] by auto

lemma adds_room:
  "ok r \<Longrightarrow> length (newest r) + length js \<le> n \<Longrightarrow> set (newest (foldl add r js)) = set (newest r) \<union> set js"
proof (induction js arbitrary: r)
  case (Cons j js)
  have "length (newest (add r j)) \<le> length (newest r) + 1" "set (newest (add r j)) = insert j (set (newest r))"
    using Cons.prems newest_add [of r j] by (auto simp: queue_add_def)
  then show ?case using Cons.IH [OF ok_add [OF Cons.prems(1)], of j] Cons.prems by simp
qed simp

end

definition ring_room :: "nat \<Rightarrow> idRing \<Rightarrow> bool" where
  "ring_room n r \<longleftrightarrow> id_ring_ok r \<and> rcap r = n"

lemma ring_memory:
  assumes "0 < n"
  shows "id_memory ring_has ring_add (newIDRing n) recent (ring_room n) n"
proof
  show "ring_room n (newIDRing n)" using newIDRing_ok(1) [OF assms] by (simp add: ring_room_def newIDRing_def)
next
  fix r i assume r: "ring_room n r"
  then show "ring_room n (ring_add r i)" "recent (ring_add r i) = queue_add n (recent r) i"
    using ring_add_recent [of r i] by (auto simp: ring_room_def)
  show "ring_has r i \<longleftrightarrow> i \<in> set (recent r)" using r ring_has_recent by (simp add: ring_room_def)
  show "length (recent r) \<le> n" using r by (simp add: ring_room_def id_ring_ok_def)
qed (simp_all add: assms newIDRing_ok)

text \<open>The two rings of a runner: the ids of events that opened and of those that did not.\<close>

definition seenKeep :: nat where "seenKeep = 3000"
definition seenUnopenedKeep :: nat where "seenUnopenedKeep = 500"

interpretation kept_ids: id_memory ring_has ring_add "newIDRing seenKeep" recent "ring_room seenKeep" seenKeep
  by (rule ring_memory) (simp add: seenKeep_def)

interpretation passed_ids: id_memory ring_has ring_add "newIDRing seenUnopenedKeep" recent "ring_room seenUnopenedKeep" seenUnopenedKeep
  by (rule ring_memory) (simp add: seenUnopenedKeep_def)

end
