(* ===== verification/Seen_Lines.thy ===== *)
theory Seen_Lines
  imports Strconv Utf8 Seen_Ring
begin

text \<open>
  What a runner writes about the ids it has finished with (\<open>engine/seen.go\<close>): the line of an id it holds, how it is read
  back, and how many ids may be held. An id is its 32 bytes, sha-256 is a parameter.
\<close>

section \<open>Held ids\<close>

definition seenHeldKeep :: nat where "seenHeldKeep = 200"
definition seenHeldPerGroup :: nat where "seenHeldPerGroup = 512"
definition seenHeldMost :: nat where "seenHeldMost = 2000"
definition seenHeldFor :: nanos where "seenHeldFor = 14 * 24 * hour"
definition seenFileMax :: nat where "seenFileMax = seenKeep + seenUnopenedKeep + seenHeldMost + 100"

lemmas seen_consts = seenKeep_def seenUnopenedKeep_def seenHeldKeep_def seenHeldPerGroup_def seenHeldMost_def seenFileMax_def

definition seenHeldMark :: char where "seenHeldMark = CHR ''+''"
definition seenUnopenedMark :: char where "seenUnopenedMark = CHR ''-''"
definition seenFreeMark :: string where "seenFreeMark = ''!''"
definition seenDropMark :: string where "seenDropMark = ''~''"

lemmas seen_marks = seenHeldMark_def seenUnopenedMark_def seenFreeMark_def seenDropMark_def

record heldAt =
  h_at :: unix
  h_free :: bool
  h_group :: string
  h_from :: int
  h_until :: int

type_synonym held_map = "nid \<rightharpoonup> heldAt"

definition heldGroup :: "(string \<Rightarrow> string) \<Rightarrow> nid \<Rightarrow> string \<Rightarrow> string" where
  "heldGroup sha i name = (if name = [] then take 16 (hex_encode i) else hex_encode (take 8 (sha name)))"

definition groups_of :: "held_map \<Rightarrow> string set" where
  "groups_of held = h_group ` ran held"

definition in_group :: "held_map \<Rightarrow> string \<Rightarrow> nat" where
  "in_group held g = card {i. \<exists>h. held i = Some h \<and> h_group h = g}"

definition heldRoom :: "held_map \<Rightarrow> string \<Rightarrow> bool" where
  "heldRoom held g =
     (if card (dom held) \<ge> seenHeldMost then False
      else if in_group held g > 0 then in_group held g < seenHeldPerGroup
      else card (groups_of held) < seenHeldKeep)"

section \<open>Lines\<close>

definition parseSeenID :: "string \<Rightarrow> nid option" where
  "parseSeenID s = (if length s \<noteq> 64 then None else hex_decode s)"

definition trim_prefix :: "char \<Rightarrow> string \<Rightarrow> string" where
  "trim_prefix c s = (case s of x # t \<Rightarrow> if x = c then t else s | [] \<Rightarrow> [])"

definition parseHeldLine :: "string \<Rightarrow> (nid \<times> heldAt) option" where
  "parseHeldLine line =
     (let f = FieldsU (trim_prefix seenHeldMark line)
      in if length f < 2 then None
         else case (parseSeenID (f ! 0), ParseInt (f ! 1)) of
           (Some i, Some t) \<Rightarrow>
             let h = \<lparr>h_at = t, h_free = False, h_group = take 16 (hex_encode i), h_from = 0, h_until = 0\<rparr>;
                 h = (if length f > 2 then h\<lparr>h_group := f ! 2\<rparr> else h);
                 h = (if length f > 4 then
                        (case (ParseInt (f ! 3), ParseInt (f ! 4)) of
                           (Some from, Some until) \<Rightarrow> if 0 \<le> from \<and> from \<le> until then h\<lparr>h_from := from, h_until := until\<rparr> else h
                         | _ \<Rightarrow> h)
                      else h)
             in Some (i, h)
         | _ \<Rightarrow> None)"

definition heldLine :: "nid \<Rightarrow> heldAt \<Rightarrow> string" where
  "heldLine i h = seenHeldMark # hex_encode i @ '' '' @ Itoa (h_at h) @ '' '' @ h_group h @
     (if h_until h > 0 then '' '' @ Itoa (h_from h) @ '' '' @ Itoa (h_until h) else [])"

definition heldGone :: "unix \<Rightarrow> nanos \<Rightarrow> bool" where
  "heldGone t now \<longleftrightarrow> t < to_unix (now - seenHeldFor)"

section \<open>A held line is read back\<close>

definition int64 :: "int \<Rightarrow> bool" where
  "int64 i \<longleftrightarrow> - (2 ^ 63) \<le> i \<and> i < 2 ^ 63"

text \<open>What a line can carry: numbers of their width, a group that is one plain word, and a reach that is known or not.\<close>

definition line_ok :: "nid \<Rightarrow> heldAt \<Rightarrow> bool" where
  "line_ok i h \<longleftrightarrow> length i = 32 \<and> int64 (h_at h) \<and> int64 (h_from h) \<and> int64 (h_until h) \<and> word_text (h_group h) \<and> ascii (h_group h) \<and>
     0 \<le> h_from h \<and> h_from h \<le> h_until h"

lemma hex_digit_word: "n < 16 \<Longrightarrow> \<not> IsSpace (of_char (hex_digit n)) \<and> of_char (hex_digit n) < (0x80 :: nat)"
  by (auto simp: hex_digit_def of_char_char_of IsSpace_def)

lemma hex_encode_chars: "c \<in> set (hex_encode s) \<Longrightarrow> \<not> IsSpace (of_char c) \<and> of_char c < (0x80 :: nat)"
proof -
  assume "c \<in> set (hex_encode s)"
  then obtain x where "c = hex_digit ((of_char x :: nat) div 16) \<or> c = hex_digit ((of_char x :: nat) mod 16)"
    by (auto simp: hex_encode_def Let_def)
  moreover have "(of_char x :: nat) div 16 < 16" "(of_char x :: nat) mod 16 < 16" using nat_of_char_less_256 [of x] by linarith+
  ultimately show ?thesis using hex_digit_word by metis
qed

lemma hex_encode_word: "s \<noteq> [] \<Longrightarrow> word_text (hex_encode s) \<and> ascii (hex_encode s)"
  using hex_encode_chars [of _ s] by (auto simp: word_text_def ascii_def list_all_iff hex_encode_def Let_def)

lemma word_take: "word_text w \<Longrightarrow> ascii w \<Longrightarrow> 0 < n \<Longrightarrow> word_text (take n w) \<and> ascii (take n w)"
  by (auto simp: word_text_def ascii_def list_all_iff dest: in_set_takeD)

lemma digit_word: "is_digit c \<Longrightarrow> \<not> IsSpace (of_char c) \<and> of_char c < (0x80 :: nat)"
  by (auto simp: is_digit_def digit_val_def IsSpace_def Let_def split: if_splits)

lemma Itoa_word: "word_text (Itoa i) \<and> ascii (Itoa i)"
  using digit_word [OF show_nat_digits] by (auto simp: Itoa_def word_text_def ascii_def list_all_iff IsSpace_def)

lemma parseSeenID_hex: "length i = 32 \<Longrightarrow> parseSeenID (hex_encode i) = Some i"
  by (simp add: parseSeenID_def hex_decode_encode)

lemma parseSeenID_length: "parseSeenID s = Some i \<Longrightarrow> length i = 32"
  by (auto simp: parseSeenID_def dest: hex_decode_length split: if_splits)

lemma ascii_append [simp]: "ascii (a @ b) \<longleftrightarrow> ascii a \<and> ascii b"
  by (simp add: ascii_def)

lemma ascii_nil [simp]: "ascii []"
  by (simp add: ascii_def)

lemma ascii_cons [simp]: "ascii (c # s) \<longleftrightarrow> of_char c < (0x80 :: nat) \<and> ascii s"
  by (simp add: ascii_def)

lemma heldLine_fields:
  assumes "line_ok i h"
  shows "FieldsU (trim_prefix seenHeldMark (heldLine i h)) =
    [hex_encode i, Itoa (h_at h), h_group h] @ (if h_until h > 0 then [Itoa (h_from h), Itoa (h_until h)] else [])"
proof -
  have "i \<noteq> []" using assms by (auto simp: line_ok_def)
  then have w: "word_text (hex_encode i)" "ascii (hex_encode i)" using hex_encode_word [of i] by simp_all
  have g: "word_text (h_group h)" "ascii (h_group h)" using assms by (simp_all add: line_ok_def)
  have t: "trim_prefix seenHeldMark (heldLine i h) = tl (heldLine i h)" by (simp add: trim_prefix_def heldLine_def)
  have "ascii (tl (heldLine i h))" using w(2) g(2) Itoa_word by (simp add: heldLine_def ascii_def)
  then show ?thesis unfolding t using w(1) g(1) Itoa_word
    by (simp add: FieldsU_ascii heldLine_def fields_char_sep fields_char_last)
qed

lemma held_line_roundtrip:
  assumes "line_ok i h"
  shows "parseHeldLine (heldLine i h) = Some (i, h\<lparr>h_free := False\<rparr>)"
proof -
  have n: "ParseInt (Itoa (h_at h)) = Some (h_at h)" "ParseInt (Itoa (h_from h)) = Some (h_from h)"
    "ParseInt (Itoa (h_until h)) = Some (h_until h)"
    using assms by (auto simp: line_ok_def int64_def intro!: ParseInt_Itoa)
  have "parseSeenID (hex_encode i) = Some i" using assms by (simp add: line_ok_def parseSeenID_hex)
  moreover have "h_until h \<le> 0 \<Longrightarrow> h_from h = 0 \<and> h_until h = 0" using assms by (simp add: line_ok_def)
  moreover have "0 \<le> h_from h" "h_from h \<le> h_until h" using assms by (simp_all add: line_ok_def)
  ultimately show ?thesis unfolding parseHeldLine_def heldLine_fields [OF assms]
    by (auto simp: n Let_def not_less intro!: heldAt.equality)
qed

text \<open>And what is read can be written again.\<close>

lemma ParseInt_int64: "ParseInt s = Some i \<Longrightarrow> int64 i"
  by (auto simp: ParseInt_def int64_def Let_def split: option.splits if_splits)

lemma ascii_trim_prefix: "ascii s \<Longrightarrow> ascii (trim_prefix c s)"
  by (auto simp: trim_prefix_def split: list.split)

lemma FieldsU_words: "ascii s \<Longrightarrow> w \<in> set (FieldsU s) \<Longrightarrow> word_text w \<and> ascii w"
  using fields_char_words [of "[]" w s] by (auto simp: FieldsU_ascii ascii_def list_all_iff)

lemma parseHeldLine_ok:
  assumes "parseHeldLine line = Some (i, h)" and "ascii line"
  shows "line_ok i h \<and> \<not> h_free h"
proof -
  define f where "f = FieldsU (trim_prefix seenHeldMark line)"
  have w: "word_text w \<and> ascii w" if "w \<in> set f" for w
    using FieldsU_words [OF ascii_trim_prefix [OF assms(2)]] that by (simp add: f_def)
  obtain t where t: "parseSeenID (f ! 0) = Some i" "ParseInt (f ! 1) = Some t" "2 \<le> length f" "h_at h = t"
    using assms(1) by (auto simp: parseHeldLine_def Let_def f_def [symmetric] split: if_splits option.splits)
  have i: "length i = 32" by (rule parseSeenID_length [OF t(1)])
  have g: "h_group h = (if length f > 2 then f ! 2 else take 16 (hex_encode i))" "\<not> h_free h"
    "h_from h = 0 \<and> h_until h = 0 \<or> 0 \<le> h_from h \<and> h_from h \<le> h_until h \<and> ParseInt (f ! 3) = Some (h_from h) \<and> ParseInt (f ! 4) = Some (h_until h)"
    using assms(1) t(1-3) by (cases h; auto simp: parseHeldLine_def Let_def f_def [symmetric] split: if_splits option.splits)+
  have "i \<noteq> []" using i by auto
  then have "word_text (h_group h) \<and> ascii (h_group h)" using g(1) w [of "f ! 2"] hex_encode_word [of i] word_take by simp
  moreover have "int64 (h_at h)" using ParseInt_int64 t by auto
  moreover have "int64 (h_from h) \<and> int64 (h_until h)" using g(3) ParseInt_int64 by (auto simp: int64_def)
  ultimately show ?thesis using i g(2,3) by (auto simp: line_ok_def)
qed

text \<open>What \<open>hold\<close> writes is such a line, for a digest of sha-256 and an id of its length.\<close>

lemma heldGroup_word:
  assumes "length i = 32" and "name \<noteq> [] \<Longrightarrow> length (sha name) = 32"
  shows "word_text (heldGroup sha i name) \<and> ascii (heldGroup sha i name)"
proof -
  have "i \<noteq> []" and "name \<noteq> [] \<Longrightarrow> take 8 (sha name) \<noteq> []" using assms by auto
  then show ?thesis using hex_encode_word word_take [of "hex_encode i" 16] by (simp add: heldGroup_def)
qed

end
