(* ===== verification/Seen.thy ===== *)
theory Seen
  imports Seen_Lines
begin

text \<open>
  What a relay runner remembers of the events it has finished with (\<open>engine/seen.go\<close>): the ids that opened and were kept, those
  that did not open, those being opened, and those the app left on the relay; with the file of an address, the globals beside
  it and every operation of a set. A method takes its set and the world and gives both back. How a call on a file turns out and
  the readings of the clock are arguments; \<open>ord\<close> is the order a map is gone through in. A temporary file is written
  before it replaces the file and read by nothing, so only the replacing counts.
\<close>

section \<open>State\<close>

record seenIDs =
  s_path :: string
  s_opened :: idRing
  s_unopened :: idRing
  s_queued :: "nid set"
  s_held :: held_map
  s_lines :: nat

record world =
  w_files :: "string \<rightharpoonup> string"
  heldFreed :: "string \<Rightarrow> nat"
  engineHeld :: bool
  goneFiles :: "string set"
  heldMissed :: "string \<Rightarrow> nid \<Rightarrow> string \<Rightarrow> nat"
  liveSeen :: "string \<Rightarrow> nat set"

datatype append_fate = AppendDone | AppendFails | AppendPart nat

datatype compact_fate = CompactDone | CompactReadFails | CompactWriteFails | CompactRenameFails

record seen_io =
  io_append :: append_fate
  io_compact :: compact_fate
  io_now :: nanos

type_synonym iter = "held_map \<Rightarrow> nid list"

definition new_seen :: "string \<Rightarrow> seenIDs" where
  "new_seen path = \<lparr>s_path = path, s_opened = newIDRing seenKeep, s_unopened = newIDRing seenUnopenedKeep, s_queued = {}, s_held = Map.empty,
     s_lines = 0\<rparr>"

definition heldGen :: "string \<Rightarrow> world \<Rightarrow> nat" where
  "heldGen path w = heldFreed w path"

definition fileGone :: "string \<Rightarrow> world \<Rightarrow> bool" where
  "fileGone path w \<longleftrightarrow> path \<in> goneFiles w"

section \<open>Reading\<close>

definition free_all :: "held_map \<Rightarrow> held_map" where
  "free_all held = (\<lambda>i. map_option (\<lambda>h. h\<lparr>h_free := True\<rparr>) (held i))"

definition readLine :: "iter \<Rightarrow> string \<Rightarrow> seenIDs \<Rightarrow> seenIDs" where
  "readLine ord line s =
     (if line = seenFreeMark then s\<lparr>s_held := free_all (s_held s)\<rparr>
      else if line = seenDropMark then s\<lparr>s_opened := foldl ring_add (s_opened s) (ord (s_held s)), s_held := Map.empty\<rparr>
      else if has_prefix line [seenHeldMark] then
        (case parseHeldLine line of
           None \<Rightarrow> s
         | Some (i, h) \<Rightarrow> if s_held s i \<noteq> None \<or> heldRoom (s_held s) (h_group h) then s\<lparr>s_held := (s_held s)(i \<mapsto> h)\<rparr> else s)
      else if has_prefix line [seenUnopenedMark] then
        (case parseSeenID (tl line) of
           Some i \<Rightarrow> s\<lparr>s_unopened := ring_add (s_unopened s) i, s_held := (s_held s)(i := None)\<rparr>
         | None \<Rightarrow> s)
      else
        (case parseSeenID line of
           Some i \<Rightarrow> s\<lparr>s_opened := ring_add (s_opened s) i, s_held := (s_held s)(i := None)\<rparr>
         | None \<Rightarrow> s))"

definition prune :: "nanos \<Rightarrow> held_map \<Rightarrow> held_map" where
  "prune now held = (\<lambda>i. case held i of Some h \<Rightarrow> if heldGone (h_at h) now then None else Some h | None \<Rightarrow> None)"

definition pruneHeld :: "nanos \<Rightarrow> seenIDs \<Rightarrow> seenIDs" where
  "pruneHeld now s = s\<lparr>s_held := prune now (s_held s)\<rparr>"

definition file_lines :: "string \<Rightarrow> string list" where
  "file_lines b = split_at (CHR 0x0A) b"

definition read_lines :: "iter \<Rightarrow> string list \<Rightarrow> seenIDs \<Rightarrow> seenIDs" where
  "read_lines ord ls s = foldl (\<lambda>s line. if line = [] then s else readLine ord line (s\<lparr>s_lines := s_lines s + 1\<rparr>)) s ls"

section \<open>Rewriting the file\<close>

record compacting =
  c_opened :: "string list"
  c_unopened :: "string list"
  c_held :: held_map
  c_order :: "nid list"

fun drop_held :: "nid list \<Rightarrow> string list \<Rightarrow> held_map \<Rightarrow> string list \<times> held_map" where
  "drop_held [] ops held = (ops, held)"
| "drop_held (i # is) ops held =
     (if held i \<noteq> None then drop_held is (ops @ [hex_encode i]) (held(i := None)) else drop_held is ops held)"

definition compact_line :: "compacting \<Rightarrow> string \<Rightarrow> compacting" where
  "compact_line c line =
     (if line = [] then c
      else if line = seenFreeMark then c\<lparr>c_held := free_all (c_held c)\<rparr>
      else if line = seenDropMark then
        (let (ops, held) = drop_held (c_order c) (c_opened c) (c_held c) in c\<lparr>c_opened := ops, c_held := held, c_order := []\<rparr>)
      else if has_prefix line [seenHeldMark] then
        (case parseHeldLine line of
           None \<Rightarrow> c
         | Some (i, h) \<Rightarrow>
             if c_held c i = None then
               (if \<not> heldRoom (c_held c) (h_group h) then c else c\<lparr>c_order := c_order c @ [i], c_held := (c_held c)(i \<mapsto> h)\<rparr>)
             else c\<lparr>c_held := (c_held c)(i \<mapsto> h)\<rparr>)
      else if has_prefix line [seenUnopenedMark] then
        (let c = c\<lparr>c_unopened := c_unopened c @ [line]\<rparr>
         in case parseSeenID (tl line) of Some i \<Rightarrow> c\<lparr>c_held := (c_held c)(i := None)\<rparr> | None \<Rightarrow> c)
      else
        (let c = c\<lparr>c_opened := c_opened c @ [line]\<rparr>
         in case parseSeenID line of Some i \<Rightarrow> c\<lparr>c_held := (c_held c)(i := None)\<rparr> | None \<Rightarrow> c))"

definition newest_lines :: "nat \<Rightarrow> string list \<Rightarrow> string list" where
  "newest_lines n xs = (if length xs > n then drop (length xs - n) xs else xs)"

text \<open>The ids still held, once each, in the order they were held first.\<close>

fun still_held :: "nanos \<Rightarrow> held_map \<Rightarrow> nid list \<Rightarrow> (nid \<times> heldAt) list" where
  "still_held now held [] = []"
| "still_held now held (i # is) =
     (case held i of
        None \<Rightarrow> still_held now held is
      | Some h \<Rightarrow> if heldGone (h_at h) now then still_held now held is else (i, h) # still_held now (held(i := None)) is)"

definition compact_start :: compacting where
  "compact_start = \<lparr>c_opened = [], c_unopened = [], c_held = Map.empty, c_order = []\<rparr>"

definition compact_keep :: "nanos \<Rightarrow> string \<Rightarrow> string list" where
  "compact_keep now b =
     (let c = foldl compact_line compact_start (file_lines b);
          out = still_held now (c_held c) (c_order c);
          frees = filter (\<lambda>(i, h). h_free h) out; still = filter (\<lambda>(i, h). \<not> h_free h) out
      in newest_lines seenKeep (c_opened c) @ newest_lines seenUnopenedKeep (c_unopened c) @ map (\<lambda>(i, h). heldLine i h) frees @
         (if frees \<noteq> [] then [seenFreeMark] else []) @ map (\<lambda>(i, h). heldLine i h) still)"

definition lines_text :: "string list \<Rightarrow> string" where
  "lines_text ls = Join_nl ls @ [CHR 0x0A]"

definition compactLocked :: "compact_fate \<Rightarrow> nanos \<Rightarrow> seenIDs \<Rightarrow> world \<Rightarrow> seenIDs \<times> world" where
  "compactLocked fate now s w =
     (if engineHeld w \<or> fileGone (s_path s) w then (s, w)
      else case w_files w (s_path s) of
        None \<Rightarrow> (s, w)
      | Some b \<Rightarrow>
          (case fate of
             CompactReadFails \<Rightarrow> (s, w)
           | CompactWriteFails \<Rightarrow> (s, w)
           | CompactRenameFails \<Rightarrow> (s, w)
           | CompactDone \<Rightarrow>
               let keep = compact_keep now b
               in (s\<lparr>s_lines := length keep\<rparr>, w\<lparr>w_files := (w_files w)(s_path s \<mapsto> lines_text keep)\<rparr>)))"

section \<open>Loading and writing\<close>

text \<open>\<open>rd\<close> says whether the file can be read.\<close>

definition loadSeen :: "iter \<Rightarrow> bool \<Rightarrow> nanos \<Rightarrow> seen_io \<Rightarrow> string \<Rightarrow> world \<Rightarrow> seenIDs \<times> world" where
  "loadSeen ord rd now io path w =
     (let s = new_seen path
      in if path = [] then (s, w)
         else case w_files w path of
           None \<Rightarrow> (s, w)
         | Some b \<Rightarrow>
             if \<not> rd then (s, w)
             else let s = pruneHeld now (read_lines ord (file_lines b) s)
                  in if s_lines s > seenFileMax then compactLocked (io_compact io) (io_now io) s w else (s, w))"

definition file_of :: "string \<Rightarrow> world \<Rightarrow> string" where
  "file_of path w = (case w_files w path of Some b \<Rightarrow> b | None \<Rightarrow> [])"

definition writeLocked :: "seen_io \<Rightarrow> string list \<Rightarrow> seenIDs \<Rightarrow> world \<Rightarrow> seenIDs \<times> world" where
  "writeLocked io ls s w =
     (if s_path s = [] \<or> ls = [] \<or> engineHeld w \<or> fileGone (s_path s) w then (s, w)
      else case io_append io of
        AppendFails \<Rightarrow> (s, w)
      | AppendPart n \<Rightarrow> (s, w\<lparr>w_files := (w_files w)(s_path s \<mapsto> file_of (s_path s) w @ take n (lines_text ls))\<rparr>)
      | AppendDone \<Rightarrow>
          let w = w\<lparr>w_files := (w_files w)(s_path s \<mapsto> file_of (s_path s) w @ lines_text ls)\<rparr>; s = s\<lparr>s_lines := s_lines s + length ls\<rparr>
          in if s_lines s > seenFileMax then compactLocked (io_compact io) (io_now io) s w else (s, w))"

definition write_seen :: "seen_io \<Rightarrow> string list \<Rightarrow> seenIDs \<Rightarrow> world \<Rightarrow> seenIDs \<times> world" where
  "write_seen io ls s w = (if s_path s = [] \<or> ls = [] \<or> engineHeld w then (s, w) else writeLocked io ls s w)"

section \<open>The operations\<close>

definition heldReach :: "nid \<Rightarrow> seenIDs \<Rightarrow> int \<times> int" where
  "heldReach i s = (case s_held s i of Some h \<Rightarrow> (h_from h, h_until h) | None \<Rightarrow> (0, 0))"

definition claim_id :: "nid \<Rightarrow> seenIDs \<Rightarrow> bool \<times> seenIDs" where
  "claim_id i s =
     (if ring_has (s_opened s) i \<or> ring_has (s_unopened s) i then (False, s)
      else if (case s_held s i of Some h \<Rightarrow> \<not> h_free h | None \<Rightarrow> False) then (False, s)
      else if i \<in> s_queued s then (False, s)
      else (True, s\<lparr>s_queued := insert i (s_queued s)\<rparr>))"

definition holdIf ::
  "(string \<Rightarrow> string) \<Rightarrow> seen_io \<Rightarrow> nid \<Rightarrow> unix \<Rightarrow> string \<Rightarrow> nanos \<Rightarrow> int \<Rightarrow> int \<Rightarrow> nat option \<Rightarrow> seenIDs \<Rightarrow> world \<Rightarrow> (bool \<times> bool) \<times> seenIDs \<times> world" where
  "holdIf sha io i t name now from until freed s w =
     (let g = heldGroup sha i name
      in if (case freed of Some f \<Rightarrow> heldGen (s_path s) w \<noteq> f | None \<Rightarrow> False) then ((False, True), s, w)
         else let s = pruneHeld now (s\<lparr>s_queued := s_queued s - {i}\<rparr>); had = (s_held s i \<noteq> None)
              in if heldGone t now \<or> (\<not> had \<and> \<not> heldRoom (s_held s) g) then ((False, False), s, w)
                 else let h = \<lparr>h_at = t, h_free = False, h_group = g, h_from = from, h_until = until\<rparr>;
                          s = s\<lparr>s_held := (s_held s)(i \<mapsto> h)\<rparr>; (s, w) = writeLocked io [heldLine i h] s w
                      in ((True, False), s, w))"

definition hold_id ::
  "(string \<Rightarrow> string) \<Rightarrow> seen_io \<Rightarrow> nid \<Rightarrow> unix \<Rightarrow> string \<Rightarrow> nanos \<Rightarrow> int \<Rightarrow> int \<Rightarrow> seenIDs \<Rightarrow> world \<Rightarrow> bool \<times> seenIDs \<times> world" where
  "hold_id sha io i t name now from until s w =
     (let ((held, _), s, w) = holdIf sha io i t name now from until None s w in (held, s, w))"

definition holdSince ::
  "(string \<Rightarrow> string) \<Rightarrow> seen_io \<Rightarrow> nid \<Rightarrow> unix \<Rightarrow> string \<Rightarrow> nanos \<Rightarrow> int \<Rightarrow> int \<Rightarrow> nat \<Rightarrow> seenIDs \<Rightarrow> world \<Rightarrow> (bool \<times> bool) \<times> seenIDs \<times> world" where
  "holdSince sha io i t name now from until freed s w = holdIf sha io i t name now from until (Some freed) s w"

text \<open>The first half of \<open>notOnRelay\<close>: the counts of one file, and the ids no relay has.\<close>

fun count_missed :: "string \<Rightarrow> string list \<Rightarrow> nid list \<Rightarrow> (nid \<Rightarrow> string \<Rightarrow> nat) \<Rightarrow> nid list \<times> (nid \<Rightarrow> string \<Rightarrow> nat)" where
  "count_missed relay relays [] m = ([], m)"
| "count_missed relay relays (i # is) m =
     (let by = (m i)(relay := m i relay + 1); all_miss = (relays \<noteq> [] \<and> list_all (\<lambda>u. by u \<ge> 2) relays);
          (rest, m) = count_missed relay relays is (m(i := (if all_miss then (\<lambda>_. 0) else by)))
      in (if all_miss then i # rest else rest, m))"

fun drop_missed :: "nid list \<Rightarrow> string list \<Rightarrow> seenIDs \<Rightarrow> string list \<times> seenIDs" where
  "drop_missed [] ls s = (ls, s)"
| "drop_missed (i # is) ls s =
     (if (case s_held s i of Some h \<Rightarrow> h_free h | None \<Rightarrow> False)
      then drop_missed is (ls @ [hex_encode i]) (s\<lparr>s_held := (s_held s)(i := None), s_opened := ring_add (s_opened s) i\<rparr>)
      else drop_missed is ls s)"

definition notOnRelay :: "seen_io \<Rightarrow> string \<Rightarrow> string list \<Rightarrow> nid list \<Rightarrow> seenIDs \<Rightarrow> world \<Rightarrow> seenIDs \<times> world" where
  "notOnRelay io relay relays is s w =
     (let (lost, m) = count_missed relay relays is (heldMissed w (s_path s));
          w = w\<lparr>heldMissed := (heldMissed w)(s_path s := m)\<rparr>; (ls, s) = drop_missed lost [] s
      in write_seen io ls s w)"

definition wanted :: "iter \<Rightarrow> nanos \<Rightarrow> seenIDs \<Rightarrow> nid list \<times> seenIDs" where
  "wanted ord now s =
     (let s = pruneHeld now s in (filter (\<lambda>i. case s_held s i of Some h \<Rightarrow> h_free h | None \<Rightarrow> False) (ord (s_held s)), s))"

definition heldCount :: "seenIDs \<Rightarrow> nat" where
  "heldCount s = card (dom (s_held s))"

definition handed :: "nid \<Rightarrow> seenIDs \<Rightarrow> bool" where
  "handed i s \<longleftrightarrow> ring_has (s_opened s) i"

definition notOpened :: "seen_io \<Rightarrow> nid \<Rightarrow> seenIDs \<Rightarrow> world \<Rightarrow> seenIDs \<times> world" where
  "notOpened io i s w =
     write_seen io [seenUnopenedMark # hex_encode i]
       (s\<lparr>s_queued := s_queued s - {i}, s_held := (s_held s)(i := None), s_unopened := ring_add (s_unopened s) i\<rparr>) w"

definition release_id :: "nid \<Rightarrow> seenIDs \<Rightarrow> seenIDs" where
  "release_id i s = s\<lparr>s_queued := s_queued s - {i}\<rparr>"

definition hand_one :: "seenIDs \<Rightarrow> nid \<Rightarrow> seenIDs" where
  "hand_one s i = s\<lparr>s_queued := s_queued s - {i}, s_held := (s_held s)(i := None), s_opened := ring_add (s_opened s) i\<rparr>"

definition handedOver :: "seen_io \<Rightarrow> nid list \<Rightarrow> seenIDs \<Rightarrow> world \<Rightarrow> seenIDs \<times> world" where
  "handedOver io is s w = write_seen io (map hex_encode is) (foldl hand_one s is) w"

section \<open>Marks and batches\<close>

text \<open>The sets of the runners, by number: those of an address that run now are in \<open>liveSeen\<close>.\<close>

type_synonym heap = "nat \<Rightarrow> seenIDs"

definition seenWhileRunning :: "nat \<Rightarrow> seenIDs \<Rightarrow> world \<Rightarrow> world" where
  "seenWhileRunning p s w =
     (if s_path s = [] then w else w\<lparr>liveSeen := (liveSeen w)(s_path s := insert p (liveSeen w (s_path s)))\<rparr>)"

definition seen_done_running :: "nat \<Rightarrow> seenIDs \<Rightarrow> world \<Rightarrow> world" where
  "seen_done_running p s w =
     (if s_path s = [] then w else w\<lparr>liveSeen := (liveSeen w)(s_path s := liveSeen w (s_path s) - {p})\<rparr>)"

definition markHeldRunning :: "iter \<Rightarrow> string \<Rightarrow> string \<Rightarrow> world \<Rightarrow> heap \<Rightarrow> heap" where
  "markHeldRunning ord path mark w hp = (if path = [] then hp else (\<lambda>p. if p \<in> liveSeen w path then readLine ord mark (hp p) else hp p))"

definition mark_file :: "append_fate \<Rightarrow> string \<Rightarrow> string \<Rightarrow> world \<Rightarrow> world" where
  "mark_file fate path mark w =
     (if path = [] \<or> engineHeld w then w
      else let w = (if mark = seenFreeMark then w\<lparr>heldFreed := (heldFreed w)(path := heldFreed w path + 1)\<rparr> else w)
           in if fileGone path w then w
              else case w_files w path of
                None \<Rightarrow> w
              | Some b \<Rightarrow>
                  (case fate of
                     AppendFails \<Rightarrow> w
                   | AppendPart n \<Rightarrow> w\<lparr>w_files := (w_files w)(path \<mapsto> b @ take n (mark @ [CHR 0x0A]))\<rparr>
                   | AppendDone \<Rightarrow> w\<lparr>w_files := (w_files w)(path \<mapsto> b @ mark @ [CHR 0x0A])\<rparr>))"

definition markHeldFile :: "iter \<Rightarrow> append_fate \<Rightarrow> string \<Rightarrow> string \<Rightarrow> world \<Rightarrow> heap \<Rightarrow> world \<times> heap" where
  "markHeldFile ord fate path mark w hp = (let w = mark_file fate path mark w in (w, markHeldRunning ord path mark w hp))"

record inboxDone =
  d_set :: "nat option"
  d_id :: nid
  d_tries :: nat
  d_at :: unix
  d_resave :: "nat option"
  d_sent :: int
  d_freed :: nat
  d_from :: int
  d_until :: int

text \<open>A batch handed over: one write per set, in the order the sets first come; then each set's last resave, given by its number.\<close>

definition done_ids :: "inboxDone list \<Rightarrow> nat \<Rightarrow> nid list" where
  "done_ids ds p = map d_id (filter (\<lambda>d. d_set d = Some p) ds)"

fun done_order :: "inboxDone list \<Rightarrow> nat list \<Rightarrow> nat list" where
  "done_order [] ps = ps"
| "done_order (d # ds) ps =
     (case d_set d of None \<Rightarrow> done_order ds ps | Some p \<Rightarrow> done_order ds (if p \<in> set ps then ps else ps @ [p]))"

fun done_saves :: "inboxDone list \<Rightarrow> (nat option \<rightharpoonup> nat) \<Rightarrow> (nat option \<rightharpoonup> nat)" where
  "done_saves [] m = m"
| "done_saves (d # ds) m = done_saves ds (case d_resave d of None \<Rightarrow> m | Some r \<Rightarrow> m(d_set d \<mapsto> r))"

definition markHandedOver :: "(nat \<Rightarrow> seen_io) \<Rightarrow> inboxDone list \<Rightarrow> world \<Rightarrow> heap \<Rightarrow> nat set \<times> world \<times> heap" where
  "markHandedOver io ds w hp =
     (if ds = [] then ({}, w, hp)
      else let (w, hp) = foldl (\<lambda>(w, hp) p. let (s, w) = handedOver (io p) (done_ids ds p) (hp p) w in (w, hp(p := s))) (w, hp) (done_order ds [])
           in (ran (done_saves ds Map.empty), w, hp))"

end
