(* ===== verification/Seen_File.thy ===== *)
theory Seen_File
  imports Seen
begin

text \<open>
  The file of an address (\<open>engine/seen.go\<close>): what a restart reads from it, also after it was rewritten.
\<close>

section \<open>Lines of a file\<close>

definition line_text :: "string \<Rightarrow> bool" where
  "line_text l \<longleftrightarrow> l \<noteq> [] \<and> CHR 0x0A \<notin> set l"

lemma split_join: "ls \<noteq> [] \<Longrightarrow> list_all (\<lambda>l. CHR 0x0A \<notin> set l) ls \<Longrightarrow> split_at (CHR 0x0A) (Join_nl ls @ CHR 0x0A # b) = ls @ split_at (CHR 0x0A) b"
  by (induction ls rule: Join_nl.induct) (simp_all add: split_at_sep)

lemma file_lines_text: "list_all line_text ls \<Longrightarrow> filter (\<lambda>l. l \<noteq> []) (file_lines (lines_text ls)) = ls"
proof (cases "ls = []")
  case False
  assume a: "list_all line_text ls"
  then have "list_all (\<lambda>l. CHR 0x0A \<notin> set l) ls" "filter (\<lambda>l. l \<noteq> []) ls = ls"
    by (auto simp: list_all_iff line_text_def filter_id_conv)
  then show ?thesis using split_join [OF False, of "[]"] by (simp add: file_lines_def lines_text_def)
qed (simp add: file_lines_def lines_text_def)

lemma split_at_no_sep: "l \<in> set (split_at c s) \<Longrightarrow> c \<notin> set l"
proof (induction s arbitrary: l)
  case (Cons x s)
  obtain p ps where p: "split_at c s = p # ps" using split_at_nonempty [of c s] by (cases "split_at c s") auto
  then have "c \<notin> set p" "\<And>q. q \<in> set ps \<Longrightarrow> c \<notin> set q" using Cons.IH by auto
  then show ?case using Cons.prems p by (auto split: if_splits)
qed simp

lemma split_at_chars: "l \<in> set (split_at c s) \<Longrightarrow> set l \<subseteq> set s"
proof (induction s arbitrary: l)
  case (Cons x s)
  obtain p ps where p: "split_at c s = p # ps" using split_at_nonempty [of c s] by (cases "split_at c s") auto
  then have "set p \<subseteq> set s" "\<And>q. q \<in> set ps \<Longrightarrow> set q \<subseteq> set s" using Cons.IH by auto
  then show ?case using Cons.prems p by (fastforce split: if_splits)
qed simp

lemma split_at_mid: "split_at c (s @ c # t) = split_at c s @ split_at c t"
proof (induction s)
  case (Cons x s)
  obtain p ps where "split_at c s = p # ps" using split_at_nonempty [of c s] by (cases "split_at c s") auto
  then show ?case using Cons by simp
qed (simp split: list.split)

definition whole :: "string \<Rightarrow> bool" where
  "whole b \<longleftrightarrow> b = [] \<or> last b = CHR 0x0A"

lemma file_lines_append:
  assumes "whole b"
  shows "filter (\<lambda>l. l \<noteq> []) (file_lines (b @ t)) = filter (\<lambda>l. l \<noteq> []) (file_lines b) @ filter (\<lambda>l. l \<noteq> []) (file_lines t)"
proof (cases "b = []")
  case False
  then obtain u where "b = u @ [CHR 0x0A]" using assms by (metis append_butlast_last_id whole_def)
  then show ?thesis using split_at_mid [of "CHR 0x0A" u t] split_at_mid [of "CHR 0x0A" u "[]"] by (simp add: file_lines_def)
qed (simp add: file_lines_def)

text \<open>Lines that are empty count for nothing, so a file is read through the others.\<close>

lemma read_lines_filter: "read_lines ord ls s = read_lines ord (filter (\<lambda>l. l \<noteq> []) ls) s"
  by (induction ls arbitrary: s) (simp_all add: read_lines_def)

lemma compact_lines_filter: "foldl compact_line c ls = foldl compact_line c (filter (\<lambda>l. l \<noteq> []) ls)"
  by (induction ls arbitrary: c) (simp_all add: compact_line_def)

lemma read_lines_simps [simp]:
  "read_lines ord [] s = s"
  "read_lines ord (l # ls) s = read_lines ord ls (if l = [] then s else readLine ord l (s\<lparr>s_lines := s_lines s + 1\<rparr>))"
  "read_lines ord (ls @ ms) s = read_lines ord ms (read_lines ord ls s)"
  by (simp_all add: read_lines_def)

section \<open>Rewriting keeps what is held\<close>

lemma drop_held_all: "dom held \<subseteq> set is \<Longrightarrow> snd (drop_held is ops held) = Map.empty"
proof (induction "is" arbitrary: ops held)
  case (Cons i "is")
  have "dom (held(i := None)) \<subseteq> set is" using Cons.prems by auto
  then have "snd (drop_held is (ops @ [hex_encode i]) (held(i := None))) = Map.empty" by (rule Cons.IH)
  moreover have "dom held \<subseteq> set is" if "held i = None" using Cons.prems that by auto
  ultimately show ?case using Cons.IH by simp
qed auto

text \<open>The two readers of the file see the same ids held, each of which its order names.\<close>

definition same_held :: "seenIDs \<Rightarrow> compacting \<Rightarrow> bool" where
  "same_held s c \<longleftrightarrow> s_held s = c_held c \<and> dom (c_held c) \<subseteq> set (c_order c)"

lemma free_all_dom [simp]: "dom (free_all held) = dom held"
  by (auto simp: free_all_def dom_def)

lemma line_same_held:
  assumes "same_held s c" and "l \<noteq> []"
  shows "same_held (readLine ord l (s\<lparr>s_lines := k\<rparr>)) (compact_line c l)"
proof -
  have drop: "snd (drop_held (c_order c) (c_opened c) (c_held c)) = Map.empty" using assms(1) drop_held_all by (auto simp: same_held_def)
  show ?thesis
  proof (cases "l = seenDropMark")
    case True
    then show ?thesis using drop by (simp add: same_held_def readLine_def compact_line_def seen_marks split_beta Let_def)
  next
    case False
    then show ?thesis using assms
      by (auto simp: same_held_def readLine_def compact_line_def Let_def split: option.splits if_splits)
  qed
qed

lemma lines_same_held: "same_held s c \<Longrightarrow> same_held (read_lines ord ls s) (foldl compact_line c ls)"
proof (induction ls arbitrary: s c)
  case (Cons l ls)
  then show ?case using line_same_held [OF Cons.prems, of l] by (cases "l = []") (simp_all add: compact_line_def)
qed simp

lemma start_same_held: "same_held (new_seen path) compact_start"
  by (simp add: same_held_def new_seen_def compact_start_def)

text \<open>What is written of them: each once, unless it is gone.\<close>

lemma still_held_out:
  "distinct (map fst (still_held now held is)) \<and>
   map_of (still_held now held is) = (\<lambda>i. if i \<in> set is then prune now held i else None)"
proof (induction "is" arbitrary: held)
  case (Cons i "is")
  show ?case
  proof (cases "prune now held i")
    case None
    then have "still_held now held (i # is) = still_held now held is" by (auto simp: prune_def split: option.splits if_splits)
    moreover have "distinct (map fst (still_held now held is)) \<and> map_of (still_held now held is) = (\<lambda>i. if i \<in> set is then prune now held i else None)"
      by (rule Cons.IH)
    ultimately show ?thesis using None by (auto simp: fun_eq_iff)
  next
    case (Some h)
    then have h: "held i = Some h" "\<not> heldGone (h_at h) now" by (auto simp: prune_def split: option.splits if_splits)
    let ?r = "still_held now (held(i := None)) is"
    have r: "distinct (map fst ?r)" "map_of ?r = (\<lambda>j. if j \<in> set is then prune now (held(i := None)) j else None)"
      using Cons.IH [of "held(i := None)"] by blast+
    have "map_of ?r i = None" using r(2) by (simp add: prune_def)
    then have "i \<notin> fst ` set ?r" by (simp add: map_of_eq_None_iff)
    moreover have "prune now (held(i := None)) j = prune now held j" if "j \<noteq> i" for j using that by (simp add: prune_def)
    ultimately show ?thesis using r h Some by (auto simp: fun_eq_iff)
  qed
qed simp

section \<open>Reading it back\<close>

text \<open>Within the limits: as many ids, groups and ids of a group as may be held.\<close>

definition held_fits :: "held_map \<Rightarrow> bool" where
  "held_fits held \<longleftrightarrow> finite (dom held) \<and> card (dom held) \<le> seenHeldMost \<and> card (groups_of held) \<le> seenHeldKeep \<and>
     (\<forall>g. in_group held g \<le> seenHeldPerGroup)"

lemma fits_room:
  assumes "held_fits M" and "\<And>j h. m j = Some h \<Longrightarrow> \<exists>h'. M j = Some h' \<and> h_group h' = h_group h" and "m i = None"
    and "M i = Some h0"
  shows "heldRoom m (h_group h0)"
proof -
  let ?g = "h_group h0"
  have fin: "finite (dom M)" using assms(1) by (simp add: held_fits_def)
  have "i \<in> dom M" "i \<notin> dom m" "dom m \<subseteq> dom M" using assms(2-4) by blast+
  then have sub: "dom m \<subset> dom M" by blast
  then have few: "card (dom m) < seenHeldMost" using psubset_card_mono [OF fin sub] assms(1) by (simp add: held_fits_def)
  have "{j. \<exists>h. m j = Some h \<and> h_group h = ?g} \<subseteq> {j. \<exists>h. M j = Some h \<and> h_group h = ?g}" using assms(2) by fastforce
  moreover have "i \<in> {j. \<exists>h. M j = Some h \<and> h_group h = ?g} - {j. \<exists>h. m j = Some h \<and> h_group h = ?g}" using assms(3,4) by simp
  ultimately have "{j. \<exists>h. m j = Some h \<and> h_group h = ?g} \<subset> {j. \<exists>h. M j = Some h \<and> h_group h = ?g}" by blast
  moreover have "finite {j. \<exists>h. M j = Some h \<and> h_group h = ?g}" using fin by (rule rev_finite_subset) auto
  ultimately have "in_group m ?g < in_group M ?g" unfolding in_group_def by (rule psubset_card_mono [rotated])
  then have grp: "in_group m ?g < seenHeldPerGroup" using assms(1) by (meson held_fits_def less_le_trans)
  have "card (groups_of m) < seenHeldKeep" if "in_group m ?g = 0"
  proof -
    have fm: "finite (dom m)" using sub fin finite_subset by blast
    have "finite {j. \<exists>h. m j = Some h \<and> h_group h = ?g}" using fm by (rule rev_finite_subset) auto
    then have "{j. \<exists>h. m j = Some h \<and> h_group h = ?g} = {}" using that by (simp add: in_group_def)
    then have "?g \<notin> groups_of m" unfolding groups_of_def ran_def by force
    moreover have "?g \<in> groups_of M" using assms(4) by (auto simp: groups_of_def ran_def)
    moreover have "groups_of m \<subseteq> groups_of M"
    proof
      fix g assume "g \<in> groups_of m"
      then obtain j h where "m j = Some h" "h_group h = g" by (auto simp: groups_of_def ran_def)
      then obtain h' where "M j = Some h'" "h_group h' = g" using assms(2) by blast
      then show "g \<in> groups_of M" unfolding groups_of_def ran_def by blast
    qed
    moreover have "finite (groups_of M)" using fin by (simp add: groups_of_def finite_ran)
    ultimately have "card (groups_of m) < card (groups_of M)" by (metis psubsetI psubset_card_mono)
    then show ?thesis using assms(1) by (simp add: held_fits_def)
  qed
  then show ?thesis using few grp by (simp add: heldRoom_def)
qed

lemma heldLine_prefix: "heldLine i h \<noteq> [] \<and> heldLine i h \<noteq> seenFreeMark \<and> heldLine i h \<noteq> seenDropMark \<and> has_prefix (heldLine i h) [seenHeldMark]"
  by (simp add: heldLine_def seen_marks has_prefix_def)

definition unfreed :: "(nid \<times> heldAt) list \<Rightarrow> held_map" where
  "unfreed xs = (\<lambda>i. map_option (\<lambda>h. h\<lparr>h_free := False\<rparr>) (map_of xs i))"

text \<open>Lines of ids that fit together are all taken, and change nothing else.\<close>

lemma read_held_lines:
  assumes "held_fits M" and "distinct (map fst xs)" and "\<And>i h. (i, h) \<in> set xs \<Longrightarrow> M i = Some h \<and> line_ok i h"
    and "\<And>j h. s_held s j = Some h \<Longrightarrow> \<exists>h'. M j = Some h' \<and> h_group h' = h_group h"
    and "dom (s_held s) \<inter> fst ` set xs = {}"
  shows "read_lines ord (map (\<lambda>(i, h). heldLine i h) xs) s =
    s\<lparr>s_held := s_held s ++ unfreed xs, s_lines := s_lines s + length xs\<rparr>"
  using assms(2-5)
proof (induction xs arbitrary: s)
  case Nil
  then show ?case by (simp add: unfreed_def)
next
  case (Cons x xs)
  obtain i h where x: "x = (i, h)" by (cases x)
  have M: "M i = Some h" "line_ok i h" using Cons.prems(2) x by auto
  have new: "s_held s i = None" using Cons.prems(4) x by auto
  let ?s = "s\<lparr>s_held := (s_held s)(i \<mapsto> h\<lparr>h_free := False\<rparr>), s_lines := s_lines s + 1\<rparr>"
  have "heldRoom (s_held s) (h_group h)" using Cons.prems(3) new M(1) by (intro fits_room [where M = M and i = i, OF assms(1)]) auto
  then have one: "readLine ord (heldLine i h) (s\<lparr>s_lines := s_lines s + 1\<rparr>) = ?s"
    using heldLine_prefix [of i h] held_line_roundtrip [OF M(2)] by (simp add: readLine_def)
  have rest: "read_lines ord (map (\<lambda>(i, h). heldLine i h) xs) ?s =
      ?s\<lparr>s_held := s_held ?s ++ unfreed xs, s_lines := s_lines ?s + length xs\<rparr>"
  proof (rule Cons.IH)
    show "\<And>j h. s_held ?s j = Some h \<Longrightarrow> \<exists>h'. M j = Some h' \<and> h_group h' = h_group h"
      using Cons.prems(3) M(1) by (auto split: if_splits)
    show "dom (s_held ?s) \<inter> fst ` set xs = {}" using Cons.prems(1,4) x by auto
  qed (use Cons.prems in auto)
  have u: "unfreed (x # xs) = (unfreed xs)(i \<mapsto> h\<lparr>h_free := False\<rparr>)" using x by (simp add: unfreed_def fun_eq_iff)
  have "unfreed xs i = None" using Cons.prems(1) x by (simp add: unfreed_def map_of_eq_None_iff)
  then have m: "(s_held s)(i \<mapsto> h\<lparr>h_free := False\<rparr>) ++ unfreed xs = s_held s ++ unfreed (x # xs)"
    unfolding u by (auto simp: fun_eq_iff map_add_def split: option.split)
  have "read_lines ord (map (\<lambda>(i, h). heldLine i h) xs) ?s = s\<lparr>s_held := s_held s ++ unfreed (x # xs), s_lines := s_lines s + length (x # xs)\<rparr>"
    unfolding rest m [symmetric] by simp
  then show ?case using one heldLine_prefix [of i h] x by simp
qed

section \<open>What a rewritten file is made of\<close>

definition opened_line :: "string \<Rightarrow> bool" where
  "opened_line l \<longleftrightarrow> line_text l \<and> l \<noteq> seenFreeMark \<and> l \<noteq> seenDropMark \<and> hd l \<noteq> seenHeldMark \<and> hd l \<noteq> seenUnopenedMark"

definition unopened_line :: "string \<Rightarrow> bool" where
  "unopened_line l \<longleftrightarrow> line_text l \<and> hd l = seenUnopenedMark"

definition compact_ok :: "compacting \<Rightarrow> bool" where
  "compact_ok c \<longleftrightarrow> list_all opened_line (c_opened c) \<and> list_all unopened_line (c_unopened c) \<and>
     (\<forall>i h. c_held c i = Some h \<longrightarrow> line_ok i h)"

lemma hex_encode_val: "c \<in> set (hex_encode s) \<Longrightarrow> hex_val c \<noteq> None"
proof -
  assume "c \<in> set (hex_encode s)"
  then obtain x where "c = hex_digit ((of_char x :: nat) div 16) \<or> c = hex_digit ((of_char x :: nat) mod 16)"
    by (auto simp: hex_encode_def Let_def)
  moreover have "(of_char x :: nat) div 16 < 16" "(of_char x :: nat) mod 16 < 16" using nat_of_char_less_256 [of x] by linarith+
  ultimately show ?thesis using hex_val_digit by (metis option.distinct(1))
qed

lemma hex_opened_line:
  assumes "length i = 32"
  shows "opened_line (hex_encode i)"
proof -
  have ne: "hex_encode i \<noteq> []" using assms by (auto simp flip: length_0_conv)
  then have hd: "hex_val (hd (hex_encode i)) \<noteq> None" by (intro hex_encode_val [OF hd_in_set])
  have "CHR 0x0A \<notin> set (hex_encode i)" using hex_encode_val [of "CHR 0x0A" i] by (auto simp: hex_val_def)
  moreover have "hd (hex_encode i) \<notin> {CHR ''!'', CHR ''~'', CHR ''+'', CHR ''-''}" using hd by (auto simp: hex_val_def)
  ultimately show ?thesis using ne by (auto simp: opened_line_def line_text_def seen_marks)
qed

lemma drop_held_out:
  "set (fst (drop_held is ops held)) \<subseteq> set ops \<union> hex_encode ` dom held \<and>
   (\<forall>j h. snd (drop_held is ops held) j = Some h \<longrightarrow> held j = Some h)"
proof (induction "is" arbitrary: ops held)
  case (Cons i "is")
  show ?case
  proof (cases "held i = None")
    case False
    let ?r = "drop_held is (ops @ [hex_encode i]) (held(i := None))"
    note ih = Cons.IH [of "ops @ [hex_encode i]" "held(i := None)"]
    have "set (ops @ [hex_encode i]) \<union> hex_encode ` dom (held(i := None)) \<subseteq> set ops \<union> hex_encode ` dom held" using False by auto
    then have "set (fst ?r) \<subseteq> set ops \<union> hex_encode ` dom held" using ih by (meson subset_trans)
    moreover have "held j = Some h" if "snd ?r j = Some h" for j h
    proof -
      have "(held(i := None)) j = Some h" using ih that by blast
      then show ?thesis by (simp split: if_splits)
    qed
    moreover have "drop_held (i # is) ops held = ?r" using False by simp
    ultimately show ?thesis by simp
  qed (use Cons.IH in simp)
qed simp

text \<open>What is held once a line names an id that is finished with.\<close>

definition without_line :: "string \<Rightarrow> held_map \<Rightarrow> held_map" where
  "without_line l held = (case parseSeenID l of Some i \<Rightarrow> held(i := None) | None \<Rightarrow> held)"

lemma without_line_sub: "without_line l held i = Some h \<Longrightarrow> held i = Some h"
  by (auto simp: without_line_def split: option.splits if_splits)

lemma compact_line_ok:
  assumes "compact_ok c" and "ascii l" and "CHR 0x0A \<notin> set l"
  shows "compact_ok (compact_line c l)"
proof -
  have free: "line_ok i (h\<lparr>h_free := True\<rparr>) = line_ok i h" for i h by (simp add: line_ok_def)
  consider "l = []" | "l = seenFreeMark" | "l = seenDropMark" | (held) "l \<noteq> []" "hd l = seenHeldMark"
    | (un) "unopened_line l" | (op) "opened_line l"
    using assms(3) by (auto simp: opened_line_def unopened_line_def line_text_def)
  then show ?thesis
  proof cases
    case 3
    let ?d = "drop_held (c_order c) (c_opened c) (c_held c)"
    note out = drop_held_out [of "c_order c" "c_opened c" "c_held c"]
    have "opened_line l" if "l \<in> set (fst ?d)" for l
    proof -
      have "l \<in> set (c_opened c) \<or> l \<in> hex_encode ` dom (c_held c)" using out that by blast
      then show ?thesis using assms(1) hex_opened_line by (auto simp: list_all_iff compact_ok_def line_ok_def)
    qed
    then have "list_all opened_line (fst ?d)" by (simp add: list_all_iff)
    moreover have "\<forall>i h. snd ?d i = Some h \<longrightarrow> line_ok i h" using out assms(1) unfolding compact_ok_def by blast
    ultimately show ?thesis using 3 assms(1) by (simp add: compact_line_def compact_ok_def seen_marks split_beta Let_def)
  next
    case held
    then have "compact_line c l = c \<or> (\<exists>i h os. parseHeldLine l = Some (i, h) \<and> compact_line c l = c\<lparr>c_order := os, c_held := (c_held c)(i \<mapsto> h)\<rparr>)"
      by (cases l) (auto simp: compact_line_def seen_marks has_prefix_def split: option.splits intro: exI [of _ "c_order c"])
    then show ?thesis using assms(1) parseHeldLine_ok [OF _ assms(2)] by (auto simp: compact_ok_def split: if_splits)
  next
    case un
    then have "compact_line c l = c\<lparr>c_unopened := c_unopened c @ [l], c_held := without_line (tl l) (c_held c)\<rparr>"
      by (cases l) (auto simp: compact_line_def unopened_line_def line_text_def seen_marks has_prefix_def without_line_def Let_def split: option.splits)
    then show ?thesis using assms(1) un without_line_sub [of "tl l" "c_held c"] by (auto simp: compact_ok_def)
  next
    case op
    then have "compact_line c l = c\<lparr>c_opened := c_opened c @ [l], c_held := without_line l (c_held c)\<rparr>"
      by (cases l) (auto simp: compact_line_def opened_line_def line_text_def seen_marks has_prefix_def without_line_def Let_def split: option.splits)
    then show ?thesis using assms(1) op without_line_sub [of l "c_held c"] by (auto simp: compact_ok_def)
  qed (use assms(1) in \<open>auto simp: compact_line_def compact_ok_def free_all_def free seen_marks\<close>)
qed

definition compacted :: "string \<Rightarrow> compacting" where
  "compacted b = foldl compact_line compact_start (file_lines b)"

lemma compacted_ok:
  assumes "ascii b"
  shows "compact_ok (compacted b)"
proof -
  have l: "ascii l \<and> CHR 0x0A \<notin> set l" if "l \<in> set (file_lines b)" for l
    using that split_at_no_sep split_at_chars assms unfolding file_lines_def ascii_def list_all_iff by blast
  have "compact_ok (foldl compact_line c ls)" if "compact_ok c" and "\<And>l. l \<in> set ls \<Longrightarrow> ascii l \<and> CHR 0x0A \<notin> set l" for c ls
    using that by (induction ls arbitrary: c) (simp_all add: compact_line_ok)
  moreover have "compact_ok compact_start" by (simp add: compact_ok_def compact_start_def)
  ultimately show ?thesis using l unfolding compacted_def by blast
qed

lemma held_as_compacted: "s_held (read_lines ord (file_lines b) (new_seen path)) = c_held (compacted b)"
  using lines_same_held [OF start_same_held] by (simp add: same_held_def compacted_def)

lemma order_names_held: "dom (c_held (compacted b)) \<subseteq> set (c_order (compacted b))"
  using lines_same_held [OF start_same_held, of undefined "file_lines b" "[]"] by (simp add: same_held_def compacted_def)

text \<open>Lines of ids that are finished with, read while nothing is held.\<close>

lemma read_opened_lines:
  "list_all opened_line ls \<Longrightarrow> s_held s = Map.empty \<Longrightarrow>
   read_lines ord ls s = s\<lparr>s_opened := foldl ring_add (s_opened s) (List.map_filter parseSeenID ls), s_lines := s_lines s + length ls\<rparr>"
proof (induction ls arbitrary: s)
  case (Cons l ls)
  have l: "l \<noteq> []" "\<not> has_prefix l [seenHeldMark]" "\<not> has_prefix l [seenUnopenedMark]" "l \<noteq> seenFreeMark" "l \<noteq> seenDropMark"
    using Cons.prems(1) by (cases l; auto simp: opened_line_def line_text_def has_prefix_def)+
  let ?s = "readLine ord l (s\<lparr>s_lines := s_lines s + 1\<rparr>)"
  have s: "s_held ?s = Map.empty" "?s = s\<lparr>s_opened := foldl ring_add (s_opened s) (List.map_filter parseSeenID [l]), s_lines := s_lines s + 1\<rparr>"
    using l Cons.prems(2) by (auto simp: readLine_def map_filter_simps split: option.split intro!: seenIDs.equality)
  have "read_lines ord ls ?s = ?s\<lparr>s_opened := foldl ring_add (s_opened ?s) (List.map_filter parseSeenID ls), s_lines := s_lines ?s + length ls\<rparr>"
    by (rule Cons.IH) (use Cons.prems s(1) in simp_all)
  moreover have "read_lines ord (l # ls) s = read_lines ord ls ?s" using l(1) by simp
  ultimately show ?case by (simp only: s(2)) (simp add: map_filter_simps split: option.split)
qed (simp add: map_filter_simps)

lemma read_unopened_lines:
  "list_all unopened_line ls \<Longrightarrow> s_held s = Map.empty \<Longrightarrow>
   \<exists>r. read_lines ord ls s = s\<lparr>s_unopened := r, s_lines := s_lines s + length ls\<rparr>"
proof (induction ls arbitrary: s)
  case Nil
  then show ?case by (intro exI [of _ "s_unopened s"]) simp
next
  case (Cons l ls)
  have l: "l \<noteq> []" "\<not> has_prefix l [seenHeldMark]" "has_prefix l [seenUnopenedMark]" "l \<noteq> seenFreeMark" "l \<noteq> seenDropMark"
    using Cons.prems(1) by (cases l; auto simp: unopened_line_def line_text_def has_prefix_def seen_marks)+
  let ?s = "readLine ord l (s\<lparr>s_lines := s_lines s + 1\<rparr>)"
  obtain r where s: "?s = s\<lparr>s_unopened := r, s_lines := s_lines s + 1\<rparr>"
    using l Cons.prems(2) by (cases "parseSeenID (tl l)") (auto simp: readLine_def intro!: that seenIDs.equality)
  obtain r' where "read_lines ord ls ?s = ?s\<lparr>s_unopened := r', s_lines := s_lines ?s + length ls\<rparr>"
    using Cons.IH [of ?s] Cons.prems s by auto
  moreover have "read_lines ord (l # ls) s = read_lines ord ls ?s" using l(1) by simp
  ultimately show ?case by (intro exI [of _ r']) (simp only: s, simp)
qed

section \<open>A restart\<close>

lemma newest_lines_sub: "set (newest_lines n xs) \<subseteq> set xs" "length (newest_lines n xs) \<le> n"
  by (auto simp: newest_lines_def dest: in_set_dropD)

lemma newest_lines_all: "list_all P xs \<Longrightarrow> list_all P (newest_lines n xs)"
  using newest_lines_sub(1) by (fastforce simp: list_all_iff)

lemma map_of_filter_split:
  assumes "distinct (map fst xs)"
  shows "map_of (filter P xs) ++ map_of (filter (\<lambda>x. \<not> P x) xs) = map_of xs"
proof
  fix i
  show "(map_of (filter P xs) ++ map_of (filter (\<lambda>x. \<not> P x) xs)) i = map_of xs i"
    using assms
  proof (induction xs)
    case (Cons x xs)
    have "map_of (filter Q xs) (fst x) = None" for Q
      using Cons.prems by (auto simp: map_of_eq_None_iff)
    then show ?case using Cons by (cases x) (auto simp: map_add_def split: option.splits)
  qed simp
qed

lemma same_free: "h_free h = f \<Longrightarrow> h\<lparr>h_free := f\<rparr> = h"
  by (cases h) simp

lemma unfreed_id: "(\<And>i h. (i, h) \<in> set xs \<Longrightarrow> \<not> h_free h) \<Longrightarrow> unfreed xs = map_of xs"
proof
  fix i assume "\<And>i h. (i, h) \<in> set xs \<Longrightarrow> \<not> h_free h"
  then show "unfreed xs i = map_of xs i" by (cases "map_of xs i") (auto simp: unfreed_def same_free dest!: map_of_SomeD)
qed

lemma free_unfreed: "(\<And>i h. (i, h) \<in> set xs \<Longrightarrow> h_free h) \<Longrightarrow> free_all (unfreed xs) = map_of xs"
proof
  fix i assume "\<And>i h. (i, h) \<in> set xs \<Longrightarrow> h_free h"
  then show "free_all (unfreed xs) i = map_of xs i"
    by (cases "map_of xs i") (auto simp: unfreed_def free_all_def same_free dest!: map_of_SomeD)
qed

lemma read_free_mark: "read_lines ord [seenFreeMark] s = s\<lparr>s_held := free_all (s_held s), s_lines := s_lines s + 1\<rparr>"
  by (simp add: readLine_def seen_marks)

text \<open>The lines that are still held, read after lines that leave nothing held: what is held is what was written.\<close>

lemma read_still_held:
  assumes fits: "held_fits M" and d: "distinct (map fst out)" and out: "\<And>i h. (i, h) \<in> set out \<Longrightarrow> M i = Some h \<and> line_ok i h"
    and s: "s_held s = Map.empty"
  defines "frees \<equiv> filter (\<lambda>(i, h). h_free h) out" and "still \<equiv> filter (\<lambda>(i, h). \<not> h_free h) out"
  shows "\<exists>n. read_lines ord (map (\<lambda>(i, h). heldLine i h) frees @ (if frees \<noteq> [] then [seenFreeMark] else []) @ map (\<lambda>(i, h). heldLine i h) still) s =
    s\<lparr>s_held := map_of out, s_lines := n\<rparr>"
proof -
  let ?s1 = "s\<lparr>s_held := unfreed frees, s_lines := s_lines s + length frees\<rparr>"
  have F: "distinct (map fst frees)" "distinct (map fst still)" "\<And>i h. (i, h) \<in> set frees \<Longrightarrow> h_free h \<and> (i, h) \<in> set out"
    "\<And>i h. (i, h) \<in> set still \<Longrightarrow> \<not> h_free h \<and> (i, h) \<in> set out"
    using d by (auto simp: frees_def still_def distinct_map_filter)
  have 1: "read_lines ord (map (\<lambda>(i, h). heldLine i h) frees) s = ?s1"
    using read_held_lines [OF fits F(1), of s ord] F(3) out s by simp
  have "\<exists>n. read_lines ord (if frees \<noteq> [] then [seenFreeMark] else []) ?s1 = s\<lparr>s_held := map_of frees, s_lines := n\<rparr>"
  proof (cases "frees = []")
    case True
    then show ?thesis by (intro exI [of _ "s_lines s"]) (simp add: unfreed_def)
  next
    case False
    then show ?thesis using free_unfreed [of frees] F(3) read_free_mark [of ord ?s1] by (intro exI [of _ "s_lines ?s1 + 1"]) simp
  qed
  then obtain n where 2: "read_lines ord (if frees \<noteq> [] then [seenFreeMark] else []) ?s1 = s\<lparr>s_held := map_of frees, s_lines := n\<rparr>" by blast
  let ?s2 = "s\<lparr>s_held := map_of frees, s_lines := n\<rparr>"
  have "fst ` set frees \<inter> fst ` set still = {}"
  proof -
    have "inj_on fst (set out)" using d by (simp add: distinct_map)
    then show ?thesis using F(3,4) by (force simp: inj_on_def)
  qed
  then have dis: "dom (s_held ?s2) \<inter> fst ` set still = {}" by (simp add: dom_map_of_conv_image_fst)
  have sub: "\<exists>h'. M j = Some h' \<and> h_group h' = h_group h" if "s_held ?s2 j = Some h" for j h
  proof -
    have "(j, h) \<in> set frees" using that by (simp add: map_of_SomeD)
    then show ?thesis using F(3) out by blast
  qed
  have 3: "read_lines ord (map (\<lambda>(i, h). heldLine i h) still) ?s2 =
      ?s2\<lparr>s_held := s_held ?s2 ++ unfreed still, s_lines := s_lines ?s2 + length still\<rparr>"
  proof (rule read_held_lines [where M = M])
    show "M i = Some h \<and> line_ok i h" if "(i, h) \<in> set still" for i h using F(4) [OF that] out by blast
    show "\<exists>h'. M j = Some h' \<and> h_group h' = h_group h" if "s_held ?s2 j = Some h" for j h using that by (rule sub)
  qed (fact fits F(2) dis)+
  have "unfreed still = map_of still" using unfreed_id F(4) by blast
  moreover have "map_of frees ++ map_of still = map_of out"
    using map_of_filter_split [OF d, of "\<lambda>(i, h). h_free h"] by (simp add: frees_def still_def case_prod_unfold)
  ultimately have "?s2\<lparr>s_held := s_held ?s2 ++ unfreed still, s_lines := s_lines ?s2 + length still\<rparr> = s\<lparr>s_held := map_of out, s_lines := n + length still\<rparr>"
    by simp
  then show ?thesis unfolding read_lines_simps(3) 1 2 3 by blast
qed

lemma out_held: "(i, h) \<in> set (still_held now held is) \<Longrightarrow> held i = Some h"
proof -
  assume "(i, h) \<in> set (still_held now held is)"
  then have "map_of (still_held now held is) i = Some h" using still_held_out [of now held "is"] by (intro map_of_is_SomeI) blast+
  then show ?thesis using still_held_out [of now held "is"] by (auto simp: prune_def split: if_splits option.splits)
qed

lemma read_compacted:
  assumes "ascii b" and "held_fits (c_held (compacted b))"
  shows "\<exists>r n. read_lines ord (compact_keep now b) (new_seen p) =
    (new_seen p)\<lparr>s_opened := foldl ring_add (newIDRing seenKeep) (List.map_filter parseSeenID (newest_lines seenKeep (c_opened (compacted b)))),
      s_unopened := r, s_held := prune now (c_held (compacted b)), s_lines := n\<rparr>"
proof -
  let ?c = "compacted b"
  let ?out = "still_held now (c_held ?c) (c_order ?c)" and ?op = "newest_lines seenKeep (c_opened ?c)" and ?un = "newest_lines seenUnopenedKeep (c_unopened ?c)"
  have ok: "list_all opened_line ?op" "list_all unopened_line ?un" "\<And>i h. c_held ?c i = Some h \<Longrightarrow> line_ok i h"
    using compacted_ok [OF assms(1)] by (auto simp: compact_ok_def intro: newest_lines_all)
  let ?s1 = "(new_seen p)\<lparr>s_opened := foldl ring_add (newIDRing seenKeep) (List.map_filter parseSeenID ?op), s_lines := length ?op\<rparr>"
  have 1: "read_lines ord ?op (new_seen p) = ?s1" using read_opened_lines [OF ok(1), of "new_seen p" ord] by (simp add: new_seen_def)
  have e1: "s_held ?s1 = Map.empty" by (simp add: new_seen_def)
  obtain r where 2: "read_lines ord ?un ?s1 = ?s1\<lparr>s_unopened := r, s_lines := s_lines ?s1 + length ?un\<rparr>" (is "_ = ?s2")
    using read_unopened_lines [OF ok(2) e1, of ord] by blast
  have e2: "s_held ?s2 = Map.empty" by (simp add: new_seen_def)
  have "distinct (map fst ?out)" "map_of ?out = prune now (c_held ?c)"
    using still_held_out [of now "c_held ?c" "c_order ?c"] order_names_held [of b] by (auto simp: fun_eq_iff prune_def split: option.split)
  then obtain n where 3: "read_lines ord (map (\<lambda>(i, h). heldLine i h) (filter (\<lambda>(i, h). h_free h) ?out) @
      (if filter (\<lambda>(i, h). h_free h) ?out \<noteq> [] then [seenFreeMark] else []) @
      map (\<lambda>(i, h). heldLine i h) (filter (\<lambda>(i, h). \<not> h_free h) ?out)) ?s2 = ?s2\<lparr>s_held := prune now (c_held ?c), s_lines := n\<rparr>"
    using read_still_held [OF assms(2) _ _ e2, of ?out ord] out_held ok(3) by metis
  show ?thesis unfolding compact_keep_def Let_def compacted_def [symmetric] read_lines_simps(3) 1 2 3 [unfolded read_lines_simps(3)]
    by (intro exI [of _ r] exI [of _ n]) (simp add: new_seen_def)
qed

lemma word_no_newline: "word_text t \<Longrightarrow> CHR 0x0A \<notin> set t"
  by (auto simp: word_text_def list_all_iff IsSpace_def)

lemma heldLine_text: "line_ok i h \<Longrightarrow> line_text (heldLine i h)"
  using hex_opened_line [of i] Itoa_word [THEN conjunct1, THEN word_no_newline] word_no_newline [of "h_group h"]
  by (auto simp: line_text_def heldLine_def line_ok_def opened_line_def seen_marks)

lemma compact_keep_lines:
  assumes "ascii b"
  shows "list_all line_text (compact_keep now b)"
proof -
  note ok = compacted_ok [OF assms]
  have "list_all line_text (c_opened (compacted b))" "list_all line_text (c_unopened (compacted b))"
    using ok by (simp_all add: compact_ok_def opened_line_def unopened_line_def list_all_iff)
  then have "list_all line_text (newest_lines seenKeep (c_opened (compacted b)))"
    "list_all line_text (newest_lines seenUnopenedKeep (c_unopened (compacted b)))" by (simp_all add: newest_lines_all)
  moreover have "line_text (heldLine i h)" if "(i, h) \<in> set (still_held now (c_held (compacted b)) (c_order (compacted b)))" for i h
    using out_held [OF that] ok by (intro heldLine_text) (simp add: compact_ok_def)
  moreover have "line_text seenFreeMark" by (simp add: line_text_def seen_marks)
  ultimately show ?thesis unfolding compact_keep_def Let_def compacted_def [symmetric] by (auto simp: list_all_iff)
qed

lemma heldGone_mono: "now \<le> now' \<Longrightarrow> heldGone t now \<Longrightarrow> heldGone t now'"
  using to_unix_mono [of "now - seenHeldFor" "now' - seenHeldFor"] by (simp add: heldGone_def)

lemma prune_prune: "now \<le> now' \<Longrightarrow> prune now' (prune now held) = prune now' held"
  by (auto simp: prune_def fun_eq_iff heldGone_mono split: option.split)

lemma loadSeen_held:
  assumes "w_files w path = Some b" and "path \<noteq> []"
  shows "s_held (fst (loadSeen ord True now io path w)) = prune now (s_held (read_lines ord (file_lines b) (new_seen path)))"
  using assms by (auto simp: loadSeen_def pruneHeld_def compactLocked_def Let_def split: option.split compact_fate.split)

lemma read_rewritten:
  assumes "ascii b"
  shows "read_lines ord (file_lines (lines_text (compact_keep now b))) s = read_lines ord (compact_keep now b) s"
  by (subst read_lines_filter) (simp add: file_lines_text [OF compact_keep_lines [OF assms]])

text \<open>C33. A restart holds the same ids whether or not the file was rewritten before it: the groups, stamps and marks of every id
  that is held and not gone come back, and nothing else, whatever lines the file had.\<close>

theorem restart_holds_same:
  assumes "w_files w path = Some b" and "path \<noteq> []" and "ascii b" and "s_path s = path" and "now \<le> now'"
    and "held_fits (s_held (read_lines ord (file_lines b) (new_seen path)))"
  shows "s_held (fst (loadSeen ord True now' io path (snd (compactLocked fate now s w)))) = s_held (fst (loadSeen ord True now' io path w))"
proof -
  let ?w = "w\<lparr>w_files := (w_files w)(path \<mapsto> lines_text (compact_keep now b))\<rparr>"
  have "snd (compactLocked fate now s w) = w \<or> snd (compactLocked fate now s w) = ?w"
    using assms(1,4) by (auto simp: compactLocked_def Let_def split: compact_fate.split)
  moreover have "s_held (fst (loadSeen ord True now' io path ?w)) = s_held (fst (loadSeen ord True now' io path w))"
  proof -
    have "held_fits (c_held (compacted b))" using assms(6) by (simp add: held_as_compacted)
    then obtain r n where "read_lines ord (compact_keep now b) (new_seen path) = (new_seen path)
      \<lparr>s_opened := foldl ring_add (newIDRing seenKeep) (List.map_filter parseSeenID (newest_lines seenKeep (c_opened (compacted b)))),
       s_unopened := r, s_held := prune now (c_held (compacted b)), s_lines := n\<rparr>"
      using read_compacted [OF assms(3)] by blast
    then have "s_held (read_lines ord (file_lines (lines_text (compact_keep now b))) (new_seen path)) = prune now (c_held (compacted b))"
      by (simp add: read_rewritten [OF assms(3)])
    then show ?thesis using loadSeen_held [of ?w path "lines_text (compact_keep now b)"] loadSeen_held [OF assms(1,2)] assms(2)
      by (simp add: held_as_compacted prune_prune [OF assms(5)])
  qed
  ultimately show ?thesis by metis
qed

end
