(* ===== verification/Seen_Rules.thy ===== *)
theory Seen_Rules
  imports Seen_File "HOL-Library.Char_ord" "HOL-Library.List_Lexorder"
begin

text \<open>
  What a runner's memory of its events promises (\<open>engine/seen.go\<close>): it stays within its bounds whatever a relay sends, and
  what the app kept is not opened again after a restart.
\<close>

section \<open>Bounds\<close>

definition seen_ok :: "seenIDs \<Rightarrow> bool" where
  "seen_ok s \<longleftrightarrow> ring_room seenKeep (s_opened s) \<and> ring_room seenUnopenedKeep (s_unopened s) \<and> finite (dom (s_held s)) \<and>
     card (dom (s_held s)) \<le> seenHeldMost"

lemma new_seen_ok: "seen_ok (new_seen path)"
  using kept_ids.ok_fresh passed_ids.ok_fresh by (simp add: seen_ok_def new_seen_def)

text \<open>What is held only shrinks, or grows by one where there is room.\<close>

lemma held_shrinks: "finite (dom m) \<Longrightarrow> card (dom m) \<le> n \<Longrightarrow> dom m' \<subseteq> dom m \<Longrightarrow> finite (dom m') \<and> card (dom m') \<le> n"
  using card_mono finite_subset le_trans by metis

lemma held_grows:
  assumes "finite (dom m)" and "card (dom m) \<le> seenHeldMost" and "m i \<noteq> None \<or> heldRoom m g"
  shows "finite (dom (m(i \<mapsto> h))) \<and> card (dom (m(i \<mapsto> h))) \<le> seenHeldMost"
proof (cases "m i = None")
  case True
  then have "card (dom m) < seenHeldMost" using assms(3) by (auto simp: heldRoom_def split: if_splits)
  then show ?thesis using assms(1) True by (simp add: card_insert_if domIff)
next
  case False
  then have "dom (m(i \<mapsto> h)) = dom m" by auto
  then show ?thesis using assms(1,2) by simp
qed

lemma prune_dom: "dom (prune now held) \<subseteq> dom held"
  by (auto simp: prune_def split: option.splits)

lemma pruneHeld_ok [inv_intros]: "seen_ok s \<Longrightarrow> seen_ok (pruneHeld now s)"
  using held_shrinks [of "s_held s" seenHeldMost "prune now (s_held s)"] prune_dom [of now "s_held s"] by (simp add: seen_ok_def pruneHeld_def)

lemma without_ok [inv_intros]: "seen_ok s \<Longrightarrow> seen_ok (s\<lparr>s_held := (s_held s)(i := None)\<rparr>)"
  using held_shrinks [of "s_held s" seenHeldMost "(s_held s)(i := None)"] by (auto simp: seen_ok_def)

lemma opened_ok [inv_intros]: "seen_ok s \<Longrightarrow> seen_ok (s\<lparr>s_opened := ring_add (s_opened s) i\<rparr>)"
  by (simp add: seen_ok_def kept_ids.ok_add)

lemma unopened_ok [inv_intros]: "seen_ok s \<Longrightarrow> seen_ok (s\<lparr>s_unopened := ring_add (s_unopened s) i\<rparr>)"
  by (simp add: seen_ok_def passed_ids.ok_add)

lemma seen_ok_other [simp]: "seen_ok (s\<lparr>s_lines := n\<rparr>) = seen_ok s" "seen_ok (s\<lparr>s_queued := q\<rparr>) = seen_ok s"
  by (simp_all add: seen_ok_def)

lemma readLine_ok [inv_intros]:
  assumes "seen_ok s"
  shows "seen_ok (readLine ord l s)"
proof -
  have "seen_ok (s\<lparr>s_opened := ring_add (s_opened s) i, s_held := (s_held s)(i := None)\<rparr>)" for i
    using without_ok [OF opened_ok [OF assms]] by simp
  moreover have "seen_ok (s\<lparr>s_unopened := ring_add (s_unopened s) i, s_held := (s_held s)(i := None)\<rparr>)" for i
    using without_ok [OF unopened_ok [OF assms]] by simp
  moreover have "seen_ok (s\<lparr>s_held := (s_held s)(i \<mapsto> h)\<rparr>)" if "s_held s i \<noteq> None \<or> heldRoom (s_held s) (h_group h)" for i h
    using held_grows [OF _ _ that] assms by (simp add: seen_ok_def)
  moreover have "seen_ok (s\<lparr>s_held := free_all (s_held s)\<rparr>)" using assms by (simp add: seen_ok_def)
  moreover have "seen_ok (s\<lparr>s_opened := foldl ring_add (s_opened s) js, s_held := Map.empty\<rparr>)" for js
    using assms kept_ids.ok_adds by (simp add: seen_ok_def)
  ultimately show ?thesis using assms by (auto simp: readLine_def split: option.split)
qed

lemma read_lines_ok: "seen_ok s \<Longrightarrow> seen_ok (read_lines ord ls s)"
  by (induction ls arbitrary: s) (simp_all add: readLine_ok)

lemma compactLocked_ok: "seen_ok s \<Longrightarrow> seen_ok (fst (compactLocked fate now s w))"
  by (auto simp: compactLocked_def Let_def split: option.split compact_fate.split)

lemma loadSeen_ok: "seen_ok (fst (loadSeen ord rd now io path w))"
  by (auto simp: loadSeen_def Let_def new_seen_ok intro!: compactLocked_ok pruneHeld_ok read_lines_ok split: option.split)

lemma writeLocked_ok: "seen_ok s \<Longrightarrow> seen_ok (fst (writeLocked io ls s w))"
  by (auto simp: writeLocked_def Let_def compactLocked_ok split: append_fate.split)

lemma write_seen_ok: "seen_ok s \<Longrightarrow> seen_ok (fst (write_seen io ls s w))"
  by (simp add: write_seen_def writeLocked_ok)

lemma claim_id_ok: "seen_ok s \<Longrightarrow> seen_ok (snd (claim_id i s))"
  by (simp add: claim_id_def)

lemma holdIf_ok:
  assumes "seen_ok s"
  shows "seen_ok (fst (snd (holdIf sha io i t name now from until freed s w)))"
proof -
  let ?s = "pruneHeld now (s\<lparr>s_queued := s_queued s - {i}\<rparr>)"
  have ok: "seen_ok ?s" using assms by (intro pruneHeld_ok) simp
  have "seen_ok (?s\<lparr>s_held := (s_held ?s)(i \<mapsto> h)\<rparr>)" if "s_held ?s i \<noteq> None \<or> heldRoom (s_held ?s) g" for h g
    using held_grows [OF _ _ that] ok by (simp add: seen_ok_def)
  then show ?thesis using assms ok by (auto simp: holdIf_def Let_def split_beta intro!: writeLocked_ok)
qed

lemma drop_missed_ok: "seen_ok s \<Longrightarrow> seen_ok (snd (drop_missed is ls s))"
proof (induction "is" ls s rule: drop_missed.induct)
  case (2 i "is" ls s)
  have "seen_ok (s\<lparr>s_held := (s_held s)(i := None), s_opened := ring_add (s_opened s) i\<rparr>)"
    using opened_ok [OF without_ok [OF 2(3)], of i i] by simp
  then show ?case using 2 by simp
qed simp

lemma hand_one_ok: "seen_ok s \<Longrightarrow> seen_ok (hand_one s i)"
  using opened_ok [OF without_ok, of "s\<lparr>s_queued := s_queued s - {i}\<rparr>" i i] by (simp add: hand_one_def)

lemma hand_all_ok: "seen_ok s \<Longrightarrow> seen_ok (foldl hand_one s is)"
  by (induction "is" arbitrary: s) (simp_all add: hand_one_ok)

section \<open>Runs\<close>

text \<open>
  A runner's set from its start on: every operation on it, in any order and with every outcome of its writes; the marks reach it
  while it runs, and the files and counters beside it change as other runners go on.
\<close>

inductive seen_run :: "(string \<Rightarrow> string) \<Rightarrow> iter \<Rightarrow> seenIDs \<Rightarrow> world \<Rightarrow> bool" for sha ord where
  start: "loadSeen ord rd now io path w = (s, w') \<Longrightarrow> seen_run sha ord s w'"
| elsewhere: "seen_run sha ord s w \<Longrightarrow> seen_run sha ord s w'"
| claimed: "seen_run sha ord s w \<Longrightarrow> claim_id i s = (ok, s') \<Longrightarrow> seen_run sha ord s' w"
| held: "seen_run sha ord s w \<Longrightarrow> holdIf sha io i t name now from until freed s w = (r, s', w') \<Longrightarrow> seen_run sha ord s' w'"
| missed: "seen_run sha ord s w \<Longrightarrow> notOnRelay io relay relays is s w = (s', w') \<Longrightarrow> seen_run sha ord s' w'"
| asked: "seen_run sha ord s w \<Longrightarrow> wanted ord now s = (is, s') \<Longrightarrow> seen_run sha ord s' w"
| unopened: "seen_run sha ord s w \<Longrightarrow> notOpened io i s w = (s', w') \<Longrightarrow> seen_run sha ord s' w'"
| released: "seen_run sha ord s w \<Longrightarrow> seen_run sha ord (release_id i s) w"
| handed: "seen_run sha ord s w \<Longrightarrow> handedOver io is s w = (s', w') \<Longrightarrow> seen_run sha ord s' w'"
| marked: "seen_run sha ord s w \<Longrightarrow> mark = seenFreeMark \<or> mark = seenDropMark \<Longrightarrow> seen_run sha ord (readLine ord mark s) w"

lemma seen_run_ok: "seen_run sha ord s w \<Longrightarrow> seen_ok s"
proof (induction rule: seen_run.induct)
  case (start rd now io path w s w')
  then show ?case using loadSeen_ok by (metis fst_conv)
next
  case (claimed s w i ok s')
  then show ?case using claim_id_ok by (metis snd_conv)
next
  case (held s w io i t name now lo hi freed r s' w')
  then show ?case using holdIf_ok by (metis fst_conv snd_conv)
next
  case (missed s w io relay relays "is" s' w')
  then show ?case using write_seen_ok [OF drop_missed_ok] by (auto simp: notOnRelay_def Let_def split_beta) (metis fst_conv)
next
  case (unopened s w io i s' w')
  have "seen_ok (s\<lparr>s_queued := s_queued s - {i}, s_held := (s_held s)(i := None), s_unopened := ring_add (s_unopened s) i\<rparr>)"
    using unopened_ok [OF without_ok, of "s\<lparr>s_queued := s_queued s - {i}\<rparr>" i i] unopened.IH by simp
  then show ?case using write_seen_ok unopened.hyps(2) unfolding notOpened_def by (metis fst_conv)
next
  case (handed s w io "is" s' w')
  then show ?case using write_seen_ok [OF hand_all_ok] unfolding handedOver_def by (metis fst_conv)
qed (auto simp: wanted_def release_id_def Let_def intro: pruneHeld_ok readLine_ok)

lemma compact_keep_length: "length (compact_keep now b) \<le> seenKeep + seenUnopenedKeep + seenHeldMost + 1"
proof -
  let ?c = "compacted b"
  let ?out = "still_held now (c_held ?c) (c_order ?c)"
  have ok: "finite (dom (c_held ?c))" "card (dom (c_held ?c)) \<le> seenHeldMost"
    using read_lines_ok [OF new_seen_ok, of undefined "file_lines b" "[]"] by (simp_all add: seen_ok_def held_as_compacted)
  have "length ?out = card (fst ` set ?out)"
    using still_held_out [of now "c_held ?c" "c_order ?c"] by (metis distinct_card length_map set_map)
  also have "\<dots> \<le> card (dom (c_held ?c))" using ok(1) by (intro card_mono) (auto dest: out_held)
  finally have "length ?out \<le> seenHeldMost" using ok(2) by simp
  moreover have "length (filter (\<lambda>(i, h). h_free h) ?out) + length (filter (\<lambda>(i, h). \<not> h_free h) ?out) = length ?out"
    using sum_length_filter_compl [of "\<lambda>(i, h). h_free h" ?out] by (simp add: case_prod_unfold)
  ultimately show ?thesis
    using newest_lines_sub(2) [of seenKeep "c_opened ?c"] newest_lines_sub(2) [of seenUnopenedKeep "c_unopened ?c"]
    unfolding compact_keep_def Let_def compacted_def [symmetric] by simp
qed

text \<open>C34. Whatever a relay sends, a runner remembers at most 3,000 ids that opened, 500 that did not and 2,000 that are held, in
  every run of its operations; and a file that is rewritten has at most 5,501 lines.\<close>

theorem seen_bounded:
  assumes "seen_run sha ord s w"
  shows "ring_len (s_opened s) \<le> 3000 \<and> ring_len (s_unopened s) \<le> 500 \<and> heldCount s \<le> 2000 \<and> length (compact_keep now b) \<le> 5501"
  using seen_run_ok [OF assms] compact_keep_length [of now b] kept_ids.newest_room [of "s_opened s"] passed_ids.newest_room [of "s_unopened s"]
  by (simp add: seen_ok_def ring_len_def heldCount_def seen_consts)

section \<open>What the app kept\<close>

text \<open>Reading lines of ids that opened, whatever is held; and lines that say nothing of them.\<close>

lemma read_opened: "list_all opened_line ls \<Longrightarrow> s_opened (read_lines ord ls s) = foldl ring_add (s_opened s) (List.map_filter parseSeenID ls)"
proof (induction ls arbitrary: s)
  case (Cons l ls)
  have l: "l \<noteq> []" "\<not> has_prefix l [seenHeldMark]" "\<not> has_prefix l [seenUnopenedMark]" "l \<noteq> seenFreeMark" "l \<noteq> seenDropMark"
    using Cons.prems(1) by (cases l; auto simp: opened_line_def line_text_def has_prefix_def)+
  have "s_opened (readLine ord l (s\<lparr>s_lines := n\<rparr>)) = foldl ring_add (s_opened s) (List.map_filter parseSeenID [l])" for n
    using l by (auto simp: readLine_def map_filter_simps split: option.split)
  then show ?case using Cons l(1) by (simp add: map_filter_simps split: option.split)
qed (simp add: map_filter_simps)

definition beside :: "string \<Rightarrow> bool" where
  "beside l \<longleftrightarrow> l = seenFreeMark \<or> l \<noteq> seenDropMark \<and> l \<noteq> [] \<and> (hd l = seenHeldMark \<or> hd l = seenUnopenedMark)"

lemma read_beside: "list_all beside ls \<Longrightarrow> s_opened (read_lines ord ls s) = s_opened s"
proof (induction ls arbitrary: s)
  case (Cons l ls)
  have "s_opened (readLine ord l (s\<lparr>s_lines := n\<rparr>)) = s_opened s" for n
    using Cons.prems by (cases l) (auto simp: readLine_def beside_def has_prefix_def seen_marks split: option.split)
  then show ?case using Cons by simp
qed simp

lemma opened_after_rewrite:
  assumes "ascii b"
  shows "s_opened (read_lines ord (compact_keep now b) (new_seen p)) =
    foldl ring_add (newIDRing seenKeep) (List.map_filter parseSeenID (newest_lines seenKeep (c_opened (compacted b))))"
proof -
  let ?c = "compacted b"
  have op: "list_all opened_line (newest_lines seenKeep (c_opened ?c))" and un: "list_all unopened_line (newest_lines seenUnopenedKeep (c_unopened ?c))"
    using compacted_ok [OF assms] by (auto simp: compact_ok_def intro: newest_lines_all)
  have "beside (heldLine i h)" for i h by (simp add: beside_def heldLine_def seen_marks)
  moreover have "list_all beside (newest_lines seenUnopenedKeep (c_unopened ?c))"
    using un by (auto simp: list_all_iff unopened_line_def line_text_def beside_def seen_marks)
  ultimately have rest: "list_all beside (newest_lines seenUnopenedKeep (c_unopened ?c) @ map (\<lambda>(i, h). heldLine i h) fs @
      (if fs \<noteq> [] then [seenFreeMark] else []) @ map (\<lambda>(i, h). heldLine i h) st)" for fs st
    by (auto simp: list_all_iff beside_def)
  show ?thesis unfolding compact_keep_def Let_def compacted_def [symmetric]
    by (subst read_lines_simps(3)) (simp only: read_beside [OF rest] read_opened [OF op], simp add: new_seen_def)
qed

text \<open>The lines of the ids that were handed over last.\<close>

lemma parse_hex_ids: "list_all (\<lambda>i. length i = 32) is \<Longrightarrow> List.map_filter parseSeenID (map hex_encode is) = is"
  by (induction "is") (simp_all add: map_filter_simps parseSeenID_hex)

lemma compact_hex_lines:
  "list_all opened_line ls \<Longrightarrow> c_opened (foldl compact_line c ls) = c_opened c @ ls"
proof (induction ls arbitrary: c)
  case (Cons l ls)
  have "c_opened (compact_line c l) = c_opened c @ [l]"
    using Cons.prems by (cases l) (auto simp: compact_line_def opened_line_def line_text_def has_prefix_def Let_def split: option.split)
  then show ?case using Cons by simp
qed simp

lemma loadSeen_opened:
  assumes "w_files w path = Some b" and "path \<noteq> []"
  shows "s_opened (fst (loadSeen ord True now io path w)) = s_opened (read_lines ord (file_lines b) (new_seen path))"
  using assms by (auto simp: loadSeen_def pruneHeld_def compactLocked_def Let_def split: option.split compact_fate.split)

lemma hand_all_path: "s_path (foldl hand_one s is) = s_path s"
  by (induction "is" arbitrary: s) (simp_all add: hand_one_def)

lemma hex_ids_lines: "list_all (\<lambda>i. length i = 32) is \<Longrightarrow> list_all opened_line (map hex_encode is)"
  by (simp add: list_all_iff hex_opened_line)

lemma handed_file_lines:
  assumes "whole b" and "list_all (\<lambda>i. length i = 32) is"
  shows "filter (\<lambda>l. l \<noteq> []) (file_lines (b @ lines_text (map hex_encode is))) = filter (\<lambda>l. l \<noteq> []) (file_lines b) @ map hex_encode is"
proof -
  have "list_all line_text (map hex_encode is)" using hex_ids_lines [OF assms(2)] by (simp add: list_all_iff opened_line_def)
  then show ?thesis using file_lines_append [OF assms(1)] file_lines_text by simp
qed

text \<open>The file as it is after the write, and rewritten: either way the ids are there.\<close>

lemma handed_in_file:
  assumes "whole b" and "list_all (\<lambda>i. length i = 32) is" and "distinct is" and "length is \<le> seenKeep"
    and "\<And>j. j \<in> set is \<Longrightarrow> \<not> ring_has (s_opened (read_lines ord (file_lines b) (new_seen p))) j" and "i \<in> set is"
  shows "ring_has (s_opened (read_lines ord (file_lines (b @ lines_text (map hex_encode is))) (new_seen p))) i"
proof -
  let ?s = "read_lines ord (file_lines b) (new_seen p)"
  have "read_lines ord (file_lines (b @ lines_text (map hex_encode is))) (new_seen p) = read_lines ord (map hex_encode is) ?s"
    using read_lines_filter [of ord "file_lines b" "new_seen p"]
    by (subst read_lines_filter) (simp add: handed_file_lines [OF assms(1,2)] del: read_lines_simps(1,2))
  then have "s_opened (read_lines ord (file_lines (b @ lines_text (map hex_encode is))) (new_seen p)) = foldl ring_add (s_opened ?s) is"
    using read_opened [OF hex_ids_lines [OF assms(2)]] parse_hex_ids [OF assms(2)] by simp
  moreover have "ring_room seenKeep (s_opened ?s)" using read_lines_ok [OF new_seen_ok] by (simp add: seen_ok_def)
  ultimately show ?thesis using kept_ids.has_adds_new [OF _ assms(3,4) assms(5) assms(6)] by simp
qed

lemma handed_in_rewritten:
  assumes "whole b" and "list_all (\<lambda>i. length i = 32) is" and "ascii b" and "length is \<le> seenKeep" and "i \<in> set is"
  defines "b' \<equiv> b @ lines_text (map hex_encode is)"
  shows "ring_has (s_opened (read_lines ord (file_lines (lines_text (compact_keep now b'))) (new_seen p))) i"
proof -
  let ?c = "compacted b'"
  have hex: "ascii (hex_encode j)" for j using hex_encode_chars by (auto simp: ascii_def list_all_iff)
  have "ascii (Join_nl ls)" if "\<And>l. l \<in> set ls \<Longrightarrow> ascii l" for ls using that by (induction ls rule: Join_nl.induct) auto
  then have "ascii (Join_nl (map hex_encode is))" using hex by (metis (no_types, lifting) imageE set_map)
  then have a: "ascii b'" using assms(3) by (simp add: b'_def lines_text_def)
  have "c_opened ?c = c_opened (compacted b) @ map hex_encode is"
    unfolding compacted_def
    by (subst (1 2) compact_lines_filter) (simp add: b'_def handed_file_lines [OF assms(1,2)] compact_hex_lines [OF hex_ids_lines [OF assms(2)]])
  then have "set (map hex_encode is) \<subseteq> set (newest_lines seenKeep (c_opened ?c))"
    using assms(4) by (auto simp: newest_lines_def)
  then have "hex_encode i \<in> set (newest_lines seenKeep (c_opened ?c))" using assms(5) by auto
  moreover have "parseSeenID (hex_encode i) = Some i" using assms(2,5) by (simp add: list_all_iff parseSeenID_hex)
  ultimately have i: "i \<in> set (List.map_filter parseSeenID (newest_lines seenKeep (c_opened ?c)))"
    by (force simp: List.map_filter_def)
  let ?js = "List.map_filter parseSeenID (newest_lines seenKeep (c_opened ?c))"
  have "length ?js \<le> length (newest_lines seenKeep (c_opened ?c))" by (simp add: List.map_filter_def)
  then have "length (recent (newIDRing seenKeep)) + length ?js \<le> seenKeep"
    using newest_lines_sub(2) [of seenKeep "c_opened ?c"] kept_ids.newest_fresh by simp
  from kept_ids.adds_room [OF kept_ids.ok_fresh this] i have "i \<in> set (recent (foldl ring_add (newIDRing seenKeep) ?js))" by simp
  then show ?thesis using opened_after_rewrite [OF a] read_rewritten [OF a] kept_ids.has_newest [OF kept_ids.ok_adds [OF kept_ids.ok_fresh]] by simp
qed


section \<open>An example\<close>

definition example_order :: iter where
  "example_order held = sorted_list_of_set (dom held)"

definition example_id :: nid where "example_id = replicate 32 CHR ''k''"

definition example_held :: heldAt where
  "example_held = \<lparr>h_at = 7, h_free = False, h_group = ''g'', h_from = 3, h_until = 4\<rparr>"

definition example_io :: seen_io where
  "example_io = \<lparr>io_append = AppendDone, io_compact = CompactDone, io_now = 0\<rparr>"

definition example_world :: "(string \<rightharpoonup> string) \<Rightarrow> world" where
  "example_world files = \<lparr>w_files = files, heldFreed = (\<lambda>_. 0), engineHeld = False, goneFiles = {}, heldMissed = (\<lambda>_ _ _. 0), liveSeen = (\<lambda>_. {})\<rparr>"

lemma example_line: "line_ok example_id example_held"
  by (simp add: line_ok_def example_id_def example_held_def int64_def word_text_def IsSpace_def)

definition example_file :: string where
  "example_file = lines_text [heldLine example_id example_held]"

lemma example_file_lines: "filter (\<lambda>l. l \<noteq> []) (file_lines example_file) = [heldLine example_id example_held]"
  using heldLine_text [OF example_line] unfolding example_file_def by (intro file_lines_text) simp

lemma example_read: "s_held (read_lines ord (file_lines example_file) (new_seen p)) = [example_id \<mapsto> example_held]"
proof -
  have "example_held\<lparr>h_free := False\<rparr> = example_held" by (simp add: example_held_def)
  then have "readLine ord (heldLine example_id example_held) s = s\<lparr>s_held := (s_held s)(example_id \<mapsto> example_held)\<rparr>" if "s_held s = Map.empty" for s
    using heldLine_prefix [of example_id example_held] held_line_roundtrip [OF example_line] that
    by (simp add: readLine_def heldRoom_def in_group_def groups_of_def seen_consts)
  then show ?thesis using heldLine_prefix [of example_id example_held]
    by (subst read_lines_filter) (simp add: example_file_lines new_seen_def)
qed

lemma example_ascii: "ascii example_file"
proof -
  have "ascii (hex_encode example_id)" using hex_encode_word [of example_id] by (simp add: example_id_def)
  then show ?thesis using Itoa_word by (simp add: example_file_def lines_text_def heldLine_def example_held_def seen_marks)
qed

lemma example_fits: "held_fits [example_id \<mapsto> example_held]"
proof -
  have "in_group [example_id \<mapsto> example_held] g \<le> 1" for g
  proof -
    have "{i. \<exists>h. [example_id \<mapsto> example_held] i = Some h \<and> h_group h = g} \<subseteq> {example_id}" by (auto split: if_splits)
    then show ?thesis unfolding in_group_def using card_mono [of "{example_id}"] by fastforce
  qed
  then have "in_group [example_id \<mapsto> example_held] g \<le> 512" for g by (rule order_trans) simp
  then show ?thesis by (simp add: held_fits_def groups_of_def seen_consts)
qed

lemma example_not_gone: "prune 0 [example_id \<mapsto> example_held] = [example_id \<mapsto> example_held]"
  by (simp add: prune_def fun_eq_iff heldGone_def example_held_def seenHeldFor_def duration_defs to_unix_def)

definition example_set :: seenIDs where
  "example_set = new_seen ''f''"

lemma example_set_path: "s_path example_set = ''f''"
  by (simp add: example_set_def new_seen_def)

text \<open>The file is rewritten; the id is still held after a restart.\<close>

theorem restart_holds_same_witness:
  "s_held (fst (loadSeen example_order True 0 example_io ''f'' (snd (compactLocked CompactDone 0 example_set (example_world [''f'' \<mapsto> example_file]))))) =
   [example_id \<mapsto> example_held]"
proof -
  let ?w = "example_world [''f'' \<mapsto> example_file]"
  have f: "w_files ?w ''f'' = Some example_file" by (simp add: example_world_def)
  have "held_fits (s_held (read_lines example_order (file_lines example_file) (new_seen ''f'')))" by (simp only: example_read example_fits)
  then have "s_held (fst (loadSeen example_order True 0 example_io ''f'' (snd (compactLocked CompactDone 0 example_set ?w)))) =
      s_held (fst (loadSeen example_order True 0 example_io ''f'' ?w))"
    by (intro restart_holds_same [OF f _ example_ascii example_set_path order_refl]) simp_all
  then show ?thesis using loadSeen_held [OF f] by (simp add: example_read example_not_gone)
qed

lemma example_seen_run: "seen_run hex_encode example_order (snd (claim_id example_id (new_seen []))) (example_world Map.empty)"
proof -
  have "loadSeen example_order True 0 example_io [] (example_world Map.empty) = (new_seen [], example_world Map.empty)" by (simp add: loadSeen_def)
  from seen_run.claimed [OF seen_run.start [OF this]] show ?thesis by (metis prod.collapse)
qed

theorem seen_bounded_witness:
  "ring_len (s_opened (snd (claim_id example_id (new_seen [])))) \<le> 3000 \<and> ring_len (s_unopened (snd (claim_id example_id (new_seen [])))) \<le> 500 \<and>
   heldCount (snd (claim_id example_id (new_seen []))) \<le> 2000 \<and> length (compact_keep 0 example_file) \<le> 5501"
  by (rule seen_bounded [OF example_seen_run])


end
