(* ===== verification/Poll.thy ===== *)
theory Poll
  imports Seen Catchup_Book Utf8 "HOL-Library.AList"
begin

text \<open>
  The way of an event from a runner to the app (\<open>engine/nostr.go\<close>): a runner takes it into the inbox, the poll hands the inbox
  over as a batch, the app confirms what it kept, and what it did not keep comes again; beside it the anchor file, which stays
  at or below all of that. The inbox and what each of its lines still owes are two slices of one length in the source and one
  list of pairs here; the map of batches in flight is a list of pairs with distinct tokens. What goes on between two
  critical sections of a call belongs to other calls, so each section is a definition of its own. The opening of an event,
  the decoding of the app's answer, the outcome of a call on a file and the order a map is gone through in are arguments.
\<close>

section \<open>State\<close>

type_synonym item = "string \<times> inboxDone"

record poll =
  nostrInbox :: "item list"
  pollInflight :: "(nat \<times> item list) list"
  pollToken :: nat
  pollHeldSince :: nanos
  walkingTags :: "string \<rightharpoonup> nat"
  liveTags :: "string set"
  nostrSentIDs :: "string set"

text \<open>A runner's anchor: the set it is the anchor of, our relay's keys, its file, the value and what the file holds.\<close>

record anchor =
  n_set :: nat
  n_keys :: "string list"
  n_path :: string
  lastSaved :: int
  lastOnDisk :: int

record rx =
  x_poll :: poll
  x_sets :: heap
  x_world :: world
  x_book :: book
  x_anchors :: "nat \<Rightarrow> anchor"

datatype write_fate = WriteDone | WriteFails | WritePart nat

text \<open>How the calls of one turn go: the writes of each set and each anchor, and the order the saves come in.\<close>

record call_turn =
  t_seen :: "nat \<Rightarrow> seen_io"
  t_save :: "nat \<Rightarrow> write_fate"
  t_order :: "nat set \<Rightarrow> nat list"

definition pollMaxTries :: nat where "pollMaxTries = 5"
definition pollHoldMax :: nanos where "pollHoldMax = 20 * second"
definition pollHoldBytes :: nat where "pollHoldBytes = 8 * 2 ^ 20"
definition anchorSlack :: nanos where "anchorSlack = 5 * minute"

definition new_poll :: poll where
  "new_poll = \<lparr>nostrInbox = [], pollInflight = [], pollToken = 0, pollHeldSince = time_zero, walkingTags = Map.empty, liveTags = {},
     nostrSentIDs = {}\<rparr>"

definition set_poll :: "(poll \<Rightarrow> poll) \<Rightarrow> rx \<Rightarrow> rx" where
  "set_poll f x = x\<lparr>x_poll := f (x_poll x)\<rparr>"

definition put_set :: "nat \<Rightarrow> seenIDs \<Rightarrow> rx \<Rightarrow> rx" where
  "put_set q s x = x\<lparr>x_sets := (x_sets x)(q := s)\<rparr>"

section \<open>The anchor\<close>

definition anchorStamp :: "unix \<Rightarrow> nanos \<Rightarrow> unix" where
  "anchorStamp ts now = (let most = to_unix (now + anchorSlack) in if ts > most then most else ts)"

definition anchorNow :: "int \<Rightarrow> nanos \<Rightarrow> int" where
  "anchorNow v now = (let n = to_unix now in if v > n then n else v)"

definition loadLast :: "nanos \<Rightarrow> anchor \<Rightarrow> int" where
  "loadLast now a = anchorNow (lastSaved a) now"

text \<open>The anchor and what the file holds, as a runner finds them when it starts; \<open>-1\<close> stands for no file.\<close>

definition read_anchor :: "nanos \<Rightarrow> string option \<Rightarrow> int \<times> int" where
  "read_anchor now b =
     (case b of
        None \<Rightarrow> (0, - 1)
      | Some b \<Rightarrow> (case ParseInt (TrimSpaceU b) of Some v \<Rightarrow> (anchorNow v now, v) | None \<Rightarrow> (0, - 1)))"

text \<open>The loop of \<open>owedFloor\<close> over one slice, \<open>low\<close> and \<open>owed\<close> as one option.\<close>

definition owed_see :: "nat \<Rightarrow> unix option \<Rightarrow> item list \<Rightarrow> unix option" where
  "owed_see q low xs =
     foldl (\<lambda>low (l, d). if d_set d = Some q \<and> (case low of None \<Rightarrow> True | Some m \<Rightarrow> d_at d < m) then Some (d_at d) else low) low xs"

definition owedFloor :: "nat \<Rightarrow> poll \<Rightarrow> unix option" where
  "owedFloor q p = foldl (owed_see q) (owed_see q None (nostrInbox p)) (map snd (pollInflight p))"

definition lower_to :: "unix option \<Rightarrow> int \<Rightarrow> int" where
  "lower_to f disk = (case f of Some v \<Rightarrow> if v < disk then v else disk | None \<Rightarrow> disk)"

definition saveLast :: "write_fate \<Rightarrow> int \<Rightarrow> nat \<Rightarrow> rx \<Rightarrow> rx" where
  "saveLast fate ts r x =
     (let a = x_anchors x r; w = x_world x;
          a = (if ts > lastSaved a then a\<lparr>lastSaved := ts\<rparr> else a);
          to = lower_to (owedFloor (n_set a) (x_poll x)) (lower_to (Book_Floor (x_book x) (n_keys a)) (lastSaved a));
          x = x\<lparr>x_anchors := (x_anchors x)(r := a)\<rparr>
      in if n_path a = [] \<or> to = lastOnDisk a \<or> engineHeld w then x
         else if fileGone (n_path a) w then x
         else case fate of
           WriteFails \<Rightarrow> x
         | WritePart n \<Rightarrow> x\<lparr>x_world := w\<lparr>w_files := (w_files w)(n_path a \<mapsto> take n (Itoa to))\<rparr>\<rparr>
         | WriteDone \<Rightarrow> x\<lparr>x_anchors := (x_anchors x)(r := a\<lparr>lastOnDisk := to\<rparr>),
                          x_world := w\<lparr>w_files := (w_files w)(n_path a \<mapsto> Itoa to)\<rparr>\<rparr>)"

definition run_saves :: "call_turn \<Rightarrow> nat set \<Rightarrow> rx \<Rightarrow> rx" where
  "run_saves t rs x = foldl (\<lambda>x r. saveLast (t_save t r) 0 r x) x (t_order t rs)"

definition mark_handed :: "call_turn \<Rightarrow> item list \<Rightarrow> rx \<Rightarrow> rx" where
  "mark_handed t xs x =
     (let (rs, w, hp) = markHandedOver (t_seen t) (map snd xs) (x_world x) (x_sets x) in run_saves t rs (x\<lparr>x_world := w, x_sets := hp\<rparr>))"

section \<open>A runner takes an event\<close>

definition take_claim :: "nat \<Rightarrow> nid \<Rightarrow> rx \<Rightarrow> (bool \<times> bool) option \<times> rx" where
  "take_claim q i x =
     (if hex_encode i \<in> nostrSentIDs (x_poll x) then (Some (False, False), x)
      else let (ok, s) = claim_id i (x_sets x q); x = put_set q s x
           in if ok then (None, x) else (Some (False, handed i s), x))"

text \<open>\<open>opened\<close>: the content and the sender's stamp, or nothing where the event does not parse or does not open.\<close>

definition take_open ::
  "seen_io \<Rightarrow> (string \<times> int) option \<Rightarrow> string \<Rightarrow> nat \<Rightarrow> nat \<Rightarrow> nid \<Rightarrow> unix \<Rightarrow> int \<Rightarrow> int \<Rightarrow> rx \<Rightarrow> (bool \<times> bool) \<times> rx" where
  "take_open io opened tag q r i created lo hi x =
     (case opened of
        None \<Rightarrow> let (s, w) = notOpened io i (x_sets x q) (x_world x) in ((True, False), put_set q s (x\<lparr>x_world := w\<rparr>))
      | Some (content, sent) \<Rightarrow>
          ((True, True), set_poll (\<lambda>p. p\<lparr>nostrInbox := nostrInbox p @ [(tag @ ''|'' @ content,
             \<lparr>d_set = Some q, d_id = i, d_tries = 0, d_at = created, d_resave = Some r, d_sent = sent, d_freed = 0, d_from = lo, d_until = hi\<rparr>)]\<rparr>) x))"

definition take_event ::
  "seen_io \<Rightarrow> (string \<times> int) option \<Rightarrow> string \<Rightarrow> nat \<Rightarrow> nat \<Rightarrow> nid \<Rightarrow> unix \<Rightarrow> int \<Rightarrow> int \<Rightarrow> rx \<Rightarrow> (bool \<times> bool) \<times> rx" where
  "take_event io opened tag q r i created lo hi x =
     (case take_claim q i x of (Some res, x) \<Rightarrow> (res, x) | (None, x) \<Rightarrow> take_open io opened tag q r i created lo hi x)"

text \<open>What an ask by ids brings; \<open>ms\<close> is the clock in milliseconds.\<close>

definition byIDs :: "seen_io \<Rightarrow> (string \<times> int) option \<Rightarrow> string \<Rightarrow> nat \<Rightarrow> nat \<Rightarrow> nid \<Rightarrow> unix \<Rightarrow> int \<Rightarrow> rx \<Rightarrow> bool \<times> rx" where
  "byIDs io opened tag q r i created ms x =
     (let (lo, hi) = heldReach i (x_sets x q); (lo, hi) = (if hi \<le> 0 then (0, ms) else (lo, hi));
          ((fresh, _), x) = take_event io opened tag q r i created lo hi x
      in (fresh, x))"

section \<open>Back into the inbox\<close>

definition again :: "item \<Rightarrow> item" where
  "again = (\<lambda>(l, d). (l, d\<lparr>d_tries := d_tries d + 1\<rparr>))"

definition given_up :: "item \<Rightarrow> bool" where
  "given_up = (\<lambda>(l, d). d_tries d \<ge> pollMaxTries)"

definition release_item :: "heap \<Rightarrow> item \<Rightarrow> heap" where
  "release_item hp = (\<lambda>(l, d). case d_set d of Some q \<Rightarrow> hp(q := release_id (d_id d) (hp q)) | None \<Rightarrow> hp)"

text \<open>\<open>pollRequeueLocked\<close>; its first result is the lines that are not offered any more.\<close>

definition pollRequeueLocked :: "item list \<Rightarrow> rx \<Rightarrow> item list \<times> rx" where
  "pollRequeueLocked xs x =
     (let ys = map again xs; lost = filter given_up ys
      in (lost, set_poll (\<lambda>p. p\<lparr>nostrInbox := filter (\<lambda>y. \<not> given_up y) ys @ nostrInbox p\<rparr>) (x\<lparr>x_sets := foldl release_item (x_sets x) lost\<rparr>)))"

definition unflight :: "nat \<Rightarrow> rx \<Rightarrow> rx" where
  "unflight k = set_poll (\<lambda>p. p\<lparr>pollInflight := AList.delete k (pollInflight p)\<rparr>)"

section \<open>The poll\<close>

definition walking :: "string \<Rightarrow> poll \<Rightarrow> nat" where
  "walking tag p = (case walkingTags p tag of Some n \<Rightarrow> n | None \<Rightarrow> 0)"

definition walkBegins :: "string \<Rightarrow> poll \<Rightarrow> poll" where
  "walkBegins tag p = p\<lparr>walkingTags := (walkingTags p)(tag \<mapsto> walking tag p + 1)\<rparr>"

definition walkEnds :: "string \<Rightarrow> poll \<Rightarrow> poll" where
  "walkEnds tag p =
     (if walking tag p \<le> 1 then p\<lparr>walkingTags := (walkingTags p)(tag := None)\<rparr>
      else p\<lparr>walkingTags := (walkingTags p)(tag \<mapsto> walking tag p - 1)\<rparr>)"

definition liveCame :: "string \<Rightarrow> poll \<Rightarrow> poll" where
  "liveCame tag p = (if walking tag p > 0 then p\<lparr>liveTags := insert tag (liveTags p)\<rparr> else p)"

definition lineTag :: "string \<Rightarrow> string" where
  "lineTag l = takeWhile (\<lambda>c. c \<noteq> CHR ''|'') l"

definition pollHolds :: "nanos \<Rightarrow> nat \<Rightarrow> poll \<Rightarrow> bool \<times> poll" where
  "pollHolds now n p =
     (let p = (if pollHeldSince p = time_zero then p\<lparr>pollHeldSince := now\<rparr> else p)
      in (now - pollHeldSince p < pollHoldMax \<and> n < pollHoldBytes, p))"

record pollEntry =
  pe_T :: string
  pe_C :: string
  pe_A :: int
  pe_F :: int
  pe_U :: int

definition line_content :: "string \<Rightarrow> string" where
  "line_content l = drop (length (lineTag l) + 1) l"

text \<open>What can go over: a line with a tag whose content has no line break and no nul.\<close>

definition sendable :: "string \<Rightarrow> bool" where
  "sendable l \<longleftrightarrow> CHR ''|'' \<in> set l \<and> \<not> contains_any (line_content l) [CHR 0x0A, CHR 0x0D, CHR 0x00]"

definition pollEntriesOf :: "string list \<Rightarrow> pollEntry list \<times> nat list" where
  "pollEntriesOf ls =
     (let took = filter (\<lambda>n. sendable (ls ! n)) [0..<length ls]
      in (map (\<lambda>n. \<lparr>pe_T = lineTag (ls ! n), pe_C = line_content (ls ! n), pe_A = 0, pe_F = 0, pe_U = 0\<rparr>) took, took))"

definition stamp_entry :: "pollEntry \<Rightarrow> inboxDone \<Rightarrow> pollEntry" where
  "stamp_entry e d = e\<lparr>pe_A := d_sent d, pe_F := d_from d, pe_U := d_until d\<rparr>"

text \<open>The loop that parts the lines: those at the places taken, from the front, and the rest.\<close>

fun part_taken :: "(item \<Rightarrow> item) \<Rightarrow> nat \<Rightarrow> nat list \<Rightarrow> item list \<Rightarrow> item list \<times> item list" where
  "part_taken f n took [] = ([], [])"
| "part_taken f n [] (x # xs) = (let (b, gone) = part_taken f (n + 1) [] xs in (b, x # gone))"
| "part_taken f n (k # took) (x # xs) =
     (if k = n then let (b, gone) = part_taken f (n + 1) took xs in (f x # b, gone)
      else let (b, gone) = part_taken f (n + 1) (k # took) xs in (b, x # gone))"

definition note_freed :: "heap \<Rightarrow> world \<Rightarrow> item \<Rightarrow> item" where
  "note_freed hp w = (\<lambda>(l, d). (l, case d_set d of Some q \<Rightarrow> d\<lparr>d_freed := heldGen (s_path (hp q)) w\<rparr> | None \<Rightarrow> d))"

text \<open>The batches the app never confirmed, the newest put back first so that the oldest is in front.\<close>

fun requeue_all :: "nat list \<Rightarrow> rx \<Rightarrow> item list \<times> rx" where
  "requeue_all [] x = ([], x)"
| "requeue_all (k # ks) x =
     (let b = (case map_of (pollInflight (x_poll x)) k of Some b \<Rightarrow> b | None \<Rightarrow> []);
          (lost, x) = pollRequeueLocked b (unflight k x); (lost', x) = requeue_all ks x
      in (lost @ lost', x))"

definition held_back :: "poll \<Rightarrow> item \<Rightarrow> bool" where
  "held_back p = (\<lambda>(l, d). walking (lineTag l) p > 0 \<and> lineTag l \<notin> liveTags p)"

text \<open>What goes over now and what is kept back while its address is walked.\<close>

definition poll_split :: "nanos \<Rightarrow> poll \<Rightarrow> item list \<times> item list \<times> poll" where
  "poll_split now p =
     (if walkingTags p \<noteq> Map.empty \<and> nostrInbox p \<noteq> [] then
        let kept = filter (held_back p) (nostrInbox p); go = filter (\<lambda>x. \<not> held_back p x) (nostrInbox p);
            n = sum_list (map (\<lambda>(l, d). length l) kept)
        in if kept = [] then (go, kept, p)
           else let (ok, p) = pollHolds now n p in (if ok then (go, kept, p) else (nostrInbox p, [], p))
      else (nostrInbox p, [], p))"

text \<open>
  The part of \<open>nostrPollAt\<close> under the lock: the token and the entries, if there is a batch; what cannot go over; what is not
  offered any more.
\<close>

definition poll_locked :: "nanos \<Rightarrow> rx \<Rightarrow> ((nat \<times> pollEntry list) option \<times> item list \<times> item list) \<times> rx" where
  "poll_locked now x =
     (let (lost, x) = requeue_all (rev (sort (map fst (pollInflight (x_poll x))))) x;
          (go, kept, p) = poll_split now (x_poll x);
          p = p\<lparr>liveTags := {}, nostrInbox := kept\<rparr>;
          p = (if kept = [] then p\<lparr>pollHeldSince := time_zero\<rparr> else p);
          x = x\<lparr>x_poll := p\<rparr>
      in if go = [] then ((None, [], lost), x)
         else let (es, took) = pollEntriesOf (map fst go);
                  es = map2 (\<lambda>e n. stamp_entry e (snd (go ! n))) es took;
                  (b, gone) = part_taken (note_freed (x_sets x) (x_world x)) 0 took go
              in if es = [] then ((None, gone, lost), x)
                 else let k = pollToken p + 1
                      in ((Some (k, es), gone, lost), x\<lparr>x_poll := p\<lparr>pollToken := k, pollInflight := AList.update k b (pollInflight p)\<rparr>\<rparr>))"

text \<open>A batch that could not be put into json goes back, unless another poll put it back before; the batch under a token does
  not change while it is there.\<close>

definition poll_failed :: "nat \<Rightarrow> rx \<Rightarrow> item list \<times> rx" where
  "poll_failed k x =
     (case map_of (pollInflight (x_poll x)) k of Some b \<Rightarrow> pollRequeueLocked b (unflight k x) | None \<Rightarrow> ([], x))"

definition nostrPollAt :: "call_turn \<Rightarrow> nanos \<Rightarrow> bool \<Rightarrow> rx \<Rightarrow> (string \<times> pollEntry list) option \<times> rx" where
  "nostrPollAt t now marshals x =
     (let ((batch, gone, _), x) = poll_locked now x; x = mark_handed t gone x
      in case batch of
           None \<Rightarrow> (None, x)
         | Some (k, es) \<Rightarrow> if marshals then (Some (show_nat k, es), x) else (None, snd (poll_failed k x)))"

section \<open>The app's answer\<close>

definition left_map :: "int list \<Rightarrow> string list \<Rightarrow> (int \<rightharpoonup> string)" where
  "left_map later groups = foldl (\<lambda>m j. m(later ! j \<mapsto> (if j < length groups then groups ! j else []))) Map.empty [0..<length later]"

text \<open>Back to the inbox, held under a group's name, or kept.\<close>

datatype verdict = Back_again | Hold_as string | Keep

definition verdict_of :: "int list \<Rightarrow> (int \<rightharpoonup> string) \<Rightarrow> heap \<Rightarrow> world \<Rightarrow> nat \<Rightarrow> item \<Rightarrow> verdict" where
  "verdict_of bad left hp w n = (\<lambda>(l, d).
     if int n \<in> set bad then Back_again
     else case left (int n) of
       Some g \<Rightarrow> if (case d_set d of Some q \<Rightarrow> heldGen (s_path (hp q)) w \<noteq> d_freed d | None \<Rightarrow> False) then Back_again else Hold_as g
     | None \<Rightarrow> Keep)"

fun part_batch :: "(nat \<Rightarrow> item \<Rightarrow> verdict) \<Rightarrow> nat \<Rightarrow> item list \<Rightarrow> item list \<times> (item \<times> string) list \<times> item list" where
  "part_batch v n [] = ([], [], [])"
| "part_batch v n (x # xs) =
     (let (back, held, kept) = part_batch v (n + 1) xs
      in case v n x of Back_again \<Rightarrow> (x # back, held, kept) | Hold_as g \<Rightarrow> (back, (x, g) # held, kept) | Keep \<Rightarrow> (back, held, x # kept))"

text \<open>The part of \<open>nostrAck\<close> under the lock: what was kept, what is to be held, what is not offered any more.\<close>

definition ack_locked ::
  "nat \<Rightarrow> int list \<Rightarrow> int list \<Rightarrow> string list \<Rightarrow> rx \<Rightarrow> (item list \<times> (item \<times> string) list \<times> item list) option \<times> rx" where
  "ack_locked k bad later groups x =
     (case map_of (pollInflight (x_poll x)) k of
        None \<Rightarrow> (None, unflight k x)
      | Some b \<Rightarrow>
          let (back, held, kept) = part_batch (verdict_of bad (left_map later groups) (x_sets x) (x_world x)) 0 b;
              (lost, x) = pollRequeueLocked back (unflight k x)
          in (Some (kept, held, lost), x))"

text \<open>
  \<open>markHeld\<close> up to its saves: what is taken as kept all the same, what was let go of meanwhile, what is held, and the saves to run,
  by set.
\<close>

fun hold_items ::
  "(string \<Rightarrow> string) \<Rightarrow> call_turn \<Rightarrow> nanos \<Rightarrow> (item \<times> string) list \<Rightarrow> (nat \<rightharpoonup> nat) \<Rightarrow> rx \<Rightarrow> (item list \<times> item list \<times> item list \<times> (nat \<rightharpoonup> nat)) \<times> rx" where
  "hold_items sha t now [] saves x = (([], [], [], saves), x)"
| "hold_items sha t now (((l, d), g) # xs) saves x =
     (case d_set d of
        None \<Rightarrow> let ((took, stale, held, saves), x) = hold_items sha t now xs saves x in (((l, d) # took, stale, held, saves), x)
      | Some q \<Rightarrow>
          let ((ok, late), s, w) = holdSince sha (t_seen t q) (d_id d) (d_at d) g now (d_from d) (d_until d) (d_freed d) (x_sets x q) (x_world x);
              x = put_set q s (x\<lparr>x_world := w\<rparr>);
              saves = (if \<not> late \<and> ok then (case d_resave d of Some r \<Rightarrow> saves(q \<mapsto> r) | None \<Rightarrow> saves) else saves);
              ((took, stale, held, saves), x) = hold_items sha t now xs saves x
          in if late then ((took, (l, d) # stale, held, saves), x)
             else if \<not> ok then (((l, d) # took, stale, held, saves), x)
             else ((took, stale, (l, d) # held, saves), x))"

definition markHeld ::
  "(string \<Rightarrow> string) \<Rightarrow> call_turn \<Rightarrow> nanos \<Rightarrow> (item \<times> string) list \<Rightarrow> rx \<Rightarrow> (item list \<times> item list \<times> item list) \<times> rx" where
  "markHeld sha t now xs x =
     (let ((took, stale, held, saves), x) = hold_items sha t now xs Map.empty x in ((took, stale, held), run_saves t (ran saves) x))"

text \<open>
  The rest of \<open>nostrAck\<close>: what is remembered as kept, what is held, what is not offered any more. \<open>held_turn\<close> and \<open>kept_turn\<close> are
  how the calls of \<open>markHeld\<close> and of \<open>markHandedOver\<close> go.
\<close>

definition ack_finish ::
  "(string \<Rightarrow> string) \<Rightarrow> call_turn \<Rightarrow> call_turn \<Rightarrow> nanos \<Rightarrow> item list \<Rightarrow> (item \<times> string) list \<Rightarrow> rx \<Rightarrow> (item list \<times> item list \<times> item list) \<times> rx" where
  "ack_finish sha held_turn kept_turn now kept held x =
     (let ((took, stale, stay), x) = markHeld sha held_turn now held x; x = mark_handed kept_turn (kept @ took) x;
          (lost, x) = (if stale = [] then ([], x) else pollRequeueLocked stale x)
      in ((kept @ took, stay, lost), x))"

text \<open>
  \<open>ackLists\<close>: \<open>obj\<close> and \<open>arr\<close> decode a json object of the three lists and a json array of numbers.
\<close>

definition ackLists ::
  "(string \<Rightarrow> (int list \<times> int list \<times> string list) option) \<Rightarrow> (string \<Rightarrow> int list option) \<Rightarrow> string \<Rightarrow> (int list \<times> int list \<times> string list) option" where
  "ackLists obj arr raw =
     (if raw = [] then Some ([], [], [])
      else if has_prefix (TrimSpaceU raw) ''{'' then obj raw
      else map_option (\<lambda>failed. (failed, [], [])) (arr raw))"

text \<open>\<open>hook\<close>: what others do between the check and the holds, where the source has \<open>ackHook\<close>.\<close>

definition nostrAck ::
  "(string \<Rightarrow> string) \<Rightarrow> (string \<Rightarrow> (int list \<times> int list \<times> string list) option) \<Rightarrow> (string \<Rightarrow> int list option) \<Rightarrow> (rx \<Rightarrow> rx) \<Rightarrow> call_turn \<Rightarrow> call_turn \<Rightarrow> nanos
     \<Rightarrow> string \<Rightarrow> string \<Rightarrow> rx \<Rightarrow> string \<times> rx" where
  "nostrAck sha obj arr hook held_turn kept_turn now token failed x =
     (case ParseUint token of
        None \<Rightarrow> (''error: bad token'', x)
      | Some k \<Rightarrow>
          (case ackLists obj arr failed of
             None \<Rightarrow> (''error: bad list'', x)
           | Some (bad, later, groups) \<Rightarrow>
               (case ack_locked k bad later groups x of
                  (None, x) \<Rightarrow> (''ok'', x)
                | (Some (kept, held, _), x) \<Rightarrow> (''ok'', snd (ack_finish sha held_turn kept_turn now kept held (hook x))))))"

text \<open>What \<open>wipeHold\<close> does to the lines: none is left, and nothing is written any more.\<close>

definition wipe_lines :: "rx \<Rightarrow> rx" where
  "wipe_lines x = set_poll (\<lambda>p. p\<lparr>nostrInbox := [], pollInflight := []\<rparr>) (x\<lparr>x_world := (x_world x)\<lparr>engineHeld := True\<rparr>\<rparr>)"

end
