(* ===== verification/Poll_Rules.thy ===== *)
theory Poll_Rules
  imports Poll "HOL-Library.Multiset"
begin

text \<open>
  What each call on the way from a runner to the app does with the lines (\<open>engine/nostr.go\<close>), counted as multisets: where they
  were before and where they are after, and which ids are free to be claimed again.
\<close>

section \<open>Lines, counted\<close>

type_synonym item_key = "string \<times> nat option \<times> nid"

definition item_key :: "item \<Rightarrow> item_key" where
  "item_key = (\<lambda>(l, d). (l, d_set d, d_id d))"

definition item_keys :: "item list \<Rightarrow> item_key multiset" where
  "item_keys xs = image_mset item_key (mset xs)"

definition in_hand :: "poll \<Rightarrow> item list" where
  "in_hand p = nostrInbox p @ concat (map snd (pollInflight p))"

definition queued_ids :: "rx \<Rightarrow> (nat option \<times> nid) set" where
  "queued_ids x = {(Some q, i) | q i. i \<in> s_queued (x_sets x q)}"

definition ids_of :: "item list \<Rightarrow> (nat option \<times> nid) set" where
  "ids_of xs = (\<lambda>(l, d). (d_set d, d_id d)) ` set xs"

definition inflight_ok :: "poll \<Rightarrow> bool" where
  "inflight_ok p \<longleftrightarrow> distinct (map fst (pollInflight p)) \<and> (\<forall>k \<in> set (map fst (pollInflight p)). k \<le> pollToken p)"

lemma keys_simps [simp]: "item_keys [] = {#}" "item_keys (x # xs) = add_mset (item_key x) (item_keys xs)" "item_keys (xs @ ys) = item_keys xs + item_keys ys"
  by (simp_all add: item_keys_def)

lemma keys_map: "(\<And>x. item_key (f x) = item_key x) \<Longrightarrow> item_keys (map f xs) = item_keys xs"
  by (induction xs) simp_all

lemma keys_parts: "item_keys (filter P xs) + item_keys (filter (\<lambda>x. \<not> P x) xs) = item_keys xs"
  by (induction xs) simp_all

lemma keys_mset: "mset xs = mset ys \<Longrightarrow> item_keys xs = item_keys ys"
  by (simp add: item_keys_def)

lemma ids_of_simps [simp]: "ids_of [] = {}" "ids_of ((l, d) # xs) = insert (d_set d, d_id d) (ids_of xs)" "ids_of (xs @ ys) = ids_of xs \<union> ids_of ys"
  by (auto simp: ids_of_def)

lemma ids_of_keys: "ids_of xs = set_mset (image_mset snd (item_keys xs))"
  by (induction xs) (auto simp: item_key_def)

lemma key_again [simp]: "item_key (again x) = item_key x"
  by (simp add: item_key_def again_def split_beta)

lemma key_freed [simp]: "item_key (note_freed hp w x) = item_key x"
  by (auto simp: item_key_def note_freed_def split_beta split: option.split)

lemma poll_of [simp]: "x_poll (set_poll f x) = f (x_poll x)" "x_sets (set_poll f x) = x_sets x" "x_world (set_poll f x) = x_world x"
  "x_poll (put_set q s x) = x_poll x" "x_world (put_set q s x) = x_world x" "x_sets (put_set q s x) = (x_sets x)(q := s)"
  by (simp_all add: set_poll_def put_set_def)

lemma flight_unflight [simp]: "nostrInbox (x_poll (unflight k x)) = nostrInbox (x_poll x)" "pollToken (x_poll (unflight k x)) = pollToken (x_poll x)"
  "pollInflight (x_poll (unflight k x)) = AList.delete k (pollInflight (x_poll x))" "x_sets (unflight k x) = x_sets x"
  by (simp_all add: unflight_def)

lemma queued_ids_same: "(\<And>q. s_queued (x_sets x' q) = s_queued (x_sets x q)) \<Longrightarrow> queued_ids x' = queued_ids x"
  by (simp add: queued_ids_def)

lemma queued_ids_iff [simp]: "(Some q, i) \<in> queued_ids x \<longleftrightarrow> i \<in> s_queued (x_sets x q)" "(None, i) \<notin> queued_ids x"
  by (simp_all add: queued_ids_def)

lemma queued_ids_le: "(\<And>q i. i \<in> s_queued (x_sets x q) \<Longrightarrow> (Some q, i) \<in> K \<or> i \<in> s_queued (x_sets x' q)) \<Longrightarrow> queued_ids x - K \<subseteq> queued_ids x'"
  by (auto simp: queued_ids_def)

section \<open>What each call does with the lines\<close>

subsection \<open>Putting back\<close>

lemma release_queued:
  "s_queued (foldl release_item hp xs q) = s_queued (hp q) - {i. (Some q, i) \<in> ids_of xs}"
proof (induction xs arbitrary: hp)
  case (Cons x xs)
  obtain l d where x: "x = (l, d)" by force
  have "s_queued (release_item hp x q) = s_queued (hp q) - {i. (Some q, i) = (d_set d, d_id d)}"
    by (auto simp: x release_item_def release_id_def split: option.split)
  then show ?case using Cons by (auto simp: x)
qed simp

lemma requeue_effect:
  assumes "pollRequeueLocked xs x = (lost, x')"
  shows "item_keys xs + item_keys (nostrInbox (x_poll x)) = item_keys lost + item_keys (nostrInbox (x_poll x'))"
    and "pollInflight (x_poll x') = pollInflight (x_poll x)" and "pollToken (x_poll x') = pollToken (x_poll x)"
    and "queued_ids x' = queued_ids x - ids_of lost"
proof -
  have lost: "lost = filter given_up (map again xs)"
    and x': "x' = set_poll (\<lambda>p. p\<lparr>nostrInbox := filter (\<lambda>y. \<not> given_up y) (map again xs) @ nostrInbox p\<rparr>) (x\<lparr>x_sets := foldl release_item (x_sets x) lost\<rparr>)"
    using assms by (auto simp: pollRequeueLocked_def Let_def)
  have "item_keys lost + item_keys (filter (\<lambda>y. \<not> given_up y) (map again xs)) = item_keys xs"
    unfolding lost keys_parts by (simp add: keys_map)
  then show "item_keys xs + item_keys (nostrInbox (x_poll x)) = item_keys lost + item_keys (nostrInbox (x_poll x'))"
    by (simp add: x' add.assoc [symmetric])
  show "queued_ids x' = queued_ids x - ids_of lost"
    by (auto simp: x' queued_ids_def release_queued)
qed (use assms in \<open>auto simp: pollRequeueLocked_def Let_def\<close>)

lemma delete_batch:
  "distinct (map fst fl) \<Longrightarrow> map_of fl k = Some b \<Longrightarrow> item_keys (concat (map snd fl)) = item_keys b + item_keys (concat (map snd (AList.delete k fl)))"
proof (induction fl)
  case (Cons a fl)
  show ?case
  proof (cases "fst a = k")
    case True
    then have "AList.delete k fl = fl" using Cons.prems(1) by (auto simp: AList.delete_eq filter_id_conv) (metis fst_conv image_eqI)
    then show ?thesis using True Cons.prems(2) by (auto simp: AList.delete_eq split_beta)
  next
    case False
    then have "map_of fl k = Some b" using Cons.prems(2) by (cases a) auto
    then have "item_keys (concat (map snd fl)) = item_keys b + item_keys (concat (map snd (AList.delete k fl)))" using Cons by simp
    then show ?thesis using False by (simp add: AList.delete_eq split_beta ac_simps)
  qed
qed simp

lemma flight_ok_delete: "inflight_ok p \<Longrightarrow> inflight_ok (p\<lparr>pollInflight := AList.delete k (pollInflight p)\<rparr>)"
  by (auto simp: inflight_ok_def AList.delete_eq distinct_map_filter)

lemma flight_ok_cong: "pollInflight p' = pollInflight p \<Longrightarrow> pollToken p' = pollToken p \<Longrightarrow> inflight_ok p' = inflight_ok p"
  by (simp add: inflight_ok_def)

text \<open>One batch back from flight.\<close>

lemma batch_back:
  assumes "inflight_ok (x_poll x)" and "map_of (pollInflight (x_poll x)) k = Some b" and "mset b = mset back + mset rest"
    and "pollRequeueLocked back (unflight k x) = (lost, x')"
  shows "item_keys (in_hand (x_poll x)) = item_keys rest + item_keys lost + item_keys (in_hand (x_poll x'))" and "inflight_ok (x_poll x')"
    and "queued_ids x' = queued_ids x - ids_of lost"
proof -
  note eff = requeue_effect [OF assms(4)]
  have d: "distinct (map fst (pollInflight (x_poll x)))" using assms(1) by (simp add: inflight_ok_def)
  have "item_keys b = item_keys back + item_keys rest" by (simp add: item_keys_def assms(3))
  then show "item_keys (in_hand (x_poll x)) = item_keys rest + item_keys lost + item_keys (in_hand (x_poll x'))"
    using delete_batch [OF d assms(2)] eff(1,2) by (simp add: in_hand_def ac_simps)
  show "inflight_ok (x_poll x')" using flight_ok_delete [OF assms(1), of k] eff(2,3) by (simp add: inflight_ok_def)
  have "queued_ids (unflight k x) = queued_ids x" by (rule queued_ids_same) simp
  then show "queued_ids x' = queued_ids x - ids_of lost" using eff(4) by simp
qed

lemma none_back:
  assumes "map_of (pollInflight (x_poll x)) k = None"
  shows "x_poll (unflight k x) = x_poll x" and "queued_ids (unflight k x) = queued_ids x"
proof -
  have "AList.delete k (pollInflight (x_poll x)) = pollInflight (x_poll x)"
    using assms by (auto simp: AList.delete_eq filter_id_conv map_of_eq_None_iff image_iff)
  then show "x_poll (unflight k x) = x_poll x" by (simp add: unflight_def)
  show "queued_ids (unflight k x) = queued_ids x" by (rule queued_ids_same) simp
qed

lemma one_back:
  assumes "inflight_ok (x_poll x)" and "pollRequeueLocked (case map_of (pollInflight (x_poll x)) k of Some b \<Rightarrow> b | None \<Rightarrow> []) (unflight k x) = (lost, x')"
  shows "item_keys (in_hand (x_poll x)) = item_keys lost + item_keys (in_hand (x_poll x')) \<and> inflight_ok (x_poll x') \<and> queued_ids x' = queued_ids x - ids_of lost"
proof (cases "map_of (pollInflight (x_poll x)) k")
  case None
  then have "lost = []" "x_poll x' = x_poll (unflight k x)" using assms(2) by (auto simp: pollRequeueLocked_def set_poll_def)
  then show ?thesis using none_back [OF None] requeue_effect(4) [OF assms(2)] assms(1) by simp
next
  case (Some b)
  then show ?thesis using batch_back [of x k b b "[]" lost x'] assms by simp
qed

lemma requeue_all_effect:
  assumes "inflight_ok (x_poll x)" and "requeue_all ks x = (lost, x')"
  shows "item_keys (in_hand (x_poll x)) = item_keys lost + item_keys (in_hand (x_poll x')) \<and> inflight_ok (x_poll x') \<and> queued_ids x' = queued_ids x - ids_of lost"
  using assms
proof (induction ks arbitrary: x lost)
  case (Cons k ks)
  obtain lost1 x1 where 1: "pollRequeueLocked (case map_of (pollInflight (x_poll x)) k of Some b \<Rightarrow> b | None \<Rightarrow> []) (unflight k x) = (lost1, x1)" by force
  obtain lost2 where 2: "requeue_all ks x1 = (lost2, x')" and "lost = lost1 @ lost2" using Cons.prems(2) 1 by (auto simp: Let_def split: prod.splits)
  then show ?case using one_back [OF Cons.prems(1) 1] Cons.IH [OF _ 2] by (auto simp: ac_simps)
qed simp

lemma requeue_all_flight:
  "requeue_all ks x = (lost, x') \<Longrightarrow> pollInflight (x_poll x') = filter (\<lambda>a. fst a \<notin> set ks) (pollInflight (x_poll x)) \<and> pollToken (x_poll x') = pollToken (x_poll x)"
proof (induction ks arbitrary: x lost)
  case (Cons k ks)
  obtain lost1 x1 where 1: "pollRequeueLocked (case map_of (pollInflight (x_poll x)) k of Some b \<Rightarrow> b | None \<Rightarrow> []) (unflight k x) = (lost1, x1)" by force
  obtain lost2 where 2: "requeue_all ks x1 = (lost2, x')" using Cons.prems 1 by (auto simp: Let_def split: prod.splits)
  then show ?case using Cons.IH [OF 2] requeue_effect(2,3) [OF 1] by (auto simp: AList.delete_eq split_beta intro!: filter_cong)
qed simp

subsection \<open>Handing over\<close>

lemma split_effect:
  assumes "poll_split now p = (go, kept, p')"
  shows "mset (nostrInbox p) = mset go + mset kept" and "pollInflight p' = pollInflight p" and "pollToken p' = pollToken p"
proof -
  have "filter (held_back p) (nostrInbox p) = [] \<Longrightarrow> filter (\<lambda>y. \<not> held_back p y) (nostrInbox p) = nostrInbox p"
    by (simp add: filter_empty_conv filter_id_conv)
  then show "mset (nostrInbox p) = mset go + mset kept"
    using assms multiset_partition [of "mset (nostrInbox p)" "held_back p"]
    by (auto simp: poll_split_def pollHolds_def Let_def add.commute split: if_splits)
qed (use assms in \<open>auto simp: poll_split_def pollHolds_def Let_def split: if_splits\<close>)

lemma part_taken_none: "part_taken f n [] xs = ([], xs)"
  by (induction f n "[] :: nat list" xs rule: part_taken.induct) simp_all

lemma part_taken_filter:
  "part_taken f n (filter (\<lambda>k. P (xs ! (k - n))) [n..<n + length xs]) xs = (map f (filter P xs), filter (\<lambda>x. \<not> P x) xs)"
proof (induction xs arbitrary: n)
  case (Cons x xs)
  let ?t = "filter (\<lambda>k. P (xs ! (k - Suc n))) [Suc n..<Suc n + length xs]"
  have idx: "filter (\<lambda>k. P ((x # xs) ! (k - n))) [Suc n..<Suc n + length xs] = ?t"
    by (rule filter_cong) (auto simp: nth_Cons' Suc_diff_Suc)
  have t: "filter (\<lambda>k. P ((x # xs) ! (k - n))) [n..<n + length (x # xs)] = (if P x then n # ?t else ?t)"
    using idx by (simp add: upt_conv_Cons del: upt_Suc)
  have later: "part_taken f n ?t (x # xs) = (let (b, gone) = part_taken f (Suc n) ?t xs in (b, x # gone))"
  proof (cases ?t)
    case (Cons k ks)
    then have "k \<in> set ?t" by (simp del: upt_Suc)
    then have "k \<noteq> n" by auto
    then show ?thesis unfolding Cons by simp
  qed (simp add: part_taken_none)
  show ?case unfolding t using Cons.IH [of "Suc n"] later by (simp add: Let_def)
qed simp

lemma entries_took: "snd (pollEntriesOf ls) = filter (\<lambda>n. sendable (ls ! n)) [0..<length ls]"
  by (simp add: pollEntriesOf_def Let_def)

lemma entries_none: "fst (pollEntriesOf ls) = [] \<longleftrightarrow> (\<forall>l \<in> set ls. \<not> sendable l)"
  by (auto simp: pollEntriesOf_def Let_def filter_empty_conv all_set_conv_all_nth)

lemma poll_parts:
  "part_taken f 0 (snd (pollEntriesOf (map fst go))) go = (map f (filter (\<lambda>x. sendable (fst x)) go), filter (\<lambda>x. \<not> sendable (fst x)) go)"
proof -
  have "snd (pollEntriesOf (map fst go)) = filter (\<lambda>k. sendable (fst (go ! (k - 0)))) [0..<0 + length go]"
    unfolding entries_took by (rule filter_cong) auto
  then show ?thesis using part_taken_filter [of f 0 "\<lambda>x. sendable (fst x)" go] by simp
qed

lemma all_back:
  assumes "inflight_ok (x_poll x)" and "requeue_all (rev (sort (map fst (pollInflight (x_poll x))))) x = (lost, x')"
  shows "pollInflight (x_poll x') = []" and "item_keys (in_hand (x_poll x)) = item_keys lost + item_keys (nostrInbox (x_poll x'))"
    and "queued_ids x' = queued_ids x - ids_of lost"
proof -
  show f: "pollInflight (x_poll x') = []" using requeue_all_flight [OF assms(2)] by (auto simp: filter_empty_conv)
  show "item_keys (in_hand (x_poll x)) = item_keys lost + item_keys (nostrInbox (x_poll x'))" and "queued_ids x' = queued_ids x - ids_of lost"
    using requeue_all_effect [OF assms] by (simp_all add: in_hand_def f)
qed

text \<open>The locked part of a poll in one piece: what comes back, what goes, what it leaves.\<close>

definition poll_rest :: "item list \<Rightarrow> poll \<Rightarrow> poll" where
  "poll_rest kept p = (if kept = [] then p\<lparr>liveTags := {}, nostrInbox := kept, pollHeldSince := time_zero\<rparr> else p\<lparr>liveTags := {}, nostrInbox := kept\<rparr>)"

definition batch_entry :: "item \<Rightarrow> pollEntry" where
  "batch_entry = (\<lambda>(l, d). \<lparr>pe_T = lineTag l, pe_C = line_content l, pe_A = d_sent d, pe_F = d_from d, pe_U = d_until d\<rparr>)"

lemma poll_rest_simps [simp]: "nostrInbox (poll_rest kept p) = kept" "pollInflight (poll_rest kept p) = pollInflight p" "pollToken (poll_rest kept p) = pollToken p"
  by (simp_all add: poll_rest_def)

lemma places: "map (\<lambda>n. xs ! n) (filter (\<lambda>n. P (xs ! n)) [0..<length xs]) = filter P xs"
  by (simp add: filter_map [unfolded comp_def, symmetric] map_nth)

lemma entries_stamped:
  "map2 (\<lambda>e n. stamp_entry e (snd (go ! n))) (fst (pollEntriesOf (map fst go))) (snd (pollEntriesOf (map fst go))) =
     map batch_entry (filter (\<lambda>y. sendable (fst y)) go)"
proof -
  let ?t = "filter (\<lambda>n. sendable (fst (go ! n))) [0..<length go]"
  have t: "filter (\<lambda>n. sendable (map fst go ! n)) [0..<length go] = ?t" by (rule filter_cong) auto
  have "map2 (\<lambda>e n. stamp_entry e (snd (go ! n))) (fst (pollEntriesOf (map fst go))) (snd (pollEntriesOf (map fst go))) =
      map (\<lambda>n. batch_entry (go ! n)) ?t"
    by (auto simp: pollEntriesOf_def Let_def t map2_map_map [where g = id, simplified] stamp_entry_def batch_entry_def split_beta)
  also have "\<dots> = map batch_entry (map (\<lambda>n. go ! n) ?t)" by simp
  finally show ?thesis using places [of go "\<lambda>y. sendable (fst y)"] by simp
qed

lemma poll_locked_eq:
  assumes "requeue_all (rev (sort (map fst (pollInflight (x_poll x))))) x = (lost, x1)" and "poll_split now (x_poll x1) = (go, kept, p1)"
  shows "poll_locked now x =
    (let fit = filter (\<lambda>y. sendable (fst y)) go; gone = filter (\<lambda>y. \<not> sendable (fst y)) go; p = poll_rest kept p1; k = pollToken p1 + 1
     in if fit = [] then ((None, gone, lost), x1\<lparr>x_poll := p\<rparr>)
        else ((Some (k, map batch_entry fit), gone, lost),
              x1\<lparr>x_poll := p\<lparr>pollToken := k, pollInflight := AList.update k (map (note_freed (x_sets x1) (x_world x1)) fit) (pollInflight p1)\<rparr>\<rparr>))"
proof -
  obtain es took where 3: "pollEntriesOf (map fst go) = (es, took)" by force
  have took: "took = snd (pollEntriesOf (map fst go))" and es: "es = fst (pollEntriesOf (map fst go))" by (simp_all add: 3)
  have rest: "(if kept = [] then p1\<lparr>liveTags := {}, nostrInbox := kept\<rparr>\<lparr>pollHeldSince := time_zero\<rparr> else p1\<lparr>liveTags := {}, nostrInbox := kept\<rparr>) = poll_rest kept p1"
    by (simp add: poll_rest_def)
  show ?thesis
    unfolding poll_locked_def assms Let_def prod.case rest 3
    unfolding took es poll_parts entries_stamped by simp
qed

lemma queued_ids_poll [simp]: "queued_ids (x\<lparr>x_poll := p\<rparr>) = queued_ids x"
  by (rule queued_ids_same) simp

lemma poll_effect:
  assumes "inflight_ok (x_poll x)" and "poll_locked now x = ((batch, gone, lost), x')"
  shows "item_keys (in_hand (x_poll x)) = item_keys gone + item_keys lost + item_keys (in_hand (x_poll x'))" and "inflight_ok (x_poll x')"
    and "queued_ids x' = queued_ids x - ids_of lost" and "\<forall>y \<in> set gone. \<not> sendable (fst y)"
proof -
  obtain lost1 x1 where 1: "requeue_all (rev (sort (map fst (pollInflight (x_poll x))))) x = (lost1, x1)" by force
  obtain go kept p1 where 2: "poll_split now (x_poll x1) = (go, kept, p1)" by (cases "poll_split now (x_poll x1)") auto
  define fit where "fit = filter (\<lambda>y. sendable (fst y)) go"
  note eq = poll_locked_eq [OF 1 2, unfolded assms(2), folded fit_def]
  have gone: "gone = filter (\<lambda>y. \<not> sendable (fst y)) go" and lost: "lost1 = lost" using eq by (auto simp: Let_def split: if_splits)
  note ret = all_back [OF assms(1) 1, unfolded lost] and sp = split_effect [OF 2]
  have fl: "pollInflight p1 = []" using ret(1) sp(2) by simp
  have "item_keys (nostrInbox (x_poll x1)) = item_keys go + item_keys kept" using sp(1) by (simp add: item_keys_def)
  moreover have "item_keys go = item_keys fit + item_keys gone" unfolding fit_def gone by (simp add: keys_parts)
  moreover have "item_keys (in_hand (x_poll x')) = item_keys kept + item_keys fit"
    using eq by (auto simp: Let_def in_hand_def fl keys_map split: if_splits)
  ultimately show "item_keys (in_hand (x_poll x)) = item_keys gone + item_keys lost + item_keys (in_hand (x_poll x'))" using ret(2) by (simp add: ac_simps)
  show "inflight_ok (x_poll x')" using eq by (auto simp: Let_def inflight_ok_def fl split: if_splits)
  show "queued_ids x' = queued_ids x - ids_of lost" using eq ret(3) by (auto simp: Let_def split: if_splits)
  show "\<forall>y \<in> set gone. \<not> sendable (fst y)" by (simp add: gone)
qed

subsection \<open>Remembering\<close>

lemma compact_queued [simp]: "s_queued (fst (compactLocked fate now s w)) = s_queued s"
  by (auto simp: compactLocked_def Let_def split: option.split compact_fate.split)

lemma write_queued [simp]: "s_queued (fst (writeLocked io ls s w)) = s_queued s" "s_queued (fst (write_seen io ls s w)) = s_queued s"
  by (auto simp: writeLocked_def write_seen_def Let_def split: append_fate.split)

lemma hand_queued: "s_queued (foldl hand_one s is) = s_queued s - set is"
  by (induction "is" arbitrary: s) (auto simp: hand_one_def)

lemma handedOver_queued: "s_queued (fst (handedOver io is s w)) = s_queued s - set is"
  by (simp add: handedOver_def hand_queued)

lemma hand_sets_queued:
  "s_queued (snd (foldl (\<lambda>(w, hp) p. let (s, w) = handedOver (io p) (done_ids ds p) (hp p) w in (w, hp(p := s))) (w, hp) ps) q) \<supseteq>
     s_queued (hp q) - set (done_ids ds q)"
proof (induction ps arbitrary: w hp)
  case (Cons p ps)
  obtain s w' where h: "handedOver (io p) (done_ids ds p) (hp p) w = (s, w')" by force
  have "s_queued s = s_queued (hp p) - set (done_ids ds p)" using handedOver_queued [of "io p" "done_ids ds p" "hp p" w] h by simp
  then have "s_queued (hp q) - set (done_ids ds q) \<subseteq> s_queued ((hp(p := s)) q) - set (done_ids ds q)" by auto
  then show ?case using Cons.IH [where hp = "hp(p := s)" and w = w'] by (simp add: h)
qed simp

lemma markHandedOver_queued:
  "markHandedOver io ds w hp = (rs, w', hp') \<Longrightarrow> s_queued (hp q) - set (done_ids ds q) \<subseteq> s_queued (hp' q)"
  using hand_sets_queued [of hp q ds io w "done_order ds []"] by (auto simp: markHandedOver_def Let_def split: if_splits prod.splits)

lemma saveLast_same [simp]: "x_poll (saveLast fate ts r x) = x_poll x" "x_sets (saveLast fate ts r x) = x_sets x" "x_book (saveLast fate ts r x) = x_book x"
  by (simp_all add: saveLast_def Let_def split: write_fate.split)

lemma saves_same: "x_poll (foldl (\<lambda>x r. saveLast (f r) 0 r x) x rs) = x_poll x \<and> x_sets (foldl (\<lambda>x r. saveLast (f r) 0 r x) x rs) = x_sets x"
  by (induction rs arbitrary: x) simp_all

lemma run_saves_same [simp]: "x_poll (run_saves t rs x) = x_poll x" "x_sets (run_saves t rs x) = x_sets x" "queued_ids (run_saves t rs x) = queued_ids x"
  by (simp_all add: run_saves_def saves_same queued_ids_def)

lemma done_ids_items: "i \<in> set (done_ids (map snd xs) q) \<longleftrightarrow> (Some q, i) \<in> ids_of xs"
  by (induction xs) (auto simp: done_ids_def)

lemma mark_effect: "x_poll (mark_handed t xs x) = x_poll x" "queued_ids x - ids_of xs \<subseteq> queued_ids (mark_handed t xs x)"
proof -
  obtain rs w hp where m: "markHandedOver (t_seen t) (map snd xs) (x_world x) (x_sets x) = (rs, w, hp)" by (metis prod_cases3)
  show "x_poll (mark_handed t xs x) = x_poll x" by (simp add: mark_handed_def m)
  show "queued_ids x - ids_of xs \<subseteq> queued_ids (mark_handed t xs x)"
  proof (rule queued_ids_le)
    fix q i
    assume "i \<in> s_queued (x_sets x q)"
    then show "(Some q, i) \<in> ids_of xs \<or> i \<in> s_queued (x_sets (mark_handed t xs x) q)"
      using markHandedOver_queued [OF m, of q] done_ids_items [of i xs q] by (auto simp: mark_handed_def m)
  qed
qed

lemma hold_queued:
  assumes "holdSince sha io i t g now lo hi freed s w = ((ok, late), s', w')"
  shows "s_queued s' = (if late then s_queued s else s_queued s - {i})"
proof -
  have "s_queued (fst (snd (holdSince sha io i t g now lo hi freed s w))) =
      (if snd (fst (holdSince sha io i t g now lo hi freed s w)) then s_queued s else s_queued s - {i})"
    by (simp add: holdSince_def holdIf_def Let_def split_beta pruneHeld_def)
  then show ?thesis by (simp add: assms)
qed

lemma hold_items_effect:
  assumes "hold_items sha t now xs saves x = ((took, stale, held, saves'), x')"
  shows "mset (map fst xs) = mset took + mset stale + mset held" and "x_poll x' = x_poll x" and "queued_ids x - ids_of (took @ held) \<subseteq> queued_ids x'"
proof -
  have "mset (map fst xs) = mset took + mset stale + mset held \<and> x_poll x' = x_poll x \<and> queued_ids x - ids_of (took @ held) \<subseteq> queued_ids x'"
    using assms
  proof (induction xs arbitrary: saves x took stale held)
    case (Cons y xs)
    obtain l d g where y: "y = ((l, d), g)" by (metis prod.collapse)
    show ?case
    proof (cases "d_set d")
      case None
      then obtain took1 where "hold_items sha t now xs saves x = ((took1, stale, held, saves'), x')" and "took = (l, d) # took1"
        using Cons.prems by (auto simp: y split: prod.splits)
      then show ?thesis using Cons.IH by (fastforce simp: y None)
    next
      case (Some q)
      obtain ok late s w where h: "holdSince sha (t_seen t q) (d_id d) (d_at d) g now (d_from d) (d_until d) (d_freed d) (x_sets x q) (x_world x) = ((ok, late), s, w)"
        by (metis prod.collapse)
      let ?x = "put_set q s (x\<lparr>x_world := w\<rparr>)"
      obtain saves1 took1 stale1 held1 where ih: "hold_items sha t now xs saves1 ?x = ((took1, stale1, held1, saves'), x')"
        and res: "(took, stale, held) = (if late then (took1, (l, d) # stale1, held1) else if \<not> ok then ((l, d) # took1, stale1, held1) else (took1, stale1, (l, d) # held1))"
        using Cons.prems by (auto simp: y Some h Let_def split: prod.splits if_splits)
      have "queued_ids x - (if late then {} else {(Some q, d_id d)}) \<subseteq> queued_ids ?x"
        using hold_queued [OF h] by (intro queued_ids_le) auto
      then show ?thesis using Cons.IH [OF ih] res by (auto simp: y Some split: if_splits)
    qed
  qed simp
  then show "mset (map fst xs) = mset took + mset stale + mset held" "x_poll x' = x_poll x" "queued_ids x - ids_of (took @ held) \<subseteq> queued_ids x'" by blast+
qed

lemma finish_effect:
  assumes "ack_finish sha ht kt now kept held x = ((kept', stay, lost), x')"
  shows "item_keys kept + item_keys (map fst held) + item_keys (in_hand (x_poll x)) = item_keys kept' + item_keys stay + item_keys lost + item_keys (in_hand (x_poll x'))"
    and "inflight_ok (x_poll x') = inflight_ok (x_poll x)" and "queued_ids x - ids_of (kept' @ stay @ lost) \<subseteq> queued_ids x'"
proof -
  obtain took stale stay1 saves x1 where h: "hold_items sha ht now held Map.empty x = ((took, stale, stay1, saves), x1)" by (metis prod.collapse)
  define x2 where "x2 = mark_handed kt (kept @ took) (run_saves ht (ran saves) x1)"
  obtain lost1 x3 where r: "(if stale = [] then ([], x2) else pollRequeueLocked stale x2) = (lost1, x3)" by force
  have res: "kept' = kept @ took" "stay1 = stay" "lost1 = lost" "x3 = x'"
    using assms r [unfolded x2_def] by (auto simp: ack_finish_def markHeld_def h Let_def split: prod.splits)
  note eff = hold_items_effect [OF h]
  have p2: "x_poll x2 = x_poll x" using mark_effect(1) eff(2) by (simp add: x2_def)
  have "item_keys stale + item_keys (nostrInbox (x_poll x2)) = item_keys lost + item_keys (nostrInbox (x_poll x'))" "pollInflight (x_poll x') = pollInflight (x_poll x2)"
    "pollToken (x_poll x') = pollToken (x_poll x2)" "queued_ids x' = queued_ids x2 - ids_of lost"
    using requeue_effect [of stale x2 lost x'] r res by (auto split: if_splits)
  note req = this
  have "item_keys (map fst held) = item_keys took + item_keys stale + item_keys stay" using eff(1) res by (simp add: item_keys_def)
  then show "item_keys kept + item_keys (map fst held) + item_keys (in_hand (x_poll x)) = item_keys kept' + item_keys stay + item_keys lost + item_keys (in_hand (x_poll x'))"
    using req(1,2) p2 res by (simp add: in_hand_def ac_simps)
  show "inflight_ok (x_poll x') = inflight_ok (x_poll x)" using req(2,3) p2 by (simp add: inflight_ok_def)
  have "queued_ids x1 - ids_of (kept @ took) \<subseteq> queued_ids x2" using mark_effect(2) [of "run_saves ht (ran saves) x1" "kept @ took" kt] by (simp add: x2_def)
  then show "queued_ids x - ids_of (kept' @ stay @ lost) \<subseteq> queued_ids x'" using eff(3) req(4) res by auto
qed

lemma part_batch_mset: "part_batch v n b = (bk, held, kept) \<Longrightarrow> mset b = mset bk + mset (kept @ map fst held)"
  by (induction v n b arbitrary: bk held kept rule: part_batch.induct) (auto split: prod.splits verdict.splits)

lemma ack_effect:
  assumes "inflight_ok (x_poll x)" and "ack_locked k bad later groups x = (Some (kept, held, lost), x')"
  shows "item_keys (in_hand (x_poll x)) = item_keys (kept @ map fst held) + item_keys lost + item_keys (in_hand (x_poll x'))" and "inflight_ok (x_poll x')"
    and "queued_ids x' = queued_ids x - ids_of lost"
proof -
  obtain b where b: "map_of (pollInflight (x_poll x)) k = Some b" using assms(2) by (auto simp: ack_locked_def split: option.splits)
  obtain bk where p: "part_batch (verdict_of bad (left_map later groups) (x_sets x) (x_world x)) 0 b = (bk, held, kept)"
    and r: "pollRequeueLocked bk (unflight k x) = (lost, x')"
    using assms(2) by (auto simp: ack_locked_def b Let_def split: prod.splits)
  note ret = batch_back [OF assms(1) b part_batch_mset [OF p] r]
  show "item_keys (in_hand (x_poll x)) = item_keys (kept @ map fst held) + item_keys lost + item_keys (in_hand (x_poll x'))" "inflight_ok (x_poll x')"
    "queued_ids x' = queued_ids x - ids_of lost" by (fact ret)+
qed

end
