(* ===== verification/Poll_Anchor.thy ===== *)
theory Poll_Anchor
  imports Poll_Rules
begin

text \<open>
  The anchor file (\<open>saveLast\<close> and \<open>owedFloor\<close> in \<open>engine/nostr.go\<close>): it stays at or below every line the app has not kept and
  every debt of our relay, so that a runner starting from it after a death asks for all of them again. And how long the poll keeps
  lines back, and in which order it offers them.
\<close>

section \<open>The floor of what is owed\<close>

definition owed :: "nat \<Rightarrow> item list \<Rightarrow> unix set" where
  "owed q xs = {d_at d | l d. (l, d) \<in> set xs \<and> d_set d = Some q}"

definition is_floor :: "unix option \<Rightarrow> unix set \<Rightarrow> bool" where
  "is_floor low A \<longleftrightarrow> (case low of None \<Rightarrow> A = {} | Some v \<Rightarrow> v \<in> A \<and> (\<forall>t \<in> A. v \<le> t))"

lemma owed_simps [simp]: "owed q [] = {}" "owed q ((l, d) # xs) = (if d_set d = Some q then insert (d_at d) (owed q xs) else owed q xs)"
  "owed q (xs @ ys) = owed q xs \<union> owed q ys"
  by (auto simp: owed_def)

lemma see_floor: "is_floor low A \<Longrightarrow> is_floor (owed_see q low xs) (A \<union> owed q xs)"
proof (induction xs arbitrary: low A)
  case (Cons y xs)
  obtain l d where y: "y = (l, d)" by force
  let ?low = "if d_set d = Some q \<and> (case low of None \<Rightarrow> True | Some m \<Rightarrow> d_at d < m) then Some (d_at d) else low"
  let ?A = "if d_set d = Some q then insert (d_at d) A else A"
  have "is_floor ?low ?A" using Cons.prems by (force simp: is_floor_def split: option.splits if_splits)
  then have "is_floor (owed_see q ?low xs) (?A \<union> owed q xs)" by (rule Cons.IH)
  moreover have "owed_see q low (y # xs) = owed_see q ?low xs" by (simp add: owed_see_def y)
  moreover have "?A \<union> owed q xs = A \<union> owed q (y # xs)" by (auto simp: y)
  ultimately show ?case by simp
qed (simp add: owed_see_def)

lemma see_all_floor: "is_floor low A \<Longrightarrow> is_floor (foldl (owed_see q) low bs) (A \<union> owed q (concat bs))"
proof (induction bs arbitrary: low A)
  case (Cons b bs)
  show ?case using Cons.IH [OF see_floor [OF Cons.prems]] by (simp add: Un_assoc)
qed simp

lemma owedFloor_exact: "is_floor (owedFloor q p) (owed q (in_hand p))"
proof -
  have "is_floor (owed_see q None (nostrInbox p)) ({} \<union> owed q (nostrInbox p))" by (rule see_floor) (simp add: is_floor_def)
  then show ?thesis using see_all_floor [of _ _ q "map snd (pollInflight p)"] by (simp add: owedFloor_def in_hand_def)
qed

section \<open>Saving\<close>

definition save_at :: "rx \<Rightarrow> int \<Rightarrow> anchor \<Rightarrow> int" where
  "save_at x ts a = lower_to (owedFloor (n_set a) (x_poll x)) (lower_to (Book_Floor (x_book x) (n_keys a)) (max ts (lastSaved a)))"

lemma lower_to_le: "lower_to f v \<le> v" "f = Some t \<Longrightarrow> lower_to f v \<le> t"
  by (auto simp: lower_to_def split: option.split)

lemma save_at_le:
  "save_at x ts a \<le> max ts (lastSaved a)" "Book_Floor (x_book x) (n_keys a) = Some f \<Longrightarrow> save_at x ts a \<le> f"
  "t \<in> owed (n_set a) (in_hand (x_poll x)) \<Longrightarrow> save_at x ts a \<le> t"
proof -
  show "save_at x ts a \<le> max ts (lastSaved a)" unfolding save_at_def using lower_to_le(1) by (meson order_trans)
  show "save_at x ts a \<le> f" if "Book_Floor (x_book x) (n_keys a) = Some f" unfolding save_at_def
    using lower_to_le(1) lower_to_le(2) [OF that] by (meson order_trans)
  show "save_at x ts a \<le> t" if t: "t \<in> owed (n_set a) (in_hand (x_poll x))"
  proof -
    obtain v where "owedFloor (n_set a) (x_poll x) = Some v" "v \<le> t"
      using owedFloor_exact [of "n_set a" "x_poll x"] t by (auto simp: is_floor_def split: option.splits)
    then show ?thesis unfolding save_at_def using lower_to_le(2) by (meson order_trans)
  qed
qed

text \<open>The file holds what the anchor says of it.\<close>

definition file_told :: "anchor \<Rightarrow> world \<Rightarrow> bool" where
  "file_told a w \<longleftrightarrow> lastOnDisk a \<noteq> - 1 \<longrightarrow> w_files w (n_path a) = Some (Itoa (lastOnDisk a))"

lemma saveLast_done:
  assumes "n_path (x_anchors x r) \<noteq> []" and "\<not> engineHeld (x_world x)" and "\<not> fileGone (n_path (x_anchors x r)) (x_world x)"
  shows "lastOnDisk (x_anchors (saveLast WriteDone ts r x) r) = save_at x ts (x_anchors x r)"
    and "lastSaved (x_anchors (saveLast WriteDone ts r x) r) = max ts (lastSaved (x_anchors x r))"
    and "n_path (x_anchors (saveLast WriteDone ts r x) r) = n_path (x_anchors x r)"
    and "lastOnDisk (x_anchors x r) \<noteq> save_at x ts (x_anchors x r) \<Longrightarrow>
      w_files (x_world (saveLast WriteDone ts r x)) (n_path (x_anchors x r)) = Some (Itoa (save_at x ts (x_anchors x r)))"
    and "lastOnDisk (x_anchors x r) = save_at x ts (x_anchors x r) \<Longrightarrow> x_world (saveLast WriteDone ts r x) = x_world x"
  using assms by (auto simp: saveLast_def save_at_def Let_def max_def)

lemma trim_nothing: "list_all (\<lambda>p. \<not> IsSpace (fst p)) ps \<Longrightarrow> trim_parts ps = ps"
proof -
  assume "list_all (\<lambda>p. \<not> IsSpace (fst p)) ps"
  then have d: "dropWhile (\<lambda>p. IsSpace (fst p)) ps = ps" and r: "dropWhile (\<lambda>p. IsSpace (fst p)) (rev ps) = rev ps"
    by (auto simp: dropWhile_eq_self_iff list_all_iff hd_rev)
  show ?thesis by (simp add: trim_parts_def d r)
qed

lemma TrimSpaceU_word: "word_text s \<Longrightarrow> ascii s \<Longrightarrow> TrimSpaceU s = s"
  using rune_parts_ascii [of "map of_char s"] parts_string_bytes [of s] trim_nothing [of "map (\<lambda>b. (b, [b])) (map of_char s)"]
  by (simp add: TrimSpaceU_def bytes_of_def ascii_def word_text_def list_all_iff)

lemma read_anchor_back: "int64 v \<Longrightarrow> read_anchor now (Some (Itoa v)) = (anchorNow v now, v)"
  using Itoa_word [of v] by (simp add: read_anchor_def TrimSpaceU_word ParseInt_Itoa int64_def)

lemma anchorNow_le: "anchorNow v now \<le> v" "anchorNow v now \<le> to_unix now"
  by (simp_all add: anchorNow_def Let_def)


section \<open>Kept back, but not for long\<close>

lemma split_since:
  assumes "poll_split now p = (go, kept, p')" and "kept \<noteq> []"
  shows "pollHeldSince p' = (if pollHeldSince p = time_zero then now else pollHeldSince p) \<and> now - pollHeldSince p' < pollHoldMax"
  using assms by (auto simp: poll_split_def pollHolds_def Let_def split: if_splits)

lemma requeue_since: "pollHeldSince (x_poll (snd (pollRequeueLocked xs x))) = pollHeldSince (x_poll x)"
  by (simp add: pollRequeueLocked_def Let_def)

lemma requeue_all_since: "requeue_all ks x = (lost, x') \<Longrightarrow> pollHeldSince (x_poll x') = pollHeldSince (x_poll x)"
proof (induction ks arbitrary: x lost)
  case (Cons k ks)
  obtain lost1 x1 where 1: "pollRequeueLocked (case map_of (pollInflight (x_poll x)) k of Some b \<Rightarrow> b | None \<Rightarrow> []) (unflight k x) = (lost1, x1)" by force
  obtain lost2 where 2: "requeue_all ks x1 = (lost2, x')" using Cons.prems 1 by (auto simp: Let_def split: prod.splits)
  have "pollHeldSince (x_poll x1) = pollHeldSince (x_poll (unflight k x))" using requeue_since 1 by (metis snd_conv)
  then show ?case using Cons.IH [OF 2] by (simp add: unflight_def)
qed simp

lemma poll_since:
  assumes "poll_locked now x = (res, x')" and "nostrInbox (x_poll x') \<noteq> []"
  shows "pollHeldSince (x_poll x') = (if pollHeldSince (x_poll x) = time_zero then now else pollHeldSince (x_poll x))"
    and "now - pollHeldSince (x_poll x') < pollHoldMax"
proof -
  obtain lost x1 where 1: "requeue_all (rev (sort (map fst (pollInflight (x_poll x))))) x = (lost, x1)" by force
  obtain go kept p1 where 2: "poll_split now (x_poll x1) = (go, kept, p1)" by (cases "poll_split now (x_poll x1)") auto
  have "nostrInbox (x_poll x') = kept" using poll_locked_eq [OF 1 2] assms(1) by (auto simp: Let_def split: if_splits)
  then have k: "kept \<noteq> []" using assms(2) by simp
  then have "pollHeldSince (x_poll x') = pollHeldSince p1"
    using poll_locked_eq [OF 1 2] assms(1) by (auto simp: Let_def poll_rest_def split: if_splits)
  then show "pollHeldSince (x_poll x') = (if pollHeldSince (x_poll x) = time_zero then now else pollHeldSince (x_poll x))"
    "now - pollHeldSince (x_poll x') < pollHoldMax"
    using split_since [OF 2 k] requeue_all_since [OF 1] by simp_all
qed

text \<open>
  Lines the poll keeps back while their address is walked go over in the end: once a poll at \<open>t\<close> kept something back, a poll twenty
  seconds later or more leaves nothing behind, whatever came in between, as long as no poll in between emptied the inbox (only a poll
  changes the moment the keeping back began).
\<close>

theorem kept_back_goes:
  assumes "poll_locked t x = (res, x1)" and "nostrInbox (x_poll x1) \<noteq> []" and "pollHeldSince (x_poll x) \<le> t" and "t \<noteq> time_zero"
    and "pollHeldSince (x_poll x2) = pollHeldSince (x_poll x1)" and "t + 20 * second \<le> now" and "poll_locked now x2 = (res', x3)"
  shows "nostrInbox (x_poll x3) = []"
proof (rule ccontr)
  assume "nostrInbox (x_poll x3) \<noteq> []"
  note s3 = poll_since [OF assms(7) this] and s1 = poll_since(1) [OF assms(1,2)]
  have "pollHeldSince (x_poll x1) \<noteq> time_zero" "pollHeldSince (x_poll x1) \<le> t" using s1 assms(3,4) by (auto split: if_splits)
  then show False using s3 assms(5,6) by (simp add: pollHoldMax_def)
qed

section \<open>In order\<close>

definition comes_again :: "item list \<Rightarrow> item list" where
  "comes_again b = filter (\<lambda>y. \<not> given_up y) (map again b)"

definition flying :: "poll \<Rightarrow> nat \<Rightarrow> item list" where
  "flying p k = (case map_of (pollInflight p) k of Some b \<Rightarrow> b | None \<Rightarrow> [])"

lemma requeue_inbox: "nostrInbox (x_poll (snd (pollRequeueLocked xs x))) = comes_again xs @ nostrInbox (x_poll x)"
  "pollInflight (x_poll (snd (pollRequeueLocked xs x))) = pollInflight (x_poll x)" "walkingTags (x_poll (snd (pollRequeueLocked xs x))) = walkingTags (x_poll x)"
  by (simp_all add: pollRequeueLocked_def comes_again_def Let_def)

lemma requeue_all_inbox:
  "distinct ks \<Longrightarrow> nostrInbox (x_poll (snd (requeue_all ks x))) = concat (map (\<lambda>k. comes_again (flying (x_poll x) k)) (rev ks)) @ nostrInbox (x_poll x) \<and>
     walkingTags (x_poll (snd (requeue_all ks x))) = walkingTags (x_poll x)"
proof (induction ks arbitrary: x)
  case (Cons k ks)
  define x1 where "x1 = snd (pollRequeueLocked (flying (x_poll x) k) (unflight k x))"
  have r: "snd (requeue_all (k # ks) x) = snd (requeue_all ks x1)" by (simp add: x1_def flying_def Let_def split_beta)
  have "flying (x_poll x1) j = flying (x_poll x) j" if "j \<in> set ks" for j
  proof -
    have "j \<noteq> k" using that Cons.prems by auto
    then show ?thesis by (simp add: x1_def flying_def requeue_inbox map_of_delete)
  qed
  then have m: "map (\<lambda>j. comes_again (flying (x_poll x1) j)) (rev ks) = map (\<lambda>j. comes_again (flying (x_poll x) j)) (rev ks)" by simp
  have "nostrInbox (x_poll x1) = comes_again (flying (x_poll x) k) @ nostrInbox (x_poll x)" "walkingTags (x_poll x1) = walkingTags (x_poll x)"
    by (simp_all add: x1_def requeue_inbox) (simp add: unflight_def)
  then show ?case using Cons.IH [of x1] Cons.prems unfolding r m by simp
qed simp


section \<open>An example\<close>

definition poll_id :: nid where "poll_id = replicate 32 CHR ''k''"

definition poll_done :: inboxDone where
  "poll_done = \<lparr>d_set = Some 0, d_id = poll_id, d_tries = 0, d_at = 70, d_resave = Some 0, d_sent = 60, d_freed = 0, d_from = 1, d_until = 2\<rparr>"

definition poll_world :: world where
  "poll_world = \<lparr>w_files = Map.empty, heldFreed = (\<lambda>_. 0), engineHeld = False, goneFiles = {}, heldMissed = (\<lambda>_ _ _. 0), liveSeen = (\<lambda>_. {})\<rparr>"

definition poll_example :: "poll \<Rightarrow> rx" where
  "poll_example p = \<lparr>x_poll = p, x_sets = (\<lambda>_. new_seen ''s''), x_world = poll_world, x_book = NewBook,
     x_anchors = (\<lambda>_. \<lparr>n_set = 0, n_keys = [''r''], n_path = ''a'', lastSaved = 100, lastOnDisk = - 1\<rparr>)\<rparr>"

definition poll_waiting :: poll where
  "poll_waiting = new_poll\<lparr>nostrInbox := [(''t|new'', poll_done)], pollInflight := [(3, [(''t|old'', poll_done)])], pollToken := 3\<rparr>"



definition poll_walked :: poll where
  "poll_walked = new_poll\<lparr>nostrInbox := [(''t|x'', poll_done)], walkingTags := [''t'' \<mapsto> 1]\<rparr>"

theorem kept_back_goes_witness:
  "nostrInbox (x_poll (snd (poll_locked 0 (poll_example poll_walked)))) = [(''t|x'', poll_done)] \<and>
   nostrInbox (x_poll (snd (poll_locked (20 * second) (snd (poll_locked 0 (poll_example poll_walked)))))) = []"
proof -
  let ?x1 = "snd (poll_locked 0 (poll_example poll_walked))"
  have "nostrInbox (x_poll ?x1) = [(''t|x'', poll_done)]"
    by (simp add: Let_def poll_locked_def poll_example_def poll_walked_def new_poll_def poll_split_def held_back_def walking_def lineTag_def pollHolds_def pollHoldMax_def
        pollHoldBytes_def duration_defs)
  moreover from this have "nostrInbox (x_poll (snd (poll_locked (20 * second) ?x1))) = []"
    by (intro kept_back_goes [of 0 "poll_example poll_walked" "fst (poll_locked 0 (poll_example poll_walked))" ?x1 ?x1 "20 * second"
          "fst (poll_locked (20 * second) ?x1)"]) (simp_all add: poll_example_def poll_walked_def new_poll_def time_zero_def duration_defs)
  ultimately show ?thesis by blast
qed

end
