(* ===== verification/Poll_Runs.thy ===== *)
theory Poll_Runs
  imports Poll_Anchor
begin

text \<open>
  Every interleaving of runners, polls, the app's answers and a wipe (\<open>engine/nostr.go\<close>), at the grain of the critical
  sections: between two of them anything else may go on. A ledger beside the state says where each line went.
\<close>

section \<open>Runs\<close>

text \<open>What a call still has to do after its critical section.\<close>

datatype job = Unfit "item list" | Answered "item list" "(item \<times> string) list"

definition job_items :: "job \<Rightarrow> item list" where
  "job_items j = (case j of Unfit gone \<Rightarrow> gone | Answered kept held \<Rightarrow> kept @ map fst held)"

record pst =
  y_rx :: rx
  y_opening :: "(nat \<times> nid) multiset"
  y_jobs :: "job multiset"
  y_taken :: "item list"
  y_offered :: "item list"
  y_kept :: "item list"
  y_held :: "item list"
  y_unfit :: "item list"
  y_lost :: "item list"
  y_wiped :: "item list"

definition job_keys :: "job multiset \<Rightarrow> item_key multiset" where
  "job_keys js = sum_mset (image_mset (\<lambda>j. item_keys (job_items j)) js)"

text \<open>The ids a call has claimed and not finished with.\<close>

definition pending :: "pst \<Rightarrow> (nat option \<times> nid) multiset" where
  "pending y = image_mset (\<lambda>(q, i). (Some q, i)) (y_opening y) + image_mset snd (item_keys (in_hand (x_poll (y_rx y))) + job_keys (y_jobs y))"

definition batch_items :: "nat \<Rightarrow> rx \<Rightarrow> item list" where
  "batch_items k x = (case map_of (pollInflight (x_poll x)) k of Some b \<Rightarrow> b | None \<Rightarrow> [])"

definition batch_offered :: "(nat \<times> pollEntry list) option \<Rightarrow> rx \<Rightarrow> item list" where
  "batch_offered batch x = (case batch of Some (k, es) \<Rightarrow> batch_items k x | None \<Rightarrow> [])"

definition fresh_lines :: "bool \<times> bool \<Rightarrow> rx \<Rightarrow> item list" where
  "fresh_lines res x = (if snd res then [last (nostrInbox (x_poll x))] else [])"

inductive pstep :: "(string \<Rightarrow> string) \<Rightarrow> pst \<Rightarrow> pst \<Rightarrow> bool" for sha where
  claimed: "take_claim q i (y_rx y) = (None, x) \<Longrightarrow> pstep sha y (y\<lparr>y_rx := x, y_opening := add_mset (q, i) (y_opening y)\<rparr>)"
| refused: "take_claim q i (y_rx y) = (Some res, x) \<Longrightarrow> pstep sha y (y\<lparr>y_rx := x\<rparr>)"
| opened: "(q, i) \<in># y_opening y \<Longrightarrow> take_open io op tag q r i created lo hi (y_rx y) = (res, x) \<Longrightarrow>
    pstep sha y (y\<lparr>y_rx := x, y_opening := y_opening y - {#(q, i)#}, y_taken := y_taken y @ fresh_lines res x\<rparr>)"
| polled: "poll_locked now (y_rx y) = ((batch, gone, lost), x) \<Longrightarrow>
    pstep sha y (y\<lparr>y_rx := x, y_jobs := add_mset (Unfit gone) (y_jobs y), y_offered := y_offered y @ batch_offered batch x, y_lost := y_lost y @ lost\<rparr>)"
| marked: "Unfit gone \<in># y_jobs y \<Longrightarrow>
    pstep sha y (y\<lparr>y_rx := mark_handed t gone (y_rx y), y_jobs := y_jobs y - {#Unfit gone#}, y_unfit := y_unfit y @ gone\<rparr>)"
| failed: "poll_failed k (y_rx y) = (lost, x) \<Longrightarrow> pstep sha y (y\<lparr>y_rx := x, y_lost := y_lost y @ lost\<rparr>)"
| acked: "ack_locked k bad later groups (y_rx y) = (Some (kept, held, lost), x) \<Longrightarrow>
    pstep sha y (y\<lparr>y_rx := x, y_jobs := add_mset (Answered kept held) (y_jobs y), y_lost := y_lost y @ lost\<rparr>)"
| acked_late: "ack_locked k bad later groups (y_rx y) = (None, x) \<Longrightarrow> pstep sha y (y\<lparr>y_rx := x\<rparr>)"
| finished: "Answered kept held \<in># y_jobs y \<Longrightarrow> ack_finish sha ht kt now kept held (y_rx y) = ((kept', stay, lost), x) \<Longrightarrow>
    pstep sha y (y\<lparr>y_rx := x, y_jobs := y_jobs y - {#Answered kept held#}, y_kept := y_kept y @ kept', y_held := y_held y @ stay, y_lost := y_lost y @ lost\<rparr>)"
| walk_begins: "pstep sha y (y\<lparr>y_rx := set_poll (walkBegins tag) (y_rx y)\<rparr>)"
| walk_ends: "pstep sha y (y\<lparr>y_rx := set_poll (walkEnds tag) (y_rx y)\<rparr>)"
| live_came: "pstep sha y (y\<lparr>y_rx := set_poll (liveCame tag) (y_rx y)\<rparr>)"
| sent: "pstep sha y (y\<lparr>y_rx := set_poll (\<lambda>p. p\<lparr>nostrSentIDs := insert h (nostrSentIDs p)\<rparr>) (y_rx y)\<rparr>)"
| runner_starts: "(\<And>i. (Some q, i) \<notin># pending y) \<Longrightarrow> pstep sha y (y\<lparr>y_rx := put_set q s (y_rx y)\<rparr>)"
| elsewhere: "x_poll x = x_poll (y_rx y) \<Longrightarrow> (\<And>q. s_queued (x_sets x q) = s_queued (x_sets (y_rx y) q)) \<Longrightarrow> pstep sha y (y\<lparr>y_rx := x\<rparr>)"
| wiped: "pstep sha y (y\<lparr>y_rx := wipe_lines (y_rx y), y_wiped := y_wiped y @ in_hand (x_poll (y_rx y))\<rparr>)"

definition fresh_pst :: "rx \<Rightarrow> pst" where
  "fresh_pst x = \<lparr>y_rx = x\<lparr>x_poll := new_poll\<rparr>, y_opening = {#}, y_jobs = {#}, y_taken = [], y_offered = [], y_kept = [], y_held = [], y_unfit = [],
     y_lost = [], y_wiped = []\<rparr>"

definition prun :: "(string \<Rightarrow> string) \<Rightarrow> pst \<Rightarrow> bool" where
  "prun sha y \<longleftrightarrow> (\<exists>x. (pstep sha)\<^sup>*\<^sup>* (fresh_pst x) y)"

lemma prun_induct [consumes 1, case_names fresh step]:
  assumes "prun sha y" and "\<And>x. P (fresh_pst x)" and "\<And>y y'. prun sha y \<Longrightarrow> P y \<Longrightarrow> pstep sha y y' \<Longrightarrow> P y'"
  shows "P y"
proof -
  obtain x where "(pstep sha)\<^sup>*\<^sup>* (fresh_pst x) y" using assms(1) by (auto simp: prun_def)
  then show ?thesis
  proof (induction rule: rtranclp_induct)
    case (step y z)
    have "prun sha y" using step.hyps(1) by (auto simp: prun_def)
    then show ?case using assms(3) step by blast
  qed (rule assms(2))
qed

section \<open>Nothing is lost\<close>

definition settled_keys :: "pst \<Rightarrow> item_key multiset" where
  "settled_keys y = item_keys (y_kept y) + item_keys (y_held y) + item_keys (y_unfit y) + item_keys (y_lost y) + item_keys (y_wiped y)"

definition balanced :: "pst \<Rightarrow> bool" where
  "balanced y \<longleftrightarrow> inflight_ok (x_poll (y_rx y)) \<and> item_keys (y_taken y) = item_keys (in_hand (x_poll (y_rx y))) + job_keys (y_jobs y) + settled_keys y"

lemma job_keys_simps [simp]: "job_keys {#} = {#}" "job_keys (add_mset j js) = item_keys (job_items j) + job_keys js"
  by (simp_all add: job_keys_def)

lemma job_items_simps [simp]: "job_items (Unfit gone) = gone" "job_items (Answered kept held) = kept @ map fst held"
  by (simp_all add: job_items_def)

lemma job_keys_del: "j \<in># js \<Longrightarrow> job_keys js = item_keys (job_items j) + job_keys (js - {#j#})"
  by (metis insert_DiffM job_keys_simps(2))

lemma claim_poll: "take_claim q i x = (res, x') \<Longrightarrow> x_poll x' = x_poll x"
  by (auto simp: take_claim_def Let_def split: if_splits prod.splits)

lemma notOpened_queued: "s_queued (fst (notOpened io i s w)) = s_queued s - {i}"
  by (simp add: notOpened_def)

lemma open_effect:
  assumes "take_open io op tag q r i created lo hi x = (res, x')"
  shows "item_keys (in_hand (x_poll x')) = item_keys (in_hand (x_poll x)) + item_keys (fresh_lines res x')" (is ?item_keys)
    and "inflight_ok (x_poll x') = inflight_ok (x_poll x)" (is ?flight)
    and "image_mset snd (item_keys (fresh_lines res x')) = (if snd res then {#(Some q, i)#} else {#})" (is ?ids)
    and "queued_ids x - (if snd res then {} else {(Some q, i)}) \<subseteq> queued_ids x'" (is ?queued)
proof -
  have "?item_keys \<and> ?flight \<and> ?ids \<and> ?queued"
  proof (cases op)
    case None
    obtain s w where n: "notOpened io i (x_sets x q) (x_world x) = (s, w)" by force
    have "s_queued s = s_queued (x_sets x q) - {i}" using notOpened_queued [of io i "x_sets x q" "x_world x"] n by simp
    then have "queued_ids x - {(Some q, i)} \<subseteq> queued_ids (put_set q s (x\<lparr>x_world := w\<rparr>))" by (intro queued_ids_le) auto
    then show ?thesis using assms by (auto simp: take_open_def None n fresh_lines_def)
  next
    case (Some cs)
    obtain content snt where cs: "cs = (content, snt)" by force
    have "queued_ids x' = queued_ids x" using assms by (intro queued_ids_same) (auto simp: take_open_def Some cs)
    moreover have "pollInflight (x_poll x') = pollInflight (x_poll x)" "pollToken (x_poll x') = pollToken (x_poll x)" "snd res"
      "\<exists>y. nostrInbox (x_poll x') = nostrInbox (x_poll x) @ [y] \<and> snd (item_key y) = (Some q, i)"
      using assms by (auto simp: take_open_def Some cs item_key_def)
    ultimately show ?thesis by (auto simp: fresh_lines_def in_hand_def inflight_ok_def)
  qed
  then show ?item_keys ?flight ?ids ?queued by blast+
qed

lemma failed_effect:
  assumes "inflight_ok (x_poll x)" and "poll_failed k x = (lost, x')"
  shows "item_keys (in_hand (x_poll x)) = item_keys lost + item_keys (in_hand (x_poll x'))" and "inflight_ok (x_poll x')" and "queued_ids x' = queued_ids x - ids_of lost"
proof -
  have "item_keys (in_hand (x_poll x)) = item_keys lost + item_keys (in_hand (x_poll x')) \<and> inflight_ok (x_poll x') \<and> queued_ids x' = queued_ids x - ids_of lost"
  proof (cases "map_of (pollInflight (x_poll x)) k")
    case (Some b)
    then show ?thesis using one_back [OF assms(1), of k lost x'] assms(2) by (simp add: poll_failed_def)
  qed (use assms in \<open>auto simp: poll_failed_def\<close>)
  then show "item_keys (in_hand (x_poll x)) = item_keys lost + item_keys (in_hand (x_poll x'))" "inflight_ok (x_poll x')" "queued_ids x' = queued_ids x - ids_of lost" by blast+
qed

lemma ack_late_poll: "ack_locked k bad later groups x = (None, x') \<Longrightarrow> x_poll x' = x_poll x \<and> queued_ids x' = queued_ids x"
  using none_back [of x k] by (auto simp: ack_locked_def Let_def split: option.splits prod.splits)

lemma walk_poll [simp]: "in_hand (walkBegins tag p) = in_hand p" "in_hand (walkEnds tag p) = in_hand p" "in_hand (liveCame tag p) = in_hand p"
  "in_hand (p\<lparr>nostrSentIDs := h\<rparr>) = in_hand p"
  "inflight_ok (walkBegins tag p) = inflight_ok p" "inflight_ok (walkEnds tag p) = inflight_ok p" "inflight_ok (liveCame tag p) = inflight_ok p"
  "inflight_ok (p\<lparr>nostrSentIDs := h\<rparr>) = inflight_ok p"
  by (simp_all add: in_hand_def inflight_ok_def walkBegins_def walkEnds_def liveCame_def)

lemma wipe_poll [simp]: "in_hand (x_poll (wipe_lines x)) = []" "inflight_ok (x_poll (wipe_lines x))" "queued_ids (wipe_lines x) = queued_ids x"
  by (simp_all add: wipe_lines_def in_hand_def inflight_ok_def queued_ids_def)

lemma fresh_balanced: "balanced (fresh_pst x)"
  by (simp add: balanced_def fresh_pst_def new_poll_def inflight_ok_def in_hand_def settled_keys_def)

lemma balanced_step:
  assumes "balanced y" and "pstep sha y y'"
  shows "balanced y'"
  using assms(2)
proof cases
  case (opened q i io op tag r created lo hi res x)
  then show ?thesis using assms(1) open_effect(1,2) [OF opened(3)] by (simp add: balanced_def settled_keys_def ac_simps)
next
  case (polled now batch gone lost x)
  then show ?thesis using assms(1) poll_effect(1,2) [OF _ polled(2)] by (simp add: balanced_def settled_keys_def ac_simps)
next
  case (marked gone t)
  then show ?thesis using assms(1) job_keys_del [OF marked(2)] by (simp add: balanced_def settled_keys_def mark_effect ac_simps)
next
  case (failed k lost x)
  then show ?thesis using assms(1) failed_effect(1,2) [OF _ failed(2)] by (simp add: balanced_def settled_keys_def ac_simps)
next
  case (acked k bad later groups kept held lost x)
  then show ?thesis using assms(1) ack_effect(1,2) [OF _ acked(2)] by (simp add: balanced_def settled_keys_def ac_simps)
next
  case (finished kept held ht kt now kept' stay lost x)
  then show ?thesis using assms(1) finish_effect(1,2) [OF finished(3)] job_keys_del [OF finished(2)]
    by (simp add: balanced_def settled_keys_def ac_simps)
qed (use assms(1) in \<open>auto simp: balanced_def settled_keys_def ac_simps dest: claim_poll ack_late_poll\<close>)

lemma run_balanced: "prun sha y \<Longrightarrow> balanced y"
  by (induction rule: prun_induct) (auto intro: fresh_balanced balanced_step)

section \<open>Nothing comes twice\<close>

definition once :: "pst \<Rightarrow> bool" where
  "once y \<longleftrightarrow> (\<forall>e. count (pending y) e \<le> 1) \<and> set_mset (pending y) \<subseteq> queued_ids (y_rx y)"

lemma once_less:
  assumes "once y" and "pending y = pending y' + K" and "queued_ids (y_rx y) - set_mset K \<subseteq> queued_ids (y_rx y')"
  shows "once y'"
proof -
  have le: "count (pending y') e + count K e \<le> 1" for e
    using assms(1) unfolding once_def assms(2) count_union by blast
  have "e \<in> queued_ids (y_rx y')" if "e \<in># pending y'" for e
  proof -
    have "count (pending y') e > 0" using that by simp
    then have "count K e = 0" using le [of e] by linarith
    then have "e \<notin># K" by (simp add: not_in_iff)
    moreover have "e \<in> queued_ids (y_rx y)" using that assms(1,2) by (auto simp: once_def)
    ultimately show ?thesis using assms(3) by blast
  qed
  then show ?thesis using le by (auto simp: once_def) (meson add_leD1)
qed

lemma claim_ids:
  assumes "take_claim q i x = (None, x')"
  shows "(Some q, i) \<notin> queued_ids x" and "insert (Some q, i) (queued_ids x) \<subseteq> queued_ids x'"
  using assms by (auto simp: take_claim_def claim_id_def Let_def queued_ids_def split: if_splits prod.splits)

lemma refuse_ids: "take_claim q i x = (Some res, x') \<Longrightarrow> queued_ids x' = queued_ids x"
  by (auto simp: take_claim_def claim_id_def Let_def queued_ids_def split: if_splits prod.splits)

lemma ids_keys [simp]: "snd ` (set_mset (item_keys xs)) = ids_of xs"
  by (simp add: ids_of_keys)

lemma pending_job: "j \<in># y_jobs y \<Longrightarrow> job_keys (y_jobs y - {#j#}) + item_keys (job_items j) = job_keys (y_jobs y)"
  by (simp add: job_keys_del)

lemma once_opened:
  assumes "once y" and "(q, i) \<in># y_opening y" and "take_open io op tag q r i created lo hi (y_rx y) = (res, x)"
  shows "once (y\<lparr>y_rx := x, y_opening := y_opening y - {#(q, i)#}, y_taken := ts\<rparr>)" (is "once ?y")
proof (rule once_less [OF assms(1)])
  let ?K = "if snd res then {#} else {#(Some q, i)#}"
  have "y_opening y = add_mset (q, i) (y_opening y - {#(q, i)#})" using assms(2) by simp
  then have "image_mset (\<lambda>(q, i). (Some q, i)) (y_opening y) = add_mset (Some q, i) (image_mset (\<lambda>(q, i). (Some q, i)) (y_opening y - {#(q, i)#}))"
    by (metis (no_types, lifting) case_prod_conv image_mset_add_mset)
  then show "pending y = pending ?y + ?K" using open_effect(1,3) [OF assms(3)] by (simp add: pending_def)
  show "queued_ids (y_rx y) - set_mset ?K \<subseteq> queued_ids (y_rx ?y)" using open_effect(4) [OF assms(3)] by (simp split: if_splits)
qed

lemma once_step:
  assumes "balanced y" and "once y" and "pstep sha y y'"
  shows "once y'"
  using assms(3)
proof cases
  case (claimed q i x)
  then have "pending y' = add_mset (Some q, i) (pending y)" using claim_poll [OF claimed(2)] by (simp add: pending_def)
  moreover have "(Some q, i) \<notin># pending y" using claim_ids(1) [OF claimed(2)] assms(2) by (auto simp: once_def)
  ultimately show ?thesis using assms(2) claim_ids(2) [OF claimed(2)] claimed(1) by (auto simp: once_def not_in_iff)
next
  case (refused q i res x)
  then show ?thesis using assms(2) claim_poll [OF refused(2)] refuse_ids [OF refused(2)] by (simp add: once_def pending_def)
next
  case (opened q i io op tag r created lo hi res x)
  then show ?thesis using once_opened [OF assms(2) opened(2,3)] by simp
next
  case (polled now batch gone lost x)
  show ?thesis
    by (rule once_less [OF assms(2), of _ "image_mset snd (item_keys lost)"])
      (use assms(1) poll_effect(1,3) [OF _ polled(2)] in \<open>auto simp: polled(1) pending_def balanced_def\<close>)
next
  case (marked gone t)
  show ?thesis
    by (rule once_less [OF assms(2), of _ "image_mset snd (item_keys gone)"])
      (use mark_effect(2) [of "y_rx y" gone t] job_keys_del [OF marked(2)] in \<open>auto simp: marked(1) pending_def mark_effect(1)\<close>)
next
  case (failed k lost x)
  show ?thesis
    by (rule once_less [OF assms(2), of _ "image_mset snd (item_keys lost)"])
      (use assms(1) failed_effect(1,3) [OF _ failed(2)] in \<open>auto simp: failed(1) pending_def balanced_def\<close>)
next
  case (acked k bad later groups kept held lost x)
  show ?thesis
    by (rule once_less [OF assms(2), of _ "image_mset snd (item_keys lost)"])
      (use assms(1) ack_effect(1,3) [OF _ acked(2)] in \<open>auto simp: acked(1) pending_def balanced_def\<close>)
next
  case (acked_late k bad later groups x)
  then show ?thesis using assms(2) ack_late_poll [OF acked_late(2)] by (simp add: once_def pending_def)
next
  case (finished kept held ht kt now kept' stay lost x)
  have "item_keys (in_hand (x_poll (y_rx y))) + job_keys (y_jobs y) =
      item_keys (in_hand (x_poll x)) + job_keys (y_jobs y - {#Answered kept held#}) + item_keys (kept' @ stay @ lost)"
    using finish_effect(1) [OF finished(3)] job_keys_del [OF finished(2)] by (simp add: ac_simps)
  then have "pending y = pending y' + image_mset snd (item_keys (kept' @ stay @ lost))"
    by (simp add: finished(1) pending_def image_mset_union [symmetric] del: image_mset_union)
  then show ?thesis
    by (rule once_less [OF assms(2)]) (use finish_effect(3) [OF finished(3)] in \<open>auto simp: finished(1)\<close>)
next
  case (runner_starts q s)
  have p: "pending y' = pending y" by (simp add: runner_starts(1) pending_def)
  have "e \<in> queued_ids (y_rx y')" if "e \<in># pending y" for e
  proof -
    have "e \<in> queued_ids (y_rx y)" using assms(2) that by (auto simp: once_def)
    then obtain q' i where "e = (Some q', i)" "i \<in> s_queued (x_sets (y_rx y) q')" by (auto simp: queued_ids_def)
    moreover have "q' \<noteq> q" using runner_starts(2) that calculation(1) by blast
    ultimately show ?thesis by (simp add: runner_starts(1))
  qed
  then show ?thesis using assms(2) by (auto simp: once_def p)
next
  case (elsewhere x)
  then show ?thesis using assms(2) queued_ids_same [of x "y_rx y"] by (simp add: once_def pending_def)
next
  case wiped
  show ?thesis
    by (rule once_less [OF assms(2), of _ "image_mset snd (item_keys (in_hand (x_poll (y_rx y))))"]) (auto simp: wiped pending_def)
qed (use assms(2) in \<open>simp_all add: once_def pending_def queued_ids_def\<close>)

lemma fresh_once: "once (fresh_pst x)"
  by (simp add: once_def fresh_pst_def pending_def in_hand_def new_poll_def)

lemma run_once: "prun sha y \<Longrightarrow> once y"
  by (induction rule: prun_induct) (auto intro: fresh_once once_step run_balanced)

section \<open>Every line is offered often enough\<close>

definition offered_more :: "item list \<Rightarrow> nat \<Rightarrow> item list \<Rightarrow> bool" where
  "offered_more os n xs \<longleftrightarrow> (\<forall>y \<in> set xs. d_tries (snd y) + n \<le> count (item_keys os) (item_key y))"

definition offered_ok :: "item list \<Rightarrow> poll \<Rightarrow> bool" where
  "offered_ok os p \<longleftrightarrow> offered_more os 0 (nostrInbox p) \<and> (\<forall>(k, b) \<in> set (pollInflight p). offered_more os 1 b)"

definition offered_out :: "item list \<Rightarrow> item list \<Rightarrow> bool" where
  "offered_out os xs \<longleftrightarrow> (\<forall>y \<in> set xs. pollMaxTries \<le> count (item_keys os) (item_key y))"

lemma offered_out_simps [simp]: "offered_out os []" "offered_out os (xs @ ys) \<longleftrightarrow> offered_out os xs \<and> offered_out os ys"
  by (auto simp: offered_out_def)

lemma offered_more_simps [simp]: "offered_more os n []" "offered_more os n (xs @ ys) \<longleftrightarrow> offered_more os n xs \<and> offered_more os n ys"
  by (auto simp: offered_more_def)

lemma offered_mono: "offered_more os n xs \<Longrightarrow> offered_more (os @ os') n xs" "offered_out os xs \<Longrightarrow> offered_out (os @ os') xs"
  by (auto simp: offered_more_def offered_out_def intro: trans_le_add1)

lemma offered_sub: "offered_more os n xs \<Longrightarrow> set ys \<subseteq> set xs \<Longrightarrow> offered_more os n ys"
  by (auto simp: offered_more_def)

lemma offered_ok_delete: "offered_ok os p \<Longrightarrow> offered_ok os (p\<lparr>pollInflight := AList.delete k (pollInflight p)\<rparr>)"
  by (auto simp: offered_ok_def AList.delete_eq)

lemma offered_batch: "offered_ok os p \<Longrightarrow> map_of (pollInflight p) k = Some b \<Longrightarrow> offered_more os 1 b"
  by (auto simp: offered_ok_def dest: map_of_SomeD)

lemma requeue_offered:
  assumes "pollRequeueLocked xs x = (lost, x')" and "offered_more os 1 xs" and "offered_ok os (x_poll x)"
  shows "offered_ok os (x_poll x') \<and> offered_out os lost"
proof -
  have lost: "lost = filter given_up (map again xs)" and inb: "nostrInbox (x_poll x') = filter (\<lambda>y. \<not> given_up y) (map again xs) @ nostrInbox (x_poll x)"
    using assms(1) by (auto simp: pollRequeueLocked_def Let_def)
  have a: "offered_more os 0 (map again xs)" using assms(2) by (auto simp: offered_more_def again_def split_beta item_key_def)
  then have "offered_more os 0 lost" by (rule offered_sub) (auto simp: lost)
  moreover have "pollMaxTries \<le> d_tries (snd y)" if "y \<in> set lost" for y using that by (auto simp: lost given_up_def split_beta)
  ultimately have "offered_out os lost" by (fastforce simp: offered_more_def offered_out_def)
  moreover have "offered_more os 0 (filter (\<lambda>y. \<not> given_up y) (map again xs))" by (rule offered_sub [OF a]) auto
  ultimately show ?thesis using assms(3) requeue_effect(2) [OF assms(1)] by (simp add: offered_ok_def inb)
qed

lemma unflight_offered: "offered_ok os (x_poll x) \<Longrightarrow> offered_ok os (x_poll (unflight k x))"
  by (simp add: unflight_def offered_ok_delete)

lemma one_back_offered:
  assumes "offered_ok os (x_poll x)" and "pollRequeueLocked (case map_of (pollInflight (x_poll x)) k of Some b \<Rightarrow> b | None \<Rightarrow> []) (unflight k x) = (lost, x')"
  shows "offered_ok os (x_poll x') \<and> offered_out os lost"
  using assms offered_batch [OF assms(1), of k] by (intro requeue_offered [OF assms(2)] unflight_offered) (auto split: option.split)

lemma requeue_all_offered:
  "offered_ok os (x_poll x) \<Longrightarrow> requeue_all ks x = (lost, x') \<Longrightarrow> offered_ok os (x_poll x') \<and> offered_out os lost"
proof (induction ks arbitrary: x lost)
  case (Cons k ks)
  obtain lost1 x1 where 1: "pollRequeueLocked (case map_of (pollInflight (x_poll x)) k of Some b \<Rightarrow> b | None \<Rightarrow> []) (unflight k x) = (lost1, x1)" by force
  obtain lost2 where 2: "requeue_all ks x1 = (lost2, x')" and "lost = lost1 @ lost2" using Cons.prems(2) 1 by (auto simp: Let_def split: prod.splits)
  then show ?case using one_back_offered [OF Cons.prems(1) 1] Cons.IH [OF _ 2] by simp
qed simp

lemma key_counted: "y \<in> set xs \<Longrightarrow> 1 \<le> count (item_keys xs) (item_key y)"
  by (induction xs) (auto simp: Suc_le_eq)

lemma freed_tries [simp]: "d_tries (snd (note_freed hp w y)) = d_tries (snd y)"
  by (auto simp: note_freed_def split_beta split: option.split)

lemma poll_offered:
  assumes "inflight_ok (x_poll x)" and "offered_ok os (x_poll x)" and "poll_locked now x = ((batch, gone, lost), x')"
  shows "offered_ok (os @ batch_offered batch x') (x_poll x') \<and> offered_out os lost"
proof -
  obtain lost1 x1 where 1: "requeue_all (rev (sort (map fst (pollInflight (x_poll x))))) x = (lost1, x1)" by force
  obtain go kept p1 where 2: "poll_split now (x_poll x1) = (go, kept, p1)" by (cases "poll_split now (x_poll x1)") auto
  define b where "b = map (note_freed (x_sets x1) (x_world x1)) (filter (\<lambda>y. sendable (fst y)) go)"
  note eq = poll_locked_eq [OF 1 2, unfolded assms(3)]
  have l: "lost1 = lost" using eq by (auto simp: Let_def split: if_splits)
  note ret = requeue_all_offered [OF assms(2) 1, unfolded l] and sp = split_effect [OF 2]
  have fl: "pollInflight p1 = []" using all_back(1) [OF assms(1) 1] sp(2) by simp
  have "set (nostrInbox (x_poll x1)) = set go \<union> set kept" using arg_cong [OF sp(1), of set_mset] by simp
  then have "offered_more os 0 go" "offered_more os 0 kept" using ret by (auto simp: offered_ok_def intro: offered_sub)
  note parts = this
  have "offered_more (os @ b) 1 b" unfolding offered_more_def
  proof
    fix y
    assume y: "y \<in> set b"
    then have "d_tries (snd y) \<le> count (item_keys os) (item_key y)" using parts(1) by (auto simp: b_def offered_more_def)
    then show "d_tries (snd y) + 1 \<le> count (item_keys (os @ b)) (item_key y)" using key_counted [OF y] unfolding keys_simps count_union by linarith
  qed
  moreover have "offered_more (os @ b) 0 kept" by (rule offered_mono) (rule parts(2))
  moreover have "(batch_offered batch x' = b \<and> pollInflight (x_poll x') = [(pollToken p1 + 1, b)] \<or> batch_offered batch x' = [] \<and> pollInflight (x_poll x') = []) \<and>
      nostrInbox (x_poll x') = kept"
    using eq by (auto simp: Let_def fl b_def batch_offered_def batch_items_def split: if_splits)
  ultimately show ?thesis using ret parts(2) by (auto simp: offered_ok_def)
qed

lemma part_batch_sets: "part_batch v n b = (bk, held, kept) \<Longrightarrow> set bk \<union> set (kept @ map fst held) = set b"
  using arg_cong [OF part_batch_mset, of v n b bk held kept set_mset] by auto

lemma ack_offered:
  assumes "offered_ok os (x_poll x)" and "ack_locked k bad later groups x = (Some (kept, held, lost), x')"
  shows "offered_ok os (x_poll x') \<and> offered_out os lost \<and> offered_more os 1 (kept @ map fst held)"
proof -
  obtain b where b: "map_of (pollInflight (x_poll x)) k = Some b" using assms(2) by (auto simp: ack_locked_def split: option.splits)
  obtain bk where p: "part_batch (verdict_of bad (left_map later groups) (x_sets x) (x_world x)) 0 b = (bk, held, kept)"
    and r: "pollRequeueLocked bk (unflight k x) = (lost, x')"
    using assms(2) by (auto simp: ack_locked_def b Let_def split: prod.splits)
  have "offered_more os 1 bk" "offered_more os 1 (kept @ map fst held)"
    by (rule offered_sub [OF offered_batch [OF assms(1) b]], use part_batch_sets [OF p] in blast)+
  then show ?thesis using requeue_offered [OF r _ unflight_offered [OF assms(1)]] by blast
qed

lemma finish_offered:
  assumes "ack_finish sha ht kt now kept held x = ((kept', stay, lost), x')" and "offered_more os 1 (map fst held)" and "offered_ok os (x_poll x)"
  shows "offered_ok os (x_poll x') \<and> offered_out os lost"
proof -
  obtain took stale stay1 saves x1 where h: "hold_items sha ht now held Map.empty x = ((took, stale, stay1, saves), x1)" by (metis prod.collapse)
  let ?x = "mark_handed kt (kept @ took) (run_saves ht (ran saves) x1)"
  have r: "(if stale = [] then ([], ?x) else pollRequeueLocked stale ?x) = (lost, x')"
    using assms(1) by (auto simp: ack_finish_def markHeld_def h Let_def split: prod.splits)
  have p: "offered_ok os (x_poll ?x)" using assms(3) mark_effect(1) hold_items_effect(2) [OF h] by simp
  have "set stale \<subseteq> set (map fst held)" using arg_cong [OF hold_items_effect(1) [OF h], of set_mset] by auto
  then have "offered_more os 1 stale" using assms(2) by (rule offered_sub [rotated])
  then show ?thesis using r requeue_offered [of stale ?x lost x' os] p by (auto split: if_splits)
qed

definition job_offered :: "item list \<Rightarrow> job \<Rightarrow> bool" where
  "job_offered os j \<longleftrightarrow> (case j of Unfit gone \<Rightarrow> \<forall>y \<in> set gone. \<not> sendable (fst y) | Answered kept held \<Rightarrow> offered_more os 1 (kept @ map fst held))"

definition offers :: "pst \<Rightarrow> bool" where
  "offers y \<longleftrightarrow> offered_ok (y_offered y) (x_poll (y_rx y)) \<and> (\<forall>j \<in># y_jobs y. job_offered (y_offered y) j) \<and> offered_out (y_offered y) (y_lost y) \<and>
     (\<forall>u \<in> set (y_unfit y). \<not> sendable (fst u))"

lemma job_offered_simps [simp]: "job_offered os (Unfit gone) \<longleftrightarrow> (\<forall>y \<in> set gone. \<not> sendable (fst y))"
  "job_offered os (Answered kept held) \<longleftrightarrow> offered_more os 1 (kept @ map fst held)"
  by (simp_all add: job_offered_def)

lemma job_offered_mono: "job_offered os j \<Longrightarrow> job_offered (os @ os') j"
  using offered_mono(1) by (cases j) (simp_all del: offered_more_simps)

lemma offered_ok_cong: "nostrInbox p' = nostrInbox p \<Longrightarrow> pollInflight p' = pollInflight p \<Longrightarrow> offered_ok os p' = offered_ok os p"
  by (simp add: offered_ok_def)

lemma open_offered:
  assumes "offered_ok os (x_poll x)" and "take_open io op tag q r i created lo hi x = (res, x')"
  shows "offered_ok os (x_poll x')"
proof -
  have "pollInflight (x_poll x') = pollInflight (x_poll x)" using assms(2) by (auto simp: take_open_def Let_def split: option.splits prod.splits)
  moreover have "nostrInbox (x_poll x') = nostrInbox (x_poll x) \<or> (\<exists>y. nostrInbox (x_poll x') = nostrInbox (x_poll x) @ [y] \<and> d_tries (snd y) = 0)"
    using assms(2) by (auto simp: take_open_def Let_def split: option.splits prod.splits)
  ultimately show ?thesis using assms(1) by (auto simp: offered_ok_def offered_more_def [of os 0 "[_]"])
qed

lemma walk_offered [simp]: "offered_ok os (walkBegins tag p) = offered_ok os p" "offered_ok os (walkEnds tag p) = offered_ok os p"
  "offered_ok os (liveCame tag p) = offered_ok os p" "offered_ok os (p\<lparr>nostrSentIDs := h\<rparr>) = offered_ok os p"
  by (simp_all add: offered_ok_def walkBegins_def walkEnds_def liveCame_def)

lemma offers_step:
  assumes "balanced y" and "offers y" and "pstep sha y y'"
  shows "offers y'"
  using assms(3)
proof cases
  case (opened q i io op tag r created lo hi res x)
  then show ?thesis using assms(2) open_offered [OF _ opened(3)] by (simp add: offers_def)
next
  case (polled now batch gone lost x)
  have fl: "inflight_ok (x_poll (y_rx y))" using assms(1) by (simp add: balanced_def)
  show ?thesis
    using assms(2) poll_offered [OF fl _ polled(2)] poll_effect(4) [OF fl polled(2)]
    by (auto simp: polled(1) offers_def intro: offered_mono job_offered_mono)
next
  case (marked gone t)
  have "job_offered (y_offered y) (Unfit gone)" using assms(2) marked(2) by (auto simp: offers_def simp del: job_offered_simps)
  then show ?thesis using assms(2) by (auto simp: marked(1) offers_def mark_effect dest: in_diffD)
next
  case (failed k lost x)
  then have "offered_ok (y_offered y) (x_poll x) \<and> offered_out (y_offered y) lost"
    using one_back_offered [of "y_offered y" "y_rx y" k lost x] assms(2) by (auto simp: poll_failed_def offers_def split: option.splits)
  then show ?thesis using assms(2) failed(1) by (simp add: offers_def)
next
  case (acked k bad later groups kept held lost x)
  then show ?thesis using assms(2) ack_offered [OF _ acked(2)] by (simp add: offers_def)
next
  case (finished kept held ht kt now kept' stay lost x)
  have "offered_more (y_offered y) 1 (map fst held)" using assms(2) finished(2) by (fastforce simp: offers_def)
  then show ?thesis using assms(2) finish_offered [OF finished(3)] by (auto simp: finished(1) offers_def dest: in_diffD)
next
  case wiped
  then show ?thesis using assms(2) by (simp add: offers_def wipe_lines_def offered_ok_def)
qed (use assms(2) in \<open>auto simp: offers_def dest: claim_poll ack_late_poll\<close>)

lemma run_offers: "prun sha y \<Longrightarrow> offers y"
proof (induction rule: prun_induct)
  case (fresh x)
  show ?case by (simp add: offers_def fresh_pst_def new_poll_def offered_ok_def)
qed (auto intro: offers_step run_balanced)

section \<open>The promises\<close>

text \<open>
  C1. In every interleaving of runners, polls, answers and a wipe, each line a runner put into the inbox is accounted for exactly as
  often as it was put there: it waits in the inbox or in a batch in flight, or a call that answers for it has not finished, or
  it was kept, is held on the relay, cannot go over at all, went with a wipe, or was let go of after it was in five batches. The
  lines that cannot go over are those without a tag or with a line break or a nul.
\<close>

theorem lines_conserved:
  assumes "prun sha y"
  shows "item_keys (y_taken y) = item_keys (in_hand (x_poll (y_rx y))) + job_keys (y_jobs y) +
      (item_keys (y_kept y) + item_keys (y_held y) + item_keys (y_unfit y) + item_keys (y_lost y) + item_keys (y_wiped y)) \<and>
    (\<forall>u \<in> set (y_unfit y). \<not> sendable (fst u)) \<and> (\<forall>u \<in> set (y_lost y). 5 \<le> count (item_keys (y_offered y)) (item_key u))"
  using run_balanced [OF assms] run_offers [OF assms]
  by (simp add: balanced_def settled_keys_def offers_def offered_out_def pollMaxTries_def)


section \<open>The whole calls are runs\<close>

lemma steps2: "r x y \<Longrightarrow> r y z \<Longrightarrow> r\<^sup>*\<^sup>* x z"
  by (rule converse_rtranclp_into_rtranclp) auto

lemma take_event_run:
  assumes "take_event io op tag q r i created lo hi (y_rx y) = (res, x)"
  shows "\<exists>y'. (pstep sha)\<^sup>*\<^sup>* y y' \<and> y_rx y' = x"
proof -
  obtain c x1 where c: "take_claim q i (y_rx y) = (c, x1)" by force
  show ?thesis
  proof (cases c)
    case (Some res1)
    then have "pstep sha y (y\<lparr>y_rx := x1\<rparr>)" "x = x1" using c assms by (auto intro: pstep.refused simp: take_event_def)
    then show ?thesis by (intro exI [of _ "y\<lparr>y_rx := x1\<rparr>"]) auto
  next
    case None
    let ?y = "y\<lparr>y_rx := x1, y_opening := add_mset (q, i) (y_opening y)\<rparr>"
    have 1: "pstep sha y ?y" using c None by (auto intro: pstep.claimed)
    have m: "(q, i) \<in># y_opening ?y" by simp
    have o: "take_open io op tag q r i created lo hi (y_rx ?y) = (res, x)" using c None assms by (simp add: take_event_def)
    obtain y2 where "pstep sha ?y y2" "y_rx y2 = x" by (rule that [OF pstep.opened [OF m o]]) simp
    then show ?thesis using steps2 [of "pstep sha", OF 1] by blast
  qed
qed

lemma nostrPollAt_run:
  assumes "nostrPollAt t now marshals (y_rx y) = (res, x)"
  shows "\<exists>y'. (pstep sha)\<^sup>*\<^sup>* y y' \<and> y_rx y' = x"
proof -
  obtain batch gone lost x1 where p: "poll_locked now (y_rx y) = ((batch, gone, lost), x1)" by (metis prod.collapse)
  let ?y1 = "y\<lparr>y_rx := x1, y_jobs := add_mset (Unfit gone) (y_jobs y), y_offered := y_offered y @ batch_offered batch x1, y_lost := y_lost y @ lost\<rparr>"
  have 1: "pstep sha y ?y1" using p by (rule pstep.polled)
  have m: "Unfit gone \<in># y_jobs ?y1" by simp
  obtain y2 where 2: "pstep sha ?y1 y2" "y_rx y2 = mark_handed t gone x1" by (rule that [OF pstep.marked [OF m, of sha t]]) simp
  have 12: "(pstep sha)\<^sup>*\<^sup>* y y2" using steps2 [of "pstep sha", OF 1 2(1)] .
  show ?thesis
  proof (cases "batch = None \<or> marshals")
    case True
    then have "x = mark_handed t gone x1" using assms p by (auto simp: nostrPollAt_def Let_def split: option.splits prod.splits)
    then show ?thesis using 12 2(2) by blast
  next
    case False
    then obtain k lost2 where f: "poll_failed k (y_rx y2) = (lost2, x)"
      using assms p 2(2) by (auto simp: nostrPollAt_def Let_def split: option.splits prod.splits) (metis prod.collapse)
    obtain y3 where "pstep sha y2 y3" "y_rx y3 = x" by (rule that [OF pstep.failed [OF f]]) simp
    then show ?thesis using rtranclp.rtrancl_into_rtrancl [OF 12] by blast
  qed
qed

lemma nostrAck_run:
  assumes "nostrAck sha obj arr hook ht kt now token failed (y_rx y) = (msg, x)"
    and hook: "\<And>y. \<exists>y'. (pstep sha)\<^sup>*\<^sup>* y y' \<and> y_rx y' = hook (y_rx y) \<and> y_jobs y \<subseteq># y_jobs y'"
  shows "\<exists>y'. (pstep sha)\<^sup>*\<^sup>* y y' \<and> y_rx y' = x"
proof (cases "ParseUint token = None \<or> ackLists obj arr failed = None")
  case True
  then have "x = y_rx y" using assms(1) by (auto simp: nostrAck_def split: option.splits)
  then show ?thesis by blast
next
  case False
  then obtain k bad later groups where l: "ParseUint token = Some k" "ackLists obj arr failed = Some (bad, later, groups)" by auto
  obtain r x1 where a: "ack_locked k bad later groups (y_rx y) = (r, x1)" by force
  show ?thesis
  proof (cases r)
    case None
    obtain y1 where "pstep sha y y1" "y_rx y1 = x1" by (rule that [OF pstep.acked_late [OF a [unfolded None]]]) simp
    then show ?thesis using assms(1) by (auto simp: nostrAck_def l a None)
  next
    case (Some ans)
    obtain kept held lost where ans: "ans = (kept, held, lost)" by (metis prod.collapse)
    obtain y1 where 1: "pstep sha y y1" "y_rx y1 = x1" "Answered kept held \<in># y_jobs y1"
      by (rule that [OF pstep.acked [OF a [unfolded Some ans]]]) simp_all
    obtain y2 where 2: "(pstep sha)\<^sup>*\<^sup>* y1 y2" "y_rx y2 = hook x1" "Answered kept held \<in># y_jobs y2"
      using hook [of y1] 1 mset_subset_eqD by metis
    obtain kept' stay lost' x3 where f: "ack_finish sha ht kt now kept held (y_rx y2) = ((kept', stay, lost'), x3)" by (metis prod.collapse)
    obtain y3 where 3: "pstep sha y2 y3" "y_rx y3 = x3" by (rule that [OF pstep.finished [OF 2(3) f]]) simp
    have "x = x3" using assms(1) f 2(2) by (simp add: nostrAck_def l a Some ans)
    moreover have "(pstep sha)\<^sup>*\<^sup>* y y3"
      using converse_rtranclp_into_rtranclp [OF 1(1) rtranclp.rtrancl_into_rtrancl [OF 2(1) 3(1)]] .
    ultimately show ?thesis using 3(2) by blast
  qed
qed

section \<open>An example\<close>

text \<open>A line is claimed, opened and polled.\<close>

lemma prun_more: "prun sha y \<Longrightarrow> pstep sha y y' \<Longrightarrow> prun sha y'"
  unfolding prun_def by (meson rtranclp.rtrancl_into_rtrancl)

definition claimed_rx :: rx where
  "claimed_rx = put_set 0 ((new_seen ''s'')\<lparr>s_queued := {poll_id}\<rparr>) (poll_example new_poll)"

lemma example_claim: "take_claim 0 poll_id (poll_example new_poll) = (None, claimed_rx)"
  by (simp add: take_claim_def poll_example_def new_poll_def claim_id_def new_seen_def ring_has_def newIDRing_def put_set_def claimed_rx_def)

definition opened_rx :: rx where
  "opened_rx = set_poll (\<lambda>p. p\<lparr>nostrInbox := [(''t|hi'', poll_done)]\<rparr>) claimed_rx"

lemma example_open: "take_open io (Some (''hi'', 60)) ''t'' 0 0 poll_id 70 1 2 claimed_rx = ((True, True), opened_rx)"
  by (simp add: take_open_def opened_rx_def claimed_rx_def poll_done_def set_poll_def put_set_def poll_example_def new_poll_def)

lemma example_opened: "\<exists>y. prun sha y \<and> y_taken y = [(''t|hi'', poll_done)] \<and> y_rx y = opened_rx \<and> y_jobs y = {#} \<and> y_opening y = {#}"
proof -
  let ?y0 = "fresh_pst (poll_example new_poll)"
  have rx: "y_rx ?y0 = poll_example new_poll" by (simp add: fresh_pst_def poll_example_def)
  have "prun sha ?y0" by (auto simp: prun_def)
  moreover have "pstep sha ?y0 (?y0\<lparr>y_rx := claimed_rx, y_opening := add_mset (0, poll_id) (y_opening ?y0)\<rparr>)" (is "pstep sha _ ?y1")
    by (rule pstep.claimed) (simp add: rx example_claim)
  moreover have "pstep sha ?y1 (?y1\<lparr>y_rx := opened_rx, y_opening := y_opening ?y1 - {#(0, poll_id)#},
      y_taken := y_taken ?y1 @ fresh_lines (True, True) opened_rx\<rparr>)" (is "pstep sha _ ?y2")
    by (rule pstep.opened [where io = "\<lparr>io_append = AppendDone, io_compact = CompactDone, io_now = 0\<rparr>" and op = "Some (''hi'', 60)" and tag = "''t''" and r = 0 and created = 70 and lo = 1 and hi = 2])
      (simp_all add: example_open)
  ultimately have "prun sha ?y2" by (blast intro: prun_more)
  moreover have "y_taken ?y2 = [(''t|hi'', poll_done)]" "y_jobs ?y2 = {#}" "y_opening ?y2 = {#}"
    by (simp_all add: fresh_lines_def opened_rx_def claimed_rx_def fresh_pst_def)
  moreover have "y_rx ?y2 = opened_rx" by simp
  ultimately show ?thesis by blast
qed

lemma example_poll:
  "poll_locked 0 opened_rx = ((Some (1, [batch_entry (''t|hi'', poll_done)]), [], []),
     set_poll (\<lambda>p. p\<lparr>nostrInbox := [], pollToken := 1, pollInflight := [(1, [(''t|hi'', poll_done)])]\<rparr>) opened_rx)"
proof -
  have 1: "requeue_all (rev (sort (map fst (pollInflight (x_poll opened_rx))))) opened_rx = ([], opened_rx)"
    by (simp add: opened_rx_def claimed_rx_def poll_example_def new_poll_def)
  have 2: "poll_split 0 (x_poll opened_rx) = ([(''t|hi'', poll_done)], [], x_poll opened_rx)"
    by (simp add: poll_split_def opened_rx_def claimed_rx_def poll_example_def new_poll_def)
  have "sendable ''t|hi''" by (simp add: sendable_def line_content_def lineTag_def contains_any_def)
  then show ?thesis unfolding poll_locked_eq [OF 1 2]
    by (simp add: Let_def opened_rx_def claimed_rx_def set_poll_def put_set_def poll_example_def new_poll_def poll_rest_def note_freed_def poll_done_def heldGen_def poll_world_def)
qed

theorem lines_conserved_witness:
  "\<exists>y. prun (\<lambda>s. s) y \<and> item_keys (y_taken y) = {#(''t|hi'', Some 0, poll_id)#} \<and> nostrInbox (x_poll (y_rx y)) = [] \<and>
     in_hand (x_poll (y_rx y)) = [(''t|hi'', poll_done)] \<and>
     item_keys (y_kept y) + item_keys (y_held y) + item_keys (y_unfit y) + item_keys (y_lost y) + item_keys (y_wiped y) = {#}"
proof -
  obtain y where y: "prun (\<lambda>s. s) y" "y_taken y = [(''t|hi'', poll_done)]" "y_rx y = opened_rx" "y_jobs y = {#}" using example_opened by blast
  have p: "poll_locked 0 (y_rx y) = ((Some (1, [batch_entry (''t|hi'', poll_done)]), [], []),
      set_poll (\<lambda>p. p\<lparr>nostrInbox := [], pollToken := 1, pollInflight := [(1, [(''t|hi'', poll_done)])]\<rparr>) opened_rx)" by (simp add: y(3) example_poll)
  obtain z where z: "pstep (\<lambda>s. s) y z" "y_taken z = y_taken y" "y_jobs z = {#Unfit []#}"
    "y_rx z = set_poll (\<lambda>p. p\<lparr>nostrInbox := [], pollToken := 1, pollInflight := [(1, [(''t|hi'', poll_done)])]\<rparr>) opened_rx"
    by (rule that [OF pstep.polled [OF p]]) (simp_all add: y)
  have r: "prun (\<lambda>s. s) z" by (rule prun_more [OF y(1) z(1)])
  have h: "in_hand (x_poll (y_rx z)) = [(''t|hi'', poll_done)]" "nostrInbox (x_poll (y_rx z)) = []" by (simp_all add: z(4) in_hand_def)
  have k: "item_keys (y_taken z) = {#(''t|hi'', Some 0, poll_id)#}" by (simp add: z(2) y(2) item_key_def poll_done_def)
  show ?thesis using lines_conserved [OF r] r h k by (intro exI [of _ z]) (simp add: z(2,3) y(2))
qed


end
