(* ===== verification/Door.thy ===== *)
theory Door
  imports Bucket Utf8 Strconv
begin

text \<open>
  The onion door (\<open>engine/inbox.go\<close>, with \<open>handleConn\<close> and \<open>HaloDrainInbox\<close> of \<open>engine/bridge.go\<close> and \<open>readDoorLine\<close> of
  \<open>engine/door.go\<close>): anyone who knows the address can connect, so the door reads bounded lines, takes only what a message looks
  like, only so much, only so fast and only from so many at once. A connection is the bytes it brings and how it ends; its
  reads go through \<open>bufio\<close> with the buffer the source gives it. The hash of a line is a parameter.
\<close>

section \<open>Limits\<close>

definition inboxMaxConns :: nat where "inboxMaxConns = 8"
definition inboxMaxLines :: nat where "inboxMaxLines = 256"
definition inboxMaxBytes :: nat where "inboxMaxBytes = 4 * 2 ^ 20"
definition inboxMaxLine :: nat where "inboxMaxLine = 128 * 1024"
definition inboxPerSec :: rat where "inboxPerSec = 2"
definition inboxBurst :: rat where "inboxBurst = of_nat inboxMaxLines"
definition doorLinesPerStream :: nat where "doorLinesPerStream = inboxMaxLines"
definition doorBuffer :: nat where "doorBuffer = 64 * 2 ^ 10"

record door =
  inbox :: "string list"
  inboxBytes :: nat
  inboxRecent :: "string set"
  inboxTokens :: rat
  inboxFilled :: nanos
  inboxSlots :: nat

definition new_door :: door where
  "new_door = \<lparr>inbox = [], inboxBytes = 0, inboxRecent = {}, inboxTokens = inboxBurst, inboxFilled = time_zero, inboxSlots = 0\<rparr>"

section \<open>What a line has to look like\<close>

text \<open>\<open>base64.StdEncoding.DecodeString\<close>: line breaks are skipped, the padding is required, the bits behind the last byte are not looked at.\<close>

definition b64_val :: "char \<Rightarrow> nat option" where
  "b64_val c = (let n = of_char c in
     if 65 \<le> n \<and> n \<le> 90 then Some (n - 65) else if 97 \<le> n \<and> n \<le> 122 then Some (n - 71) else if 48 \<le> n \<and> n \<le> 57 then Some (n + 4)
     else if n = 43 then Some 62 else if n = 47 then Some 63 else None)"

fun b64_quads :: "string \<Rightarrow> nat list option" where
  "b64_quads [] = Some []"
| "b64_quads (a # b # c # d # s) =
     (case (b64_val a, b64_val b) of
        (Some x, Some y) \<Rightarrow>
          if c = CHR ''='' then (if d = CHR ''='' \<and> s = [] then Some [x * 4 + y div 16] else None)
          else (case b64_val c of
            None \<Rightarrow> None
          | Some z \<Rightarrow>
              if d = CHR ''='' then (if s = [] then Some [x * 4 + y div 16, y mod 16 * 16 + z div 4] else None)
              else (case (b64_val d, b64_quads s) of
                (Some u, Some rest) \<Rightarrow> Some ((x * 4 + y div 16) # (y mod 16 * 16 + z div 4) # (z mod 4 * 64 + u) # rest)
              | _ \<Rightarrow> None))
      | _ \<Rightarrow> None)"
| "b64_quads s = None"

definition b64_decode :: "string \<Rightarrow> nat list option" where
  "b64_decode s = b64_quads (filter (\<lambda>c. c \<noteq> CHR 0x0A \<and> c \<noteq> CHR 0x0D) s)"

definition inboxShapeOK :: "string \<Rightarrow> bool" where
  "inboxShapeOK line =
     (if length line < 8 \<or> length line > inboxMaxLine then False
      else case b64_decode line of
        None \<Rightarrow> False
      | Some raw \<Rightarrow> if length raw < 2 then False else raw ! 0 = 2 \<or> raw ! 0 = 3)"

section \<open>The budget and the queue\<close>

definition inboxBudgetTake :: "nanos \<Rightarrow> door \<Rightarrow> bool \<times> door" where
  "inboxBudgetTake now d =
     (let d = (if inboxFilled d \<noteq> time_zero then
                 (let t = inboxTokens d + seconds (now - inboxFilled d) * inboxPerSec in d\<lparr>inboxTokens := (if t > inboxBurst then inboxBurst else t)\<rparr>)
               else d);
          d = d\<lparr>inboxFilled := now\<rparr>
      in if inboxTokens d < 1 then (False, d) else (True, d\<lparr>inboxTokens := inboxTokens d - 1\<rparr>))"

definition inboxPut :: "(string \<Rightarrow> string) \<Rightarrow> nanos \<Rightarrow> string \<Rightarrow> door \<Rightarrow> bool \<times> door" where
  "inboxPut sha now line d =
     (let h = sha line
      in if h \<in> inboxRecent d then (False, d)
         else if length (inbox d) \<ge> inboxMaxLines \<or> inboxBytes d + length line > inboxMaxBytes then (False, d)
         else let (ok, d) = inboxBudgetTake now d
              in if \<not> ok then (False, d)
                 else (True, d\<lparr>inbox := inbox d @ [line], inboxBytes := inboxBytes d + length line, inboxRecent := insert h (inboxRecent d)\<rparr>))"

definition inboxDrained :: "door \<Rightarrow> door" where
  "inboxDrained d = d\<lparr>inbox := [], inboxBytes := 0, inboxRecent := {}\<rparr>"

definition HaloDrainInbox :: "door \<Rightarrow> string \<times> door" where
  "HaloDrainInbox d = (if inbox d = [] then ([], d) else (Join_nl (inbox d), inboxDrained d))"

section \<open>Reading a line\<close>

text \<open>How the bytes of a connection end: closed by the other side, or some other error, a deadline among them.\<close>

datatype ending = Eof | Broken

datatype slice_end = Found | Full | Ended

text \<open>\<open>ReadSlice\<close> for a line break on a buffer of \<open>doorBuffer\<close> bytes: the bytes, how they stopped, and what is left to read.\<close>

definition nl :: char where "nl = CHR 0x0A"

definition ReadSlice :: "string \<Rightarrow> string \<times> slice_end \<times> string" where
  "ReadSlice s =
     (let l = takeWhile (\<lambda>c. c \<noteq> nl) s
      in if length l < length s \<and> length l < doorBuffer then (l @ [nl], Found, drop (length l + 1) s)
         else if length s \<ge> doorBuffer then (take doorBuffer s, Full, drop doorBuffer s)
         else (s, Ended, []))"

datatype read_error = LineTooLong | AtEof | ReadBroken

function readDoorLine :: "ending \<Rightarrow> string \<Rightarrow> string \<Rightarrow> (read_error + string) \<times> string" where
  "readDoorLine e b s =
     (let (frag, how, s') = ReadSlice s; b = b @ frag
      in if length b > inboxMaxLine + 2 then (Inl LineTooLong, s')
         else case how of
           Full \<Rightarrow> readDoorLine e b s'
         | Ended \<Rightarrow> (if e = Eof then (if b \<noteq> [] then (Inr b, s') else (Inl AtEof, s')) else (Inl ReadBroken, s'))
         | Found \<Rightarrow> (Inr b, s'))"
  by auto
termination
proof (relation "measure (\<lambda>(e, b, s). length s)")
  fix e :: ending and b s :: string and x y frag xa how s' b'
  assume "x = ReadSlice s" "(frag, y) = x" "(how, s') = y" "how = Full"
  then show "((e, b', s'), e, b, s) \<in> measure (\<lambda>(e, b, s). length s)"
    by (auto simp: ReadSlice_def Let_def doorBuffer_def split: if_splits)
qed simp

declare readDoorLine.simps [simp del]

section \<open>A connection\<close>

text \<open>
  \<open>handleConn\<close> past the slot: at most so many lines, each read, trimmed, looked at and queued, and acked when it was. \<open>clock n\<close> is
  the time the \<open>n\<close>th line is queued at, \<open>wrote n\<close> whether its ack could be written.
\<close>

fun conn_lines ::
  "(string \<Rightarrow> string) \<Rightarrow> (nat \<Rightarrow> nanos) \<Rightarrow> (nat \<Rightarrow> bool) \<Rightarrow> ending \<Rightarrow> nat \<Rightarrow> nat \<Rightarrow> string \<Rightarrow> door \<Rightarrow> string list \<times> door" where
  "conn_lines sha clock wrote e 0 n s d = ([], d)"
| "conn_lines sha clock wrote e (Suc left) n s d =
     (case readDoorLine e [] s of
        (Inl err, s') \<Rightarrow> ([], d)
      | (Inr raw, s') \<Rightarrow>
          let line = TrimSpaceU raw
          in if \<not> inboxShapeOK line then ([], d)
             else let (ok, d) = inboxPut sha (clock n) line d
                  in if \<not> ok then ([], d)
                     else if \<not> wrote n then ([], d)
                     else let (acked, d) = conn_lines sha clock wrote e left (n + 1) s' d in (line # acked, d))"

definition take_slot :: "door \<Rightarrow> bool \<times> door" where
  "take_slot d = (if inboxSlots d < inboxMaxConns then (True, d\<lparr>inboxSlots := inboxSlots d + 1\<rparr>) else (False, d))"

definition free_slot :: "door \<Rightarrow> door" where
  "free_slot d = d\<lparr>inboxSlots := inboxSlots d - 1\<rparr>"

definition handleConn :: "(string \<Rightarrow> string) \<Rightarrow> (nat \<Rightarrow> nanos) \<Rightarrow> (nat \<Rightarrow> bool) \<Rightarrow> ending \<Rightarrow> string \<Rightarrow> door \<Rightarrow> string list \<times> door" where
  "handleConn sha clock wrote e s d =
     (let (ok, d) = take_slot d
      in if \<not> ok then ([], d) else let (acked, d) = conn_lines sha clock wrote e doorLinesPerStream 0 s d in (acked, free_slot d))"

end
