(* ===== verification/Door_Rules.thy ===== *)
theory Door_Rules
  imports Door
begin

text \<open>
  What the onion door promises (\<open>engine/inbox.go\<close>, \<open>engine/door.go\<close>): a line is read as it was sent or refused for its length,
  what waits stays within its bounds and comes in no faster than its budget, and only a line that was queued is acked.
\<close>

section \<open>Reading\<close>

text \<open>What the next line of a stream is, with \<open>b\<close> read of it before.\<close>

definition next_line :: "ending \<Rightarrow> string \<Rightarrow> string \<Rightarrow> read_error + string" where
  "next_line e b s =
     (let l = takeWhile (\<lambda>c. c \<noteq> nl) s
      in if length l < length s then (if length b + length l + 1 \<le> inboxMaxLine + 2 then Inr (b @ l @ [nl]) else Inl LineTooLong)
         else if length b + length s > inboxMaxLine + 2 then Inl LineTooLong
         else if e = Broken then Inl ReadBroken
         else if b @ s = [] then Inl AtEof else Inr (b @ s))"

definition after_line :: "string \<Rightarrow> string" where
  "after_line s = drop (length (takeWhile (\<lambda>c. c \<noteq> nl) s) + 1) s"

lemma whole_line:
  assumes "\<not> length (takeWhile P s) < length s"
  shows "takeWhile P s = s"
proof -
  have "length (takeWhile P s) + length (dropWhile P s) = length s" by (metis length_append takeWhile_dropWhile_id)
  then have "length (dropWhile P s) = 0" using assms by linarith
  then have "dropWhile P s = []" by (simp only: length_0_conv)
  then show ?thesis by (metis append_Nil2 takeWhile_dropWhile_id)
qed

lemma line_full:
  assumes "ReadSlice s = (frag, Full, s')"
  shows "s = frag @ s'" and "nl \<notin> set frag"
proof -
  let ?l = "takeWhile (\<lambda>c. c \<noteq> nl) s"
  have f: "frag = take doorBuffer s" "s' = drop doorBuffer s" and c: "\<not> (length ?l < length s \<and> length ?l < doorBuffer)"
    using assms by (auto simp: ReadSlice_def Let_def split: if_splits)
  then show "s = frag @ s'" by simp
  have "set frag \<subseteq> set ?l"
  proof (cases "length ?l < length s")
    case True
    then have "take doorBuffer ?l = take doorBuffer s" using c by (subst (2) takeWhile_dropWhile_id [of "\<lambda>c. c \<noteq> nl" s, symmetric]) (simp only: take_append, simp)
    then show ?thesis unfolding f by (metis set_take_subset)
  next
    case False
    show ?thesis unfolding whole_line [OF False] f(1) by (rule set_take_subset)
  qed
  then show "nl \<notin> set frag" by (auto dest: set_takeWhileD)
qed

lemma takeWhile_after: "nl \<notin> set frag \<Longrightarrow> takeWhile (\<lambda>c. c \<noteq> nl) (frag @ s) = frag @ takeWhile (\<lambda>c. c \<noteq> nl) s"
  by (rule takeWhile_append2) auto

lemma next_line_full: "nl \<notin> set frag \<Longrightarrow> length b + length frag \<le> inboxMaxLine + 2 \<Longrightarrow> next_line e b (frag @ s) = next_line e (b @ frag) s"
  by (simp add: next_line_def takeWhile_after Let_def ac_simps)

lemma next_line_long:
  assumes "nl \<notin> set frag" and "length b + length frag > inboxMaxLine + 2"
  shows "next_line e b (frag @ s) = Inl LineTooLong"
  using assms by (simp add: next_line_def takeWhile_after Let_def)

lemma readDoorLine_step:
  "ReadSlice s = (frag, how, s') \<Longrightarrow> readDoorLine e b s =
     (if length (b @ frag) > inboxMaxLine + 2 then (Inl LineTooLong, s')
      else case how of
        Full \<Rightarrow> readDoorLine e (b @ frag) s'
      | Ended \<Rightarrow> (if e = Eof then (if b @ frag \<noteq> [] then (Inr (b @ frag), s') else (Inl AtEof, s')) else (Inl ReadBroken, s'))
      | Found \<Rightarrow> (Inr (b @ frag), s'))"
  by (subst readDoorLine.simps) (simp add: Let_def)

lemma readDoorLine_next: "fst (readDoorLine e b s) = next_line e b s"
proof (induction e b s rule: readDoorLine.induct)
  case (1 e b s)
  obtain frag how s' where r: "ReadSlice s = (frag, how, s')" by (metis prod_cases3)
  show ?case
  proof (cases how)
    case Full
    note f = line_full [OF r [unfolded Full]]
    show ?thesis
    proof (cases "length (b @ frag) > inboxMaxLine + 2")
      case True
      then have "next_line e b s = Inl LineTooLong" using next_line_long [OF f(2), of b e s'] by (subst f(1)) simp
      then show ?thesis using True by (simp add: readDoorLine_step [OF r])
    next
      case False
      then have "fst (readDoorLine e (b @ frag) s') = next_line e (b @ frag) s'" using "1.IH" r Full by force
      moreover have "next_line e b s = next_line e (b @ frag) s'" using False next_line_full [OF f(2), of b e s'] by (subst f(1)) simp
      ultimately show ?thesis using False by (simp add: readDoorLine_step [OF r] Full)
    qed
  next
    case Found
    then have "length (takeWhile (\<lambda>c. c \<noteq> nl) s) < length s" "frag = takeWhile (\<lambda>c. c \<noteq> nl) s @ [nl]"
      using r by (auto simp: ReadSlice_def Let_def split: if_splits)
    then show ?thesis by (auto simp: readDoorLine_step [OF r] Found next_line_def Let_def)
  next
    case Ended
    then have "\<not> length (takeWhile (\<lambda>c. c \<noteq> nl) s) < length s" "frag = s"
      using r length_takeWhile_le [of "\<lambda>c. c \<noteq> nl" s] by (auto simp: ReadSlice_def Let_def split: if_splits)
    then show ?thesis by (cases e) (auto simp: readDoorLine_step [OF r] Ended next_line_def Let_def)
  qed
qed

lemma readDoorLine_rest: "readDoorLine e b s = (Inr l, s') \<Longrightarrow> nl \<in> set s \<Longrightarrow> s' = after_line s"
proof (induction e b s rule: readDoorLine.induct)
  case (1 e b s)
  obtain frag how s1 where r: "ReadSlice s = (frag, how, s1)" by (metis prod_cases3)
  show ?case
  proof (cases how)
    case Full
    note f = line_full [OF r [unfolded Full]]
    have "readDoorLine e (b @ frag) s1 = (Inr l, s')" "\<not> length (b @ frag) > inboxMaxLine + 2"
      using "1.prems"(1) by (auto simp: readDoorLine_step [OF r] Full split: if_splits)
    moreover have "nl \<in> set s1" using "1.prems"(2) f by auto
    ultimately have "s' = after_line s1" using "1.IH" r Full by force
    then show ?thesis using f by (simp add: after_line_def takeWhile_after)
  next
    case Found
    then have "s1 = after_line s" using r by (auto simp: ReadSlice_def Let_def after_line_def split: if_splits)
    then show ?thesis using "1.prems"(1) by (auto simp: readDoorLine_step [OF r] Found split: if_splits)
  next
    case Ended
    then have "\<not> length (takeWhile (\<lambda>c. c \<noteq> nl) s) < length s"
      using r by (auto simp: ReadSlice_def Let_def split: if_splits)
    then have "takeWhile (\<lambda>c. c \<noteq> nl) s = s" by (rule whole_line)
    then have "nl \<notin> set s" by (metis set_takeWhileD)
    then show ?thesis using "1.prems"(2) by simp
  qed
qed

text \<open>
  C37. However a stream is cut into buffers, the door reads the line that was sent, its line break included, or the rest where the
  sender closed after it, and goes on right behind it; a line past the limit is refused as too long, and a broken
  connection brings no line. The reading always ends.
\<close>

theorem readDoorLine_exact:
  "fst (readDoorLine e [] s) = next_line e [] s \<and> (nl \<in> set s \<and> fst (readDoorLine e [] s) = Inr l \<longrightarrow> snd (readDoorLine e [] s) = after_line s)"
  using readDoorLine_next [of e "[]" s] readDoorLine_rest [of e "[]" s] by (metis prod.collapse)

theorem readDoorLine_exact_witness:
  "fst (readDoorLine Broken [] (''ab'' @ [nl] @ ''c'')) = Inr (''ab'' @ [nl]) \<and> snd (readDoorLine Broken [] (''ab'' @ [nl] @ ''c'')) = ''c''"
  using readDoorLine_exact [of Broken "''ab'' @ [nl] @ ''c''" "''ab'' @ [nl]"] by (simp add: next_line_def after_line_def inboxMaxLine_def nl_def)

section \<open>Bounds\<close>

definition door_ok :: "(string \<Rightarrow> string) \<Rightarrow> door \<Rightarrow> bool" where
  "door_ok sha d \<longleftrightarrow> length (inbox d) \<le> inboxMaxLines \<and> inboxBytes d = sum_list (map length (inbox d)) \<and> inboxBytes d \<le> inboxMaxBytes \<and>
     distinct (inbox d) \<and> inboxRecent d = sha ` set (inbox d) \<and> inboxSlots d \<le> inboxMaxConns"

text \<open>The budget is a bucket that was full when the process began, at \<open>t0\<close>.\<close>

definition door_budget :: "nanos \<Rightarrow> door \<Rightarrow> bucket" where
  "door_budget t0 d = \<lparr>tokens = inboxTokens d, bmax = inboxBurst, perSec = inboxPerSec, blast = (if inboxFilled d = time_zero then t0 else inboxFilled d)\<rparr>"

definition door_budget_ok :: "nanos \<Rightarrow> door \<Rightarrow> bool" where
  "door_budget_ok t0 d \<longleftrightarrow> time_zero < t0 \<and> (if inboxFilled d = time_zero then inboxTokens d = inboxBurst else t0 \<le> inboxFilled d)"

lemma budget_refines:
  assumes "door_budget_ok t0 d" and "t0 \<le> now"
  shows "fst (inboxBudgetTake now d) = fst (take1 (door_budget t0 d) now)" and "door_budget t0 (snd (inboxBudgetTake now d)) = snd (take1 (door_budget t0 d) now)"
    and "door_budget_ok t0 (snd (inboxBudgetTake now d))"
proof -
  let ?full = "let t = inboxTokens d + seconds (now - inboxFilled d) * inboxPerSec in if t > inboxBurst then inboxBurst else t"
  define v where "v = (if inboxFilled d = time_zero then inboxTokens d else ?full)"
  have nz: "now \<noteq> time_zero" "time_zero < t0" using assms by (auto simp: door_budget_ok_def)
  have "0 \<le> seconds (now - t0) * inboxPerSec" using assms(2) by (simp add: inboxPerSec_def)
  then have "tokens (refill (door_budget t0 d) now) = v" using assms(1) by (simp add: refill_def door_budget_def door_budget_ok_def Let_def v_def)
  then have re: "refill (door_budget t0 d) now = \<lparr>tokens = v, bmax = inboxBurst, perSec = inboxPerSec, blast = now\<rparr>"
    by (simp add: refill_def door_budget_def Let_def)
  have take: "inboxBudgetTake now d = (if v < 1 then (False, d\<lparr>inboxTokens := v, inboxFilled := now\<rparr>) else (True, d\<lparr>inboxTokens := v - 1, inboxFilled := now\<rparr>))"
    by (simp add: inboxBudgetTake_def v_def Let_def)
  show "fst (inboxBudgetTake now d) = fst (take1 (door_budget t0 d) now)"
    unfolding take take1_def takeN_def re by simp
  show "door_budget t0 (snd (inboxBudgetTake now d)) = snd (take1 (door_budget t0 d) now)"
    unfolding take take1_def takeN_def re using nz by (simp add: door_budget_def)
  show "door_budget_ok t0 (snd (inboxBudgetTake now d))"
    unfolding take using nz assms(2) by (simp add: door_budget_ok_def)
qed

lemma budgetTake_frame [simp]: "inbox (snd (inboxBudgetTake now d)) = inbox d" "inboxBytes (snd (inboxBudgetTake now d)) = inboxBytes d"
  "inboxRecent (snd (inboxBudgetTake now d)) = inboxRecent d" "inboxSlots (snd (inboxBudgetTake now d)) = inboxSlots d"
  by (simp_all add: inboxBudgetTake_def Let_def)

lemma put_cases:
  assumes "inboxPut sha now line d = (ok, d')"
  obtains (refused) "\<not> ok" "d' = d" | (dry) "\<not> ok" "inboxBudgetTake now d = (False, d')"
  | (queued) d1 where "ok" "inboxBudgetTake now d = (True, d1)" "sha line \<notin> inboxRecent d" "length (inbox d) < inboxMaxLines"
      "inboxBytes d + length line \<le> inboxMaxBytes"
      "d' = d1\<lparr>inbox := inbox d1 @ [line], inboxBytes := inboxBytes d1 + length line, inboxRecent := insert (sha line) (inboxRecent d1)\<rparr>"
proof -
  obtain ok1 d1 where b: "inboxBudgetTake now d = (ok1, d1)" by force
  consider "sha line \<in> inboxRecent d \<or> length (inbox d) \<ge> inboxMaxLines \<or> inboxBytes d + length line > inboxMaxBytes"
    | "sha line \<notin> inboxRecent d" "length (inbox d) < inboxMaxLines" "inboxBytes d + length line \<le> inboxMaxBytes" by linarith
  then show ?thesis
  proof cases
    case 1
    then have "(ok, d') = (False, d)" using assms by (simp add: inboxPut_def Let_def split: if_splits)
    then show ?thesis using refused by simp
  next
    case 2
    then have "(ok, d') = (if \<not> ok1 then (False, d1) else
        (True, d1\<lparr>inbox := inbox d1 @ [line], inboxBytes := inboxBytes d1 + length line, inboxRecent := insert (sha line) (inboxRecent d1)\<rparr>))"
      using assms by (simp add: inboxPut_def Let_def b)
    then show ?thesis using dry queued 2 b by (cases ok1) simp_all
  qed
qed

lemma put_ok:
  assumes "door_ok sha d" and "inboxPut sha now line d = (ok, d')"
  shows "door_ok sha d'"
  using assms(2)
proof (cases rule: put_cases)
  case dry
  then have "d' = snd (inboxBudgetTake now d)" by simp
  then show ?thesis using assms(1) by (simp add: door_ok_def)
next
  case (queued d1)
  have "inbox d1 = inbox d" "inboxBytes d1 = inboxBytes d" "inboxRecent d1 = inboxRecent d" "inboxSlots d1 = inboxSlots d"
    using budgetTake_frame [of now d] by (simp_all add: queued(2))
  then show ?thesis using assms(1) queued by (auto simp: door_ok_def)
qed (use assms(1) in simp)

text \<open>
  Every order of lines from any number of connections, drains, connections that come and go; \<open>n\<close> counts the lines taken up to \<open>t\<close>.
\<close>

inductive door_run :: "(string \<Rightarrow> string) \<Rightarrow> nanos \<Rightarrow> door \<Rightarrow> nat \<Rightarrow> nanos \<Rightarrow> bool" for sha t0 where
  start: "time_zero < t0 \<Longrightarrow> door_run sha t0 new_door 0 t0"
| put: "door_run sha t0 d n t \<Longrightarrow> t \<le> now \<Longrightarrow> inboxPut sha now line d = (ok, d') \<Longrightarrow> door_run sha t0 d' (if ok then n + 1 else n) now"
| drain: "door_run sha t0 d n t \<Longrightarrow> HaloDrainInbox d = (out, d') \<Longrightarrow> door_run sha t0 d' n t"
| comes: "door_run sha t0 d n t \<Longrightarrow> take_slot d = (ok, d') \<Longrightarrow> door_run sha t0 d' n t"
| goes: "door_run sha t0 d n t \<Longrightarrow> door_run sha t0 (free_slot d) n t"

lemma run_door_ok: "door_run sha t0 d n t \<Longrightarrow> door_ok sha d"
proof (induction rule: door_run.induct)
  case (put d n t now line ok d')
  then show ?case using put_ok by blast
qed (auto simp: new_door_def door_ok_def HaloDrainInbox_def inboxDrained_def take_slot_def free_slot_def split: if_splits)

lemma budget_frame: "inboxTokens d' = inboxTokens d \<Longrightarrow> inboxFilled d' = inboxFilled d \<Longrightarrow> door_budget t0 d' = door_budget t0 d \<and> door_budget_ok t0 d' = door_budget_ok t0 d"
  by (simp add: door_budget_def door_budget_ok_def)

definition paced :: "nanos \<Rightarrow> door \<Rightarrow> nat \<Rightarrow> nanos \<Rightarrow> bool" where
  "paced t0 d n t \<longleftrightarrow> door_budget_ok t0 d \<and> relay_bucket.accounted inboxBurst t0 (of_nat n) (door_budget t0 d) \<and> blast (door_budget t0 d) \<le> t \<and> t0 \<le> t"

lemma paced_take:
  assumes "paced t0 d n t" and "t \<le> now"
  shows "paced t0 (snd (inboxBudgetTake now d)) (if fst (inboxBudgetTake now d) then n + 1 else n) now"
proof -
  have b: "door_budget_ok t0 d" "t0 \<le> now" and le: "blast (door_budget t0 d) \<le> now"
    and acc: "relay_bucket.accounted inboxBurst t0 (of_nat n) (door_budget t0 d)" using assms by (auto simp: paced_def)
  note r = budget_refines [OF b]
  have "relay_bucket.accounted inboxBurst t0 (of_nat (if fst (inboxBudgetTake now d) then n + 1 else n)) (door_budget t0 (snd (inboxBudgetTake now d)))"
    using relay_bucket.accounted_ask [OF acc le, of 1] unfolding r(1,2) take1_def by (auto simp: add.commute split: if_splits)
  then show ?thesis using b r(2,3) by (simp add: paced_def take1_def)
qed

lemma paced_frame: "paced t0 d n t \<Longrightarrow> t \<le> t' \<Longrightarrow> inboxTokens d' = inboxTokens d \<Longrightarrow> inboxFilled d' = inboxFilled d \<Longrightarrow> paced t0 d' n t'"
  using budget_frame [of d' d t0] by (auto simp: paced_def)

lemma run_paced: "door_run sha t0 d n t \<Longrightarrow> paced t0 d n t"
proof (induction rule: door_run.induct)
  case start
  then show ?case
    by (simp add: paced_def door_budget_ok_def door_budget_def new_door_def relay_bucket.accounted_def bucket_ok_def inboxBurst_def inboxPerSec_def)
next
  case (put d n t now line ok d')
  from put(3) show ?case
  proof (cases rule: put_cases)
    case refused
    then show ?thesis using paced_frame [OF put.IH put(2)] by simp
  next
    case dry
    then show ?thesis using paced_take [OF put.IH put(2)] by simp
  next
    case (queued d1)
    then show ?thesis using paced_frame [OF paced_take [OF put.IH put(2)] order_refl, of d'] by simp
  qed
qed (erule paced_frame, auto simp: HaloDrainInbox_def inboxDrained_def take_slot_def free_slot_def split: if_splits)+

text \<open>
  C38. Whatever comes to the onion door, in every order of lines, drains and connections, no more than 256 different lines and four
  megabytes wait, no more than eight connections are served, and the lines taken since the process began are at most 256 and two for every
  second.
\<close>

theorem door_bounded:
  assumes "door_run sha t0 d n t"
  shows "length (inbox d) \<le> 256 \<and> distinct (inbox d) \<and> sum_list (map length (inbox d)) \<le> 4194304 \<and> inboxSlots d \<le> 8 \<and>
    of_nat n \<le> 256 + 2 * seconds (t - t0)"
proof -
  have "paced t0 d n t" by (rule run_paced [OF assms])
  then have "of_nat n \<le> inboxBurst + seconds (t - t0) * perSec (door_budget t0 d)" using relay_bucket.accounted_bound by (auto simp: paced_def)
  then show ?thesis using run_door_ok [OF assms]
    by (auto simp: door_ok_def inboxMaxLines_def inboxMaxBytes_def inboxMaxConns_def door_budget_def inboxBurst_def inboxPerSec_def mult.commute)
qed

theorem door_bounded_witness:
  "\<exists>d. door_run (\<lambda>s. s) 0 d 1 second \<and> inbox d = [''AgAA''] \<and> (1 :: rat) \<le> 256 + 2 * seconds second"
proof -
  have put: "inboxPut (\<lambda>s. s) second ''AgAA'' new_door = (True, new_door\<lparr>inbox := [''AgAA''], inboxBytes := 4, inboxRecent := {''AgAA''}, inboxTokens := 255,
      inboxFilled := second\<rparr>)"
    by (simp add: inboxPut_def inboxBudgetTake_def new_door_def Let_def inboxBurst_def inboxMaxLines_def inboxMaxBytes_def)
  have "door_run (\<lambda>s. s) 0 new_door 0 0" by (rule door_run.start) (simp add: time_zero_def duration_defs)
  from door_run.put [OF this _ put] have r: "door_run (\<lambda>s. s) 0 (new_door\<lparr>inbox := [''AgAA''], inboxBytes := 4, inboxRecent := {''AgAA''}, inboxTokens := 255,
      inboxFilled := second\<rparr>) 1 second" by (simp add: duration_defs)
  show ?thesis using r door_bounded [OF r] by auto
qed

section \<open>Acks\<close>

lemma put_queues: "inboxPut sha now line d = (True, d') \<Longrightarrow> inbox d' = inbox d @ [line]"
proof (erule put_cases)
  fix d1
  assume "inboxBudgetTake now d = (True, d1)"
    and d': "d' = d1\<lparr>inbox := inbox d1 @ [line], inboxBytes := inboxBytes d1 + length line, inboxRecent := insert (sha line) (inboxRecent d1)\<rparr>"
  then have "inbox d1 = inbox d" using budgetTake_frame(1) [of now d] by simp
  then show "inbox d' = inbox d @ [line]" by (simp add: d')
qed simp_all

lemma put_refuses: "inboxPut sha now line d = (False, d') \<Longrightarrow> inbox d' = inbox d"
  using budgetTake_frame(1) [of now d] by (elim put_cases) simp_all

lemma conn_lines_queued:
  "conn_lines sha clock wrote e left n s d = (acked, d') \<Longrightarrow>
     length acked \<le> left \<and> (\<exists>rest. inbox d' = inbox d @ acked @ rest \<and> length rest \<le> 1 \<and> (\<forall>l \<in> set (acked @ rest). inboxShapeOK l))"
proof (induction left arbitrary: n s d acked d')
  case (Suc left)
  obtain r s' where rd: "readDoorLine e [] s = (r, s')" by force
  show ?case
  proof (cases r)
    case (Inl err)
    then show ?thesis using Suc.prems rd by simp
  next
    case (Inr raw)
    let ?line = "TrimSpaceU raw"
    obtain ok d1 where p: "inboxPut sha (clock n) ?line d = (ok, d1)" by force
    obtain acked1 d2 where c: "conn_lines sha clock wrote e left (n + 1) s' d1 = (acked1, d2)" by force
    have res: "(acked, d') = (if \<not> inboxShapeOK ?line then ([], d) else if \<not> ok then ([], d1) else if \<not> wrote n then ([], d1) else (?line # acked1, d2))"
      using Suc.prems unfolding conn_lines.simps rd Inr prod.case sum.case Let_def p c by simp
    consider "\<not> inboxShapeOK ?line" | "inboxShapeOK ?line" "\<not> ok" | "inboxShapeOK ?line" ok "\<not> wrote n" | "inboxShapeOK ?line" ok "wrote n" by blast
    then show ?thesis
    proof cases
      case 2
      then show ?thesis using res p put_refuses by auto
    next
      case 3
      then have "inbox d' = inbox d @ [] @ [?line]" using res p put_queues by auto
      then show ?thesis using 3 res by (intro conjI exI [of _ "[?line]"]) auto
    next
      case 4
      have q: "inbox d1 = inbox d @ [?line]" using p 4(2) put_queues by auto
      have r4: "acked = ?line # acked1" "d' = d2" using res 4 by simp_all
      obtain rest where "inbox d2 = inbox d1 @ acked1 @ rest" "length rest \<le> 1" "\<forall>l \<in> set (acked1 @ rest). inboxShapeOK l" "length acked1 \<le> left"
        using Suc.IH [OF c] by blast
      then show ?thesis using q r4 4(1) by (intro conjI exI [of _ rest]) auto
    qed (use res in auto)
  qed
qed simp


lemma conn_lines_run:
  "door_run sha t0 d n t \<Longrightarrow> mono clock \<Longrightarrow> t \<le> clock k \<Longrightarrow> \<exists>n' t'. door_run sha t0 (snd (conn_lines sha clock wrote e left k s d)) n' t'"
proof (induction left arbitrary: k s d n t)
  case (Suc left)
  obtain r s' where rd: "readDoorLine e [] s = (r, s')" by force
  show ?case
  proof (cases r)
    case (Inr raw)
    let ?line = "TrimSpaceU raw"
    obtain ok d1 where p: "inboxPut sha (clock k) ?line d = (ok, d1)" by force
    have run: "door_run sha t0 d1 (if ok then n + 1 else n) (clock k)" using door_run.put [OF Suc.prems(1,3) p] .
    have "clock k \<le> clock (k + 1)" using Suc.prems(2) by (simp add: mono_def)
    from Suc.IH [OF run Suc.prems(2) this, of s'] show ?thesis using run Suc.prems(1) by (auto simp: rd Inr p Let_def split_beta)
  qed (use Suc.prems in \<open>auto simp: rd\<close>)
qed auto

text \<open>A whole connection is part of a run, so the bounds hold through it.\<close>

lemma handleConn_run:
  assumes "door_run sha t0 d n t" and "mono clock" and "t \<le> clock 0"
  shows "\<exists>n' t'. door_run sha t0 (snd (handleConn sha clock wrote e s d)) n' t'"
proof -
  obtain ok d1 where s: "take_slot d = (ok, d1)" by force
  have r: "door_run sha t0 d1 n t" using door_run.comes [OF assms(1) s] .
  obtain n' t' where "door_run sha t0 (snd (conn_lines sha clock wrote e doorLinesPerStream 0 s d1)) n' t'"
    using conn_lines_run [OF r assms(2,3)] by blast
  then have "door_run sha t0 (free_slot (snd (conn_lines sha clock wrote e doorLinesPerStream 0 s d1))) n' t'" by (rule door_run.goes)
  then show ?thesis using r s by (cases ok) (auto simp: handleConn_def split_beta)
qed

lemma example_reads:
  "readDoorLine Eof [] (''AgAAAAAA'' @ [nl] @ ''junk'' @ [nl]) = (Inr (''AgAAAAAA'' @ [nl]), ''junk'' @ [nl])"
  "readDoorLine Eof [] (''junk'' @ [nl]) = (Inr (''junk'' @ [nl]), [])"
proof -
  have 1: "ReadSlice (''AgAAAAAA'' @ [nl] @ ''junk'' @ [nl]) = (''AgAAAAAA'' @ [nl], Found, ''junk'' @ [nl])" and 2: "ReadSlice (''junk'' @ [nl]) = (''junk'' @ [nl], Found, [])"
    by (simp_all add: ReadSlice_def nl_def doorBuffer_def)
  show "readDoorLine Eof [] (''AgAAAAAA'' @ [nl] @ ''junk'' @ [nl]) = (Inr (''AgAAAAAA'' @ [nl]), ''junk'' @ [nl])"
    "readDoorLine Eof [] (''junk'' @ [nl]) = (Inr (''junk'' @ [nl]), [])"
    by (simp_all only: readDoorLine_step [OF 1] readDoorLine_step [OF 2]) (simp_all add: inboxMaxLine_def)
qed

lemma example_trims: "TrimSpaceU (''AgAAAAAA'' @ [nl]) = ''AgAAAAAA''" "TrimSpaceU (''junk'' @ [nl]) = ''junk''"
  using rune_parts_ascii [of "map of_char (''AgAAAAAA'' @ [nl])"] rune_parts_ascii [of "map of_char (''junk'' @ [nl])"]
  by (simp_all add: TrimSpaceU_def bytes_of_def nl_def trim_parts_def IsSpace_def parts_string_def char_of_def bit_0)

lemma example_shapes: "inboxShapeOK ''AgAAAAAA''" "\<not> inboxShapeOK ''junk''"
  by (simp_all add: inboxShapeOK_def inboxMaxLine_def b64_decode_def b64_val_def)


end
