(* ===== verification/Heard.thy ===== *)
theory Heard
  imports Poll
begin

text \<open>
  How far each relay is known to have handed over everything for an address (\<open>engine/heard.go\<close>), the files of an address
  (\<open>addressFiles\<close> and \<open>dropAddressFiles\<close> of \<open>engine/seen.go\<close>) and what a runner reads when it starts (\<open>engine/nostr.go\<close>). \<open>ord\<close> is
  the order a map is gone through in; how a call on a file turns out is an argument.
\<close>

section \<open>State\<close>

record heard =
  heardAt :: "string \<rightharpoonup> int"
  heardSaved :: "string \<rightharpoonup> nanos"

definition heardSaveGap :: nanos where "heardSaveGap = minute"
definition heardSaveStep :: nanos where "heardSaveStep = 15 * minute"

definition millisecond :: nanos where "millisecond = 10 ^ 6"

definition UnixMilli :: "nanos \<Rightarrow> int" where "UnixMilli t = t div millisecond"

definition catchupKey :: "string \<Rightarrow> string \<Rightarrow> string" where
  "catchupKey u rcvPk = u @ '' '' @ rcvPk"

section \<open>The files of an address\<close>

definition short_pk :: "string \<Rightarrow> string" where
  "short_pk pk = (if length pk > 16 then take 16 pk else pk)"

definition heardFile :: "string \<Rightarrow> string \<Rightarrow> string" where
  "heardFile dir pk = (if dir = [] then [] else dir @ ''/nostr_heard_'' @ short_pk pk)"

definition addressFiles :: "string \<Rightarrow> string \<Rightarrow> string \<times> string" where
  "addressFiles dir pk = (if dir = [] then ([], []) else (dir @ ''/nostr_seen_'' @ short_pk pk, dir @ ''/nostr_last_'' @ short_pk pk))"

definition address_paths :: "string \<Rightarrow> string \<Rightarrow> string list" where
  "address_paths dir pk =
     (let (seenPath, lastPath) = addressFiles dir pk in [seenPath, seenPath @ ''.tmp'', lastPath, heardFile dir pk, heardFile dir pk @ ''.tmp''])"

section \<open>What was heard\<close>

definition heardOf :: "string \<Rightarrow> heard \<Rightarrow> int" where
  "heardOf k h = (case heardAt h k of Some v \<Rightarrow> v | None \<Rightarrow> 0)"

text \<open>A text cut at its last space.\<close>

definition cut_last :: "string \<Rightarrow> (string \<times> string) option" where
  "cut_last s =
     (case dropWhile (\<lambda>c. c \<noteq> CHR '' '') (rev s) of [] \<Rightarrow> None | _ # r \<Rightarrow> Some (rev r, rev (takeWhile (\<lambda>c. c \<noteq> CHR '' '') (rev s))))"

definition heard_line :: "string \<Rightarrow> heard \<Rightarrow> string \<Rightarrow> heard" where
  "heard_line pk h line =
     (case cut_last line of
        None \<Rightarrow> h
      | Some (relay, num) \<Rightarrow>
          if relay = [] then h
          else case ParseInt num of
            None \<Rightarrow> h
          | Some v \<Rightarrow> let k = catchupKey relay pk in if v \<le> 0 then h else if v > heardOf k h then h\<lparr>heardAt := (heardAt h)(k \<mapsto> v)\<rparr> else h)"

text \<open>\<open>rd\<close> says whether the file can be read.\<close>

definition loadHeard :: "bool \<Rightarrow> string \<Rightarrow> string \<Rightarrow> world \<Rightarrow> heard \<Rightarrow> heard" where
  "loadHeard rd dir pk w h =
     (let p = heardFile dir pk
      in if p = [] then h
         else case w_files w p of
           None \<Rightarrow> h
         | Some b \<Rightarrow> if \<not> rd then h else foldl (heard_line pk) h (split_at (CHR 0x0A) b))"

definition cut_suffix :: "string \<Rightarrow> string \<Rightarrow> string option" where
  "cut_suffix s suf = (if has_suffix s suf then Some (take (length s - length suf) s) else None)"

definition heard_text :: "string \<Rightarrow> string set \<Rightarrow> heard \<Rightarrow> string list \<Rightarrow> string list" where
  "heard_text pk listed h ks =
     (let step = heardSaveStep div millisecond
      in concat (map (\<lambda>k. case (heardAt h k, cut_suffix k ('' '' @ pk)) of
           (Some v, Some relay) \<Rightarrow> if relay \<in> listed then [relay @ '' '' @ Itoa (v div step * step)] else []
         | _ \<Rightarrow> []) ks))"

text \<open>
  \<open>noteHeard\<close>: \<open>stopped\<close> and \<open>stopped'\<close> say whether the runner's context is done when it begins and when it writes, \<open>written\<close> whether
  the new file was written and put in place.
\<close>

definition noteHeard ::
  "((string \<rightharpoonup> int) \<Rightarrow> string list) \<Rightarrow> bool \<Rightarrow> bool \<Rightarrow> bool \<Rightarrow> string \<Rightarrow> string set \<Rightarrow> string \<Rightarrow> string \<Rightarrow> nanos \<Rightarrow> bool \<Rightarrow> heard \<Rightarrow> world \<Rightarrow> heard \<times> world" where
  "noteHeard ord stopped stopped' written dir listed u pk t now h w =
     (if stopped then (h, w)
      else let ms = UnixMilli t; k = catchupKey u pk
           in if ms \<le> heardOf k h then (h, w)
              else let h = h\<lparr>heardAt := (heardAt h)(k \<mapsto> ms)\<rparr>; p = heardFile dir pk;
                       saved = (case heardSaved h pk of Some s \<Rightarrow> s | None \<Rightarrow> time_zero)
                   in if p = [] \<or> (\<not> now \<and> t - saved < heardSaveGap) then (h, w)
                      else let h = h\<lparr>heardSaved := (heardSaved h)(pk \<mapsto> t)\<rparr>; ls = heard_text pk listed h (ord (heardAt h))
                           in if engineHeld w then (h, w)
                              else if fileGone p w \<or> stopped' then (h, w)
                              else if \<not> written then (h, w)
                              else (h, w\<lparr>w_files := (w_files w)(p \<mapsto> Join_nl ls @ [CHR 0x0A])\<rparr>))"

definition dropHeard :: "string \<Rightarrow> heard \<Rightarrow> heard" where
  "dropHeard pk h = \<lparr>heardAt = (\<lambda>k. if has_suffix k ('' '' @ pk) then None else heardAt h k), heardSaved = (heardSaved h)(pk := None)\<rparr>"

text \<open>\<open>removed p\<close>: whether the file at \<open>p\<close> could be removed.\<close>

definition dropAddressFiles :: "(string \<Rightarrow> bool) \<Rightarrow> string \<Rightarrow> string \<Rightarrow> heard \<Rightarrow> world \<Rightarrow> heard \<times> world" where
  "dropAddressFiles removed dir pk h w =
     (let h = dropHeard pk h
      in if fst (addressFiles dir pk) = [] then (h, w)
         else (h, foldl (\<lambda>w p. w\<lparr>goneFiles := insert p (goneFiles w), w_files := (if removed p then (w_files w)(p := None) else w_files w)\<rparr>)
                 w (address_paths dir pk)))"

section \<open>A runner starts\<close>

text \<open>Our relay's entries in a list: the first, and any on its own name, which \<open>on_name\<close> says of a url.\<close>

fun ownRelays :: "(string \<Rightarrow> bool) \<Rightarrow> string list \<Rightarrow> string list" where
  "ownRelays on_name [] = []"
| "ownRelays on_name (u # us) = u # filter on_name us"

definition ownCatchupKeys :: "(string \<Rightarrow> bool) \<Rightarrow> string list \<Rightarrow> string \<Rightarrow> string list" where
  "ownCatchupKeys on_name urls pk = map (\<lambda>u. catchupKey u pk) (ownRelays on_name urls)"

text \<open>
  What a runner on an address does before it dials: its files count again, what was heard, the anchor and the ids are read, and our
  relay's debts hold from the anchor. \<open>rd p\<close> says whether the file at \<open>p\<close> can be read; \<open>q\<close> and \<open>r\<close> are the numbers of its set and
  its anchor, \<open>urls\<close> the relay list it keeps.
\<close>

definition start_runner ::
  "iter \<Rightarrow> (string \<Rightarrow> bool) \<Rightarrow> nanos \<Rightarrow> seen_io \<Rightarrow> (string \<Rightarrow> bool) \<Rightarrow> string list \<Rightarrow> string \<Rightarrow> string \<Rightarrow> nat \<Rightarrow> nat \<Rightarrow> heard \<Rightarrow> rx \<Rightarrow> heard \<times> rx" where
  "start_runner ord rd now io on_name urls dir pk q r h x =
     (let own = ownCatchupKeys on_name urls pk; (seenPath, lastPath) = addressFiles dir pk; w = x_world x;
          w = (if dir = [] then w else w\<lparr>goneFiles := goneFiles w - set (address_paths dir pk)\<rparr>);
          h = (if dir = [] then h else loadHeard (rd (heardFile dir pk)) dir pk w h);
          (saved, disk) = (if dir = [] then (0, - 1) else read_anchor now (if rd lastPath then w_files w lastPath else None));
          b = Book_Start (x_book x) own saved (to_unix now);
          (s, w) = loadSeen ord (rd seenPath) now io seenPath w;
          w = seenWhileRunning q s w
      in (h, x\<lparr>x_world := w, x_book := b, x_sets := (x_sets x)(q := s),
                x_anchors := (x_anchors x)(r := \<lparr>n_set = q, n_keys = own, n_path = lastPath, lastSaved = saved, lastOnDisk = disk\<rparr>)\<rparr>))"

end
