(* ===== verification/Heard_Rules.thy ===== *)
theory Heard_Rules
  imports Heard Seen_File
begin

text \<open>
  What the files of an address promise (\<open>engine/heard.go\<close>, \<open>engine/seen.go\<close>): after a restart what was heard is what was heard
  before, rounded down to a quarter hour and never more; and the files of an address that was let go of do not come back.
\<close>

section \<open>Reading back\<close>

lemma cut_last_word: "CHR '' '' \<notin> set num \<Longrightarrow> cut_last (relay @ CHR '' '' # num) = Some (relay, num)"
proof -
  assume "CHR '' '' \<notin> set num"
  then have n: "\<And>x. x \<in> set (rev num) \<Longrightarrow> x \<noteq> CHR '' ''" by auto
  have "dropWhile (\<lambda>c. c \<noteq> CHR '' '') (rev num @ CHR '' '' # rev relay) = CHR '' '' # rev relay"
    using dropWhile_append2 [of "rev num" "\<lambda>c. c \<noteq> CHR '' ''", OF n] by simp
  moreover have "takeWhile (\<lambda>c. c \<noteq> CHR '' '') (rev num @ CHR '' '' # rev relay) = rev num"
    using takeWhile_append2 [of "rev num" "\<lambda>c. c \<noteq> CHR '' ''", OF n] by simp
  ultimately show ?thesis by (simp add: cut_last_def)
qed

lemma Itoa_plain: "CHR '' '' \<notin> set (Itoa v)" "CHR 0x0A \<notin> set (Itoa v)"
  using Itoa_word [of v] by (auto simp: word_text_def list_all_iff IsSpace_def)

lemma heard_line_read:
  assumes "relay \<noteq> []" and "int64 v"
  shows "heardOf k (heard_line pk h (relay @ CHR '' '' # Itoa v)) = (if k = catchupKey relay pk then max (heardOf k h) v else heardOf k h) \<or>
    k = catchupKey relay pk \<and> v \<le> 0 \<and> heardOf k (heard_line pk h (relay @ CHR '' '' # Itoa v)) = heardOf k h"
  using assms cut_last_word [OF Itoa_plain(1), of relay v] by (auto simp: heard_line_def ParseInt_Itoa int64_def heardOf_def Let_def)

definition heard_ok :: "heard \<Rightarrow> bool" where
  "heard_ok h \<longleftrightarrow> (\<forall>k v. heardAt h k = Some v \<longrightarrow> 0 < v \<and> v < 2 ^ 63)"

lemma heardOf_nonneg: "heard_ok h \<Longrightarrow> 0 \<le> heardOf k h"
  by (fastforce simp: heard_ok_def heardOf_def intro: less_imp_le split: option.split)

lemma heard_line_reads:
  assumes "relay \<noteq> []" and "0 \<le> v" and "v < 2 ^ 63" and "0 \<le> heardOf (catchupKey relay pk) h"
  shows "heardOf k (heard_line pk h (relay @ CHR '' '' # Itoa v)) = (if k = catchupKey relay pk then max (heardOf k h) v else heardOf k h)"
  using heard_line_read [of relay v k pk h] assms by (auto simp: int64_def)

lemma catchupKey_inj: "catchupKey u pk = catchupKey u' pk \<longleftrightarrow> u = u'"
  by (simp add: catchupKey_def)

text \<open>A list of relays and numbers, read line by line.\<close>

definition heard_written :: "(string \<times> int) list \<Rightarrow> string list" where
  "heard_written rs = map (\<lambda>(relay, v). relay @ '' '' @ Itoa v) rs"

lemma heard_lines_read:
  assumes "\<forall>(relay, v) \<in> set rs. relay \<noteq> [] \<and> 0 \<le> v \<and> v < 2 ^ 63" and "distinct (map fst rs)" and "\<And>k. 0 \<le> heardOf k h"
  shows "heardOf k (foldl (heard_line pk) h (heard_written rs)) =
    (case map_of (map (\<lambda>(relay, v). (catchupKey relay pk, v)) rs) k of Some v \<Rightarrow> max (heardOf k h) v | None \<Rightarrow> heardOf k h)"
  using assms
proof (induction rs arbitrary: h)
  case (Cons r rs)
  obtain relay v where r: "r = (relay, v)" by force
  let ?h = "heard_line pk h (relay @ CHR '' '' # Itoa v)"
  have step: "heardOf k ?h = (if k = catchupKey relay pk then max (heardOf k h) v else heardOf k h)" for k
    using Cons.prems(1,3) by (intro heard_line_reads) (auto simp: r)
  have "0 \<le> heardOf k ?h" for k using Cons.prems(3) [of k] by (auto simp: step)
  then have ih: "heardOf k (foldl (heard_line pk) ?h (heard_written rs)) =
      (case map_of (map (\<lambda>(relay, v). (catchupKey relay pk, v)) rs) k of Some v \<Rightarrow> max (heardOf k ?h) v | None \<Rightarrow> heardOf k ?h)"
    using Cons.prems by (intro Cons.IH) auto
  have none: "map_of (map (\<lambda>(relay, v). (catchupKey relay pk, v)) rs) (catchupKey relay pk) = None"
    using Cons.prems(2) by (force simp: r map_of_eq_None_iff catchupKey_inj)
  show ?case using ih none by (auto simp: r heard_written_def step split: option.splits)
qed (simp add: heard_written_def)

section \<open>A restart\<close>

definition rounded :: "int \<Rightarrow> int" where
  "rounded v = v div 900000 * 900000"

lemma rounded_range: "0 \<le> v \<Longrightarrow> v < 2 ^ 63 \<Longrightarrow> 0 \<le> rounded v \<and> rounded v < 2 ^ 63" "rounded v \<le> v" "v < rounded v + 900000"
  by (auto simp: rounded_def)

definition heard_entry :: "string \<Rightarrow> string set \<Rightarrow> heard \<Rightarrow> string \<Rightarrow> (string \<times> int) list" where
  "heard_entry pk listed h k =
     (case (heardAt h k, cut_suffix k ('' '' @ pk)) of (Some v, Some relay) \<Rightarrow> if relay \<in> listed then [(relay, rounded v)] else [] | _ \<Rightarrow> [])"

lemma heard_text_written: "heard_text pk listed h ks = heard_written (concat (map (heard_entry pk listed h) ks))"
  by (induction ks) (auto simp: heard_text_def heard_written_def heard_entry_def rounded_def heardSaveStep_def millisecond_def duration_defs Let_def
      split: option.split)

lemma cut_suffix_key: "cut_suffix k ('' '' @ pk) = Some relay \<longleftrightarrow> k = catchupKey relay pk"
proof
  assume "cut_suffix k ('' '' @ pk) = Some relay"
  then have "suffix ('' '' @ pk) k" and r: "relay = take (length k - length ('' '' @ pk)) k"
    unfolding cut_suffix_def has_suffix_def by (metis option.distinct(1), metis option.distinct(1) option.inject)
  then obtain u where "k = u @ '' '' @ pk" unfolding suffix_def by blast
  then show "k = catchupKey relay pk" unfolding r catchupKey_def by simp
next
  assume "k = catchupKey relay pk"
  then have k: "k = relay @ ('' '' @ pk)" by (simp only: catchupKey_def)
  then have "has_suffix k ('' '' @ pk)" unfolding has_suffix_def suffix_def by blast
  moreover have "take (length k - length ('' '' @ pk)) k = relay" unfolding k by simp
  ultimately show "cut_suffix k ('' '' @ pk) = Some relay" unfolding cut_suffix_def by simp
qed

lemma heard_entry_iff:
  "(relay, n) \<in> set (heard_entry pk listed h k) \<longleftrightarrow> k = catchupKey relay pk \<and> relay \<in> listed \<and> (\<exists>v. heardAt h k = Some v \<and> n = rounded v)"
  unfolding cut_suffix_key [symmetric] heard_entry_def by (cases "heardAt h k"; cases "cut_suffix k ('' '' @ pk)") auto

lemma heard_entries:
  assumes "distinct ks" and "set ks = dom (heardAt h)"
  shows "(relay, n) \<in> set (concat (map (heard_entry pk listed h) ks)) \<longleftrightarrow> relay \<in> listed \<and> (\<exists>v. heardAt h (catchupKey relay pk) = Some v \<and> n = rounded v)"
    and "distinct (map fst (concat (map (heard_entry pk listed h) ks)))"
proof -
  show "(relay, n) \<in> set (concat (map (heard_entry pk listed h) ks)) \<longleftrightarrow> relay \<in> listed \<and> (\<exists>v. heardAt h (catchupKey relay pk) = Some v \<and> n = rounded v)"
    using assms(2) by (auto simp: heard_entry_iff)
  show "distinct (map fst (concat (map (heard_entry pk listed h) ks)))"
    using assms(1)
  proof (induction ks)
    case (Cons k ks)
    have "distinct (map fst (heard_entry pk listed h k))" by (simp add: heard_entry_def split: option.split)
    moreover have "fst ` set (heard_entry pk listed h k) \<inter> fst ` set (concat (map (heard_entry pk listed h) ks)) = {}"
      using Cons.prems heard_entry_iff by (fastforce simp: disjoint_iff)
    ultimately show ?case using Cons by simp
  qed simp
qed

definition nothing_heard :: heard where
  "nothing_heard = \<lparr>heardAt = Map.empty, heardSaved = Map.empty\<rparr>"

lemma heard_file_read:
  assumes "\<forall>(relay, v) \<in> set rs. relay \<noteq> [] \<and> CHR 0x0A \<notin> set relay \<and> 0 \<le> v \<and> v < 2 ^ 63" and "distinct (map fst rs)"
  shows "heardOf k (foldl (heard_line pk) nothing_heard (split_at (CHR 0x0A) (Join_nl (heard_written rs) @ [CHR 0x0A]))) =
    (case map_of (map (\<lambda>(relay, v). (catchupKey relay pk, v)) rs) k of Some v \<Rightarrow> v | None \<Rightarrow> 0)"
proof -
  have empty: "heard_line pk h [] = h" for h by (simp add: heard_line_def cut_last_def)
  have "list_all (\<lambda>l. CHR 0x0A \<notin> set l) (heard_written rs)" using assms(1) Itoa_plain(2) by (auto simp: heard_written_def list_all_iff)
  then have "foldl (heard_line pk) nothing_heard (split_at (CHR 0x0A) (Join_nl (heard_written rs) @ [CHR 0x0A])) =
      foldl (heard_line pk) nothing_heard (heard_written rs)"
    using split_join [of "heard_written rs" "[]"] by (cases "heard_written rs = []") (simp_all add: empty)
  moreover have "heardOf k nothing_heard = 0" for k by (simp add: nothing_heard_def heardOf_def)
  moreover have "\<forall>(relay, v) \<in> set rs. 0 \<le> v" using assms(1) by auto
  ultimately show ?thesis using heard_lines_read [of rs nothing_heard k pk] assms
    by (auto simp: split_beta split: option.splits dest!: map_of_SomeD) (metis max_absorb2 snd_conv)
qed

lemma note_effect:
  assumes "dir \<noteq> []" and "\<not> engineHeld w" and "\<not> fileGone (heardFile dir pk) w" and "heardOf (catchupKey u pk) h < UnixMilli t"
    and "noteHeard ord False False True dir listed u pk t True h w = (h', w')"
  shows "heardAt h' = (heardAt h)(catchupKey u pk \<mapsto> UnixMilli t)"
    and "w_files w' (heardFile dir pk) = Some (Join_nl (heard_text pk listed h' (ord (heardAt h'))) @ [CHR 0x0A])"
  using assms by (auto simp: noteHeard_def Let_def heardFile_def)

lemma map_of_keys: "map_of (map (\<lambda>(relay, v). (catchupKey relay pk, v)) rs) (catchupKey relay pk) = map_of rs relay"
  by (induction rs) (auto simp: catchupKey_inj)


section \<open>Files that are gone\<close>

text \<open>What runners that are still finishing may do to the files, in any order and with any outcome; none of it starts a runner.\<close>

inductive file_step :: "world \<Rightarrow> world \<Rightarrow> bool" where
  "writeLocked io ls s w = (s', w') \<Longrightarrow> file_step w w'"
| "write_seen io ls s w = (s', w') \<Longrightarrow> file_step w w'"
| "compactLocked fate now s w = (s', w') \<Longrightarrow> file_step w w'"
| "file_step w (mark_file afate path mark w)"
| "file_step (x_world x) (x_world (saveLast wfate ts r x))"
| "noteHeard ord stopped stopped' written dir listed u pk t now' h w = (h', w') \<Longrightarrow> file_step w w'"

lemma compact_gone: "fileGone p w \<Longrightarrow> compactLocked fate now s w = (s', w') \<Longrightarrow> goneFiles w' = goneFiles w \<and> w_files w' p = w_files w p"
  by (auto simp: compactLocked_def Let_def split: if_splits option.splits compact_fate.splits)

lemma write_gone: "fileGone p w \<Longrightarrow> writeLocked io ls s w = (s', w') \<Longrightarrow> goneFiles w' = goneFiles w \<and> w_files w' p = w_files w p"
proof -
  assume g: "fileGone p w" and wr: "writeLocked io ls s w = (s', w')"
  let ?w = "w\<lparr>w_files := (w_files w)(s_path s \<mapsto> file_of (s_path s) w @ lines_text ls)\<rparr>"
  have "fileGone p ?w" using g by (simp add: fileGone_def)
  note c = compact_gone [OF this, of "io_compact io" "io_now io" "s\<lparr>s_lines := s_lines s + length ls\<rparr>" s' w']
  show ?thesis using g wr c by (cases "io_append io") (auto simp: writeLocked_def Let_def split: if_splits)
qed

lemma file_step_gone: "file_step w w' \<Longrightarrow> fileGone p w \<Longrightarrow> goneFiles w' = goneFiles w \<and> w_files w' p = w_files w p"
proof (induction rule: file_step.induct)
  case (2 io ls s w s' w')
  then show ?case using write_gone by (auto simp: write_seen_def split: if_splits)
next
  case (4 w afate path mark)
  then show ?case by (auto simp: mark_file_def fileGone_def Let_def split: option.split append_fate.split)
next
  case (5 x wfate ts r)
  then show ?case by (cases wfate) (auto simp: saveLast_def Let_def fileGone_def)
next
  case (6 ord stopped stopped' written dir listed u pk t now' h w h' w')
  then show ?case by (auto simp: noteHeard_def Let_def split: if_splits)
qed (use write_gone compact_gone in blast)+

lemma drop_paths:
  "goneFiles (foldl (\<lambda>w p. w\<lparr>goneFiles := insert p (goneFiles w), w_files := (if removed p then (w_files w)(p := None) else w_files w)\<rparr>) w ps) = goneFiles w \<union> set ps"
  "p \<in> set ps \<Longrightarrow> removed p \<Longrightarrow>
    w_files (foldl (\<lambda>w p. w\<lparr>goneFiles := insert p (goneFiles w), w_files := (if removed p then (w_files w)(p := None) else w_files w)\<rparr>) w ps) p = None"
proof -
  let ?f = "\<lambda>w p. w\<lparr>goneFiles := insert p (goneFiles w), w_files := (if removed p then (w_files w)(p := None) else w_files w)\<rparr>"
  show "goneFiles (foldl ?f w ps) = goneFiles w \<union> set ps" by (induction ps arbitrary: w) auto
  have keep: "w_files w p = None \<Longrightarrow> w_files (foldl ?f w ps) p = None" for w ps by (induction ps arbitrary: w) auto
  show "p \<in> set ps \<Longrightarrow> removed p \<Longrightarrow> w_files (foldl ?f w ps) p = None"
    by (induction ps arbitrary: w) (auto simp: keep)
qed

text \<open>
  Once an address is let go of, its three files are off the disk, as far as they could be removed, and nothing that is still finishing
  on them brings one back, until a runner starts on the address again; what was heard on it is forgotten.
\<close>

theorem dropped_stays_gone:
  assumes "dir \<noteq> []" and "dropAddressFiles removed dir pk h w = (h', w1)" and "p \<in> {fst (addressFiles dir pk), snd (addressFiles dir pk), heardFile dir pk}"
    and "removed p" and "file_step\<^sup>*\<^sup>* w1 w2"
  shows "w_files w2 p = None \<and> fileGone p w2 \<and> heardOf (catchupKey u pk) h' = 0"
proof -
  have p: "p \<in> set (address_paths dir pk)" using assms(3) by (auto simp: address_paths_def split_beta)
  have "fst (addressFiles dir pk) \<noteq> []" using assms(1) by (simp add: addressFiles_def)
  then have w1: "w1 = foldl (\<lambda>w p. w\<lparr>goneFiles := insert p (goneFiles w), w_files := (if removed p then (w_files w)(p := None) else w_files w)\<rparr>) w (address_paths dir pk)"
    and h': "h' = dropHeard pk h" using assms(2) by (simp_all add: dropAddressFiles_def)
  have g1: "fileGone p w1" using p unfolding w1 fileGone_def drop_paths(1) by blast
  have n1: "w_files w1 p = None" unfolding w1 by (rule drop_paths(2) [where removed = removed, OF p assms(4)])
  from assms(5) have "w_files w2 p = None \<and> fileGone p w2"
  proof (induction rule: rtranclp_induct)
    case (step v v')
    then show ?case using file_step_gone [OF step.hyps(2), of p] by (simp add: fileGone_def)
  qed (use g1 n1 in blast)
  moreover have "has_suffix (catchupKey u pk) ('' '' @ pk)" unfolding has_suffix_def catchupKey_def by (rule suffixI) simp
  ultimately show ?thesis by (simp add: h' dropHeard_def heardOf_def)
qed

section \<open>An example\<close>

definition heard_world :: world where
  "heard_world = \<lparr>w_files = [''d/nostr_last_pk'' \<mapsto> ''70''], heldFreed = (\<lambda>_. 0), engineHeld = False, goneFiles = {}, heldMissed = (\<lambda>_ _ _. 0), liveSeen = (\<lambda>_. {})\<rparr>"

theorem dropped_stays_gone_witness:
  "w_files heard_world ''d/nostr_last_pk'' \<noteq> None \<and> w_files (snd (dropAddressFiles (\<lambda>_. True) ''d'' ''pk'' nothing_heard heard_world)) ''d/nostr_last_pk'' = None"
proof -
  obtain h' w1 where d: "dropAddressFiles (\<lambda>_. True) ''d'' ''pk'' nothing_heard heard_world = (h', w1)" by force
  have "snd (addressFiles ''d'' ''pk'') = ''d/nostr_last_pk''" by (simp add: addressFiles_def short_pk_def)
  then have "w_files w1 ''d/nostr_last_pk'' = None" using dropped_stays_gone [OF _ d, of "''d/nostr_last_pk''" w1] by simp
  moreover have "w_files heard_world ''d/nostr_last_pk'' \<noteq> None" by (simp add: heard_world_def)
  ultimately show ?thesis by (simp add: d)
qed


end
